(* ===== verification/Prelude.thy ===== *)
theory Prelude
  imports Main "HOL-Library.Word"
begin

text \<open>
  Shared vocabulary of the development: the machine types of the C sources, byte orders,
  the effect of \<open>memcpy\<close> on a buffer, and the generic list facts the component theories use.

  \<^item> \<open>byte\<close>, \<open>u32\<close>, \<open>u64\<close> are \<open>uint8_t\<close>, \<open>uint32_t\<close>, \<open>uint64_t\<close>; a signed C integer is the
    word with its bits, read with \<open>sint\<close> where the code compares it as a signed number.
  \<^item> \<open>le32\<close>, \<open>le64\<close> are the bytes of a word in the memory of the little-endian hosts the
    program is built for (x86), \<open>be32\<close>, \<open>be64\<close> the network order; \<open>of_le32\<close> ... read them.
  \<^item> \<open>memwrite off src dst\<close> is the buffer \<open>dst\<close> after \<open>memcpy (dst + off, src, length src)\<close>.

  The collection \<open>byte_codec\<close> holds the round trips of the byte orders, \<open>proto_consts\<close> the
  values of the protocol's constants.
\<close>

unbundle bit_operations_syntax

type_synonym byte = "8 word"
type_synonym bytes = "8 word list"
type_synonym u32 = "32 word"
type_synonym u64 = "64 word"

named_theorems byte_codec \<open>round trips and lengths of the byte orders\<close>
named_theorems proto_consts \<open>the protocol constants unfolded\<close>

section \<open>Byte orders\<close>

definition be32 :: "u32 \<Rightarrow> bytes" where
  "be32 w = [ucast (drop_bit 24 w), ucast (drop_bit 16 w), ucast (drop_bit 8 w), ucast w]"

definition le32 :: "u32 \<Rightarrow> bytes" where
  "le32 w = [ucast w, ucast (drop_bit 8 w), ucast (drop_bit 16 w), ucast (drop_bit 24 w)]"

definition be64 :: "u64 \<Rightarrow> bytes" where
  "be64 w = [ucast (drop_bit 56 w), ucast (drop_bit 48 w), ucast (drop_bit 40 w),
    ucast (drop_bit 32 w), ucast (drop_bit 24 w), ucast (drop_bit 16 w),
    ucast (drop_bit 8 w), ucast w]"

definition le64 :: "u64 \<Rightarrow> bytes" where
  "le64 w = [ucast w, ucast (drop_bit 8 w), ucast (drop_bit 16 w), ucast (drop_bit 24 w),
    ucast (drop_bit 32 w), ucast (drop_bit 40 w), ucast (drop_bit 48 w), ucast (drop_bit 56 w)]"

fun of_le32 :: "bytes \<Rightarrow> u32" where
  "of_le32 (a # b # c # d # _) =
     ucast a OR push_bit 8 (ucast b) OR push_bit 16 (ucast c) OR push_bit 24 (ucast d)"
| "of_le32 _ = 0"

fun of_le64 :: "bytes \<Rightarrow> u64" where
  "of_le64 (a # b # c # d # e # f # g # h # _) =
     ucast a OR push_bit 8 (ucast b) OR push_bit 16 (ucast c) OR push_bit 24 (ucast d) OR
     push_bit 32 (ucast e) OR push_bit 40 (ucast f) OR push_bit 48 (ucast g) OR push_bit 56 (ucast h)"
| "of_le64 _ = 0"

text \<open>The byte reversal of \<open>__builtin_bswap32\<close>, which is what \<open>htonl\<close> and \<open>ntohl\<close> do on a
  little-endian host.\<close>

definition bswap32 :: "u32 \<Rightarrow> u32" where
  "bswap32 w = push_bit 24 (ucast (ucast w :: byte)) OR
     push_bit 16 (ucast (ucast (drop_bit 8 w) :: byte)) OR
     push_bit 8 (ucast (ucast (drop_bit 16 w) :: byte)) OR
     ucast (ucast (drop_bit 24 w) :: byte)"

section \<open>Buffers\<close>

definition memwrite :: "nat \<Rightarrow> 'a list \<Rightarrow> 'a list \<Rightarrow> 'a list" where
  "memwrite off src dst = take off dst @ src @ drop (off + length src) dst"

section \<open>Facts about the byte orders\<close>

lemma length_byte_orders [simp, byte_codec]:
  "length (be32 w) = 4" "length (le32 w) = 4" "length (be64 x) = 8" "length (le64 x) = 8"
  by (simp_all add: be32_def le32_def be64_def le64_def)

lemma le32_bswap32 [byte_codec]: "le32 (bswap32 w) = be32 w"
  unfolding le32_def be32_def bswap32_def
  by (simp, intro conjI; rule bit_word_eqI; simp add: bit_simps)

lemma bswap32_invol [byte_codec]: "bswap32 (bswap32 w) = w"
  unfolding bswap32_def by (rule bit_word_eqI, simp add: bit_simps cong: conj_cong) arith

lemma of_le32_le32 [byte_codec]: "of_le32 (le32 w @ xs) = w"
  unfolding le32_def by (simp, rule bit_word_eqI, simp add: bit_simps cong: conj_cong) arith

lemma of_le32_be32 [byte_codec]: "bswap32 (of_le32 (be32 w @ xs)) = w"
  by (simp add: le32_bswap32 [symmetric] of_le32_le32 bswap32_invol)

lemma of_le32_take: "4 \<le> n \<Longrightarrow> of_le32 (take n xs) = of_le32 xs"
  by (cases xs rule: of_le32.cases) (auto simp: take_Cons')

text \<open>A 64-bit word is the disjunction of its eight byte lanes.\<close>

lemma bit_byte_lane:
  fixes w :: u64
  assumes "n < 64"
  shows "bit (push_bit (8 * k) (ucast (ucast (drop_bit (8 * k) w) :: byte)) :: u64) n \<longleftrightarrow>
    bit w n \<and> n div 8 = k"
proof -
  have "8 * k \<le> n \<and> n - 8 * k < 8 \<longleftrightarrow> n div 8 = k"
    using div_nat_eqI [of 8 k n] mod_less_divisor [of 8 n]
    by (auto simp: minus_div_mult_eq_mod [symmetric])
  with assms show ?thesis by (auto simp: bit_simps)
qed

lemma of_le64_le64 [byte_codec]: "of_le64 (le64 w @ xs) = w"
proof (rule bit_word_eqI)
  fix n assume "n < LENGTH(64)"
  then have n: "n < 64" by simp
  note lane = bit_byte_lane [OF n]
  have "bit (of_le64 (le64 w @ xs)) n \<longleftrightarrow> bit w n \<and>
      (n div 8 = 0 \<or> n div 8 = 1 \<or> n div 8 = 2 \<or> n div 8 = 3 \<or> n div 8 = 4 \<or> n div 8 = 5
       \<or> n div 8 = 6 \<or> n div 8 = 7)" (is "_ = (_ \<and> ?D)")
    using lane [of 0 w] lane [of 1 w] lane [of 2 w] lane [of 3 w] lane [of 4 w] lane [of 5 w]
      lane [of 6 w] lane [of 7 w]
    by (simp add: le64_def bit_or_iff) blast
  moreover have ?D
  proof -
    have "q < 8 \<Longrightarrow> q = 0 \<or> q = 1 \<or> q = 2 \<or> q = 3 \<or> q = 4 \<or> q = 5 \<or> q = 6 \<or> q = 7" for q :: nat
      by linarith
    then show ?thesis using n by simp
  qed
  ultimately show "bit (of_le64 (le64 w @ xs)) n = bit w n" by blast
qed

lemma rev_le64: "rev (le64 w) = be64 w"
  by (simp add: le64_def be64_def)

section \<open>Facts about buffers\<close>

lemma length_memwrite [simp]:
  "off + length src \<le> length dst \<Longrightarrow> length (memwrite off src dst) = length dst"
  by (simp add: memwrite_def)

lemma length_memwrite_max:
  "off \<le> length dst \<Longrightarrow> length (memwrite off src dst) = max (length dst) (off + length src)"
  by (simp add: memwrite_def)

lemma take_length_take: "take (length (take k xs)) xs = take k xs"
  by (simp add: min_def)

lemma memwrite_end [simp]: "memwrite (length dst) src dst = dst @ src"
  by (simp add: memwrite_def)

lemma take_memwrite:
  "off \<le> length dst \<Longrightarrow> take (off + length src) (memwrite off src dst) = take off dst @ src"
  by (simp add: memwrite_def)

lemma nth_memwrite:
  assumes "off \<le> length dst" "i < off + length src \<or> i < length dst"
  shows "memwrite off src dst ! i =
    (if off \<le> i \<and> i < off + length src then src ! (i - off) else dst ! i)"
  using assms by (auto simp: memwrite_def nth_append min_def)

end
