(* ===== verification/Block_Db.thy ===== *)
theory Block_Db
  imports Prelude "HOL-Library.Product_Lexorder"
begin

text \<open>
  The client's block tracking database, \<^verbatim>\<open>client/sqlite.c\<close>: the tables \<open>T_BLOCK\<close> and \<open>T_VERSION\<close> and
  every operation on them.

  A table is the list of its rows in insertion order; each operation performs the effect of its
  SQL statement on these lists.  What the SQLite engine answers is an argument: the statement
  cannot be prepared, its (first) step fails, or it runs.  \<open>INSERT OR REPLACE\<close> deletes the row with the
  same key of the unique index (devno, offset) and appends the new one; \<open>ORDER BY\<close> compares signed
  numbers; a \<open>LIMIT\<close> (and the loop bound of the readers) takes a prefix.

  The locale \<open>block_store\<close> states what the transfer relies on; \<open>tblock\<close> interprets it on the
  operations of this file.
\<close>

datatype sql_outcome = PrepareFails | StepFails | Runs

record block_info_t =
  b_devno :: u32
  b_offset :: u64
  b_size :: u32
  b_hash :: u64
  b_ack :: int
  b_last_sent :: u64
  b_version :: int
  b_remote_id :: string

record version_info_t =
  v_version :: int
  v_start_time :: int
  v_end_time :: int
  v_scanned_count :: int
  v_changed_count :: int

record version_row = version_info_t +
  v_remote_id :: string

record sqlite_db =
  db_blocks :: "block_info_t list"
  db_versions :: "version_row list"
  db_remote_id :: string

text \<open>The database file: its rows, and whether \<open>T_BLOCK\<close> was created with the column \<open>version\<close>.\<close>

record db_file =
  f_blocks :: "block_info_t list"
  f_versions :: "version_row list"
  f_has_version :: bool

text \<open>
  \<open>sqlite_open\<close>: the outcomes of opening the file, of the two \<open>CREATE TABLE\<close> statements and of
  \<open>malloc\<close> are arguments.  A file without the column gets it with the default 0 in every row; a
  failing \<open>ALTER TABLE\<close> is only logged and leaves the rows as they are (every later statement that
  names the column then fails to prepare).
\<close>

definition sqlite_open :: "bool \<Rightarrow> bool \<Rightarrow> bool \<Rightarrow> bool \<Rightarrow> bool \<Rightarrow> db_file \<Rightarrow> sqlite_db option" where
  "sqlite_open open_ok create_ok alter_ok create_v_ok alloc f =
     (if \<not> open_ok then None
      else if \<not> create_ok then None
      else
        let rows = (if \<not> f_has_version f \<and> alter_ok
                    then map (\<lambda>r. r\<lparr>b_version := 0\<rparr>) (f_blocks f) else f_blocks f)
        in if \<not> create_v_ok then None
           else if \<not> alloc then None
           else Some \<lparr>db_blocks = rows, db_versions = f_versions f, db_remote_id = []\<rparr>)"

section \<open>Operations on T_BLOCK\<close>

definition has_key :: "u32 \<Rightarrow> u64 \<Rightarrow> block_info_t \<Rightarrow> bool" where
  "has_key devno off r \<longleftrightarrow> b_devno r = devno \<and> b_offset r = off"

text \<open>The \<open>remote_id\<close> argument, or that of the database when it is NULL.\<close>

definition rid_of :: "sqlite_db \<Rightarrow> string option \<Rightarrow> string" where
  "rid_of db remote_id = (case remote_id of None \<Rightarrow> db_remote_id db | Some r \<Rightarrow> r)"

definition sqlite_total_acked_bytes :: "sql_outcome \<Rightarrow> sqlite_db \<Rightarrow> int" where
  "sqlite_total_acked_bytes eng db =
     (case eng of
        PrepareFails \<Rightarrow> -1
      | StepFails \<Rightarrow> 0
      | Runs \<Rightarrow> sum_list (map (\<lambda>r. sint (b_size r)) (filter (\<lambda>r. b_ack r = 1) (db_blocks db))))"

definition sqlite_clear_all_blocks :: "sql_outcome \<Rightarrow> sqlite_db \<Rightarrow> int \<times> sqlite_db" where
  "sqlite_clear_all_blocks eng db = (case eng of Runs \<Rightarrow> (0, db\<lparr>db_blocks := []\<rparr>) | _ \<Rightarrow> (-1, db))"

definition sqlite_set_remote_id :: "sqlite_db \<Rightarrow> string option \<Rightarrow> sqlite_db" where
  "sqlite_set_remote_id db remote_id =
     (case remote_id of None \<Rightarrow> db | Some r \<Rightarrow> db\<lparr>db_remote_id := take 255 r\<rparr>)"

text \<open>\<open>out_hash\<close> is returned with the code, \<open>None\<close> when it is not written.\<close>

definition sqlite_block_lookup :: "sql_outcome \<Rightarrow> sqlite_db \<Rightarrow> u32 \<Rightarrow> u64 \<Rightarrow> int \<times> u64 option" where
  "sqlite_block_lookup eng db devno off =
     (case eng of
        PrepareFails \<Rightarrow> (-2, None)
      | StepFails \<Rightarrow> (-2, None)
      | Runs \<Rightarrow> (case find (has_key devno off) (db_blocks db) of
                  Some r \<Rightarrow> (0, Some (b_hash r))
                | None \<Rightarrow> (-1, None)))"

definition sqlite_block_acked :: "sql_outcome \<Rightarrow> sqlite_db \<Rightarrow> u32 \<Rightarrow> u64 \<Rightarrow> int" where
  "sqlite_block_acked eng db devno off =
     (case eng of
        Runs \<Rightarrow> (case find (has_key devno off) (db_blocks db) of
                  Some r \<Rightarrow> if b_ack r \<noteq> 0 then 1 else 0
                | None \<Rightarrow> -1)
      | _ \<Rightarrow> -1)"

definition sqlite_block_upsert_v ::
  "sql_outcome \<Rightarrow> sqlite_db \<Rightarrow> u32 \<Rightarrow> u64 \<Rightarrow> u32 \<Rightarrow> u64 \<Rightarrow> int \<Rightarrow> int \<Rightarrow> int \<times> sqlite_db" where
  "sqlite_block_upsert_v eng db devno off sz hash ack version =
     (case eng of
        Runs \<Rightarrow>
          (0, db\<lparr>db_blocks := filter (\<lambda>r. \<not> has_key devno off r) (db_blocks db) @
                [\<lparr>b_devno = devno, b_offset = off, b_size = sz, b_hash = hash, b_ack = ack,
                  b_last_sent = 0, b_version = version, b_remote_id = db_remote_id db\<rparr>]\<rparr>)
      | _ \<Rightarrow> (-1, db))"

definition sqlite_block_upsert ::
  "sql_outcome \<Rightarrow> sqlite_db \<Rightarrow> u32 \<Rightarrow> u64 \<Rightarrow> u32 \<Rightarrow> u64 \<Rightarrow> int \<Rightarrow> int \<times> sqlite_db" where
  "sqlite_block_upsert eng db devno off sz hash ack = sqlite_block_upsert_v eng db devno off sz hash ack 0"

text \<open>\<open>UPDATE T_BLOCK SET ... WHERE devno=? AND offset=?\<close>\<close>

definition update_key :: "u32 \<Rightarrow> u64 \<Rightarrow> (block_info_t \<Rightarrow> block_info_t) \<Rightarrow> sqlite_db \<Rightarrow> sqlite_db" where
  "update_key devno off f db =
     db\<lparr>db_blocks := map (\<lambda>r. if has_key devno off r then f r else r) (db_blocks db)\<rparr>"

definition sqlite_block_mark_acked :: "sql_outcome \<Rightarrow> sqlite_db \<Rightarrow> u32 \<Rightarrow> u64 \<Rightarrow> int \<times> sqlite_db" where
  "sqlite_block_mark_acked eng db devno off =
     (case eng of Runs \<Rightarrow> (0, update_key devno off (\<lambda>r. r\<lparr>b_ack := 1\<rparr>) db) | _ \<Rightarrow> (-1, db))"

definition sqlite_update_last_sent :: "sql_outcome \<Rightarrow> sqlite_db \<Rightarrow> u32 \<Rightarrow> u64 \<Rightarrow> u64 \<Rightarrow> int \<times> sqlite_db" where
  "sqlite_update_last_sent eng db devno off timestamp_ms =
     (case eng of Runs \<Rightarrow> (0, update_key devno off (\<lambda>r. r\<lparr>b_last_sent := timestamp_ms\<rparr>) db) | _ \<Rightarrow> (-1, db))"

definition sqlite_block_mark_verified :: "sql_outcome \<Rightarrow> sqlite_db \<Rightarrow> u32 \<Rightarrow> u64 \<Rightarrow> int \<Rightarrow> int \<times> sqlite_db" where
  "sqlite_block_mark_verified eng db devno off version =
     (case eng of
        Runs \<Rightarrow> (0, update_key devno off (\<lambda>r. r\<lparr>b_version := version, b_ack := 1\<rparr>) db)
      | _ \<Rightarrow> (-1, db))"

definition unacked :: "string \<Rightarrow> block_info_t \<Rightarrow> bool" where
  "unacked rid r \<longleftrightarrow> b_ack r = 0 \<and> b_remote_id r = rid"

text \<open>\<open>ORDER BY last_sent, offset\<close>\<close>

definition age_key :: "block_info_t \<Rightarrow> int \<times> int" where
  "age_key r = (sint (b_last_sent r), sint (b_offset r))"

definition sqlite_get_unacked :: "sql_outcome \<Rightarrow> sqlite_db \<Rightarrow> int \<Rightarrow> string option \<Rightarrow> int \<times> (u32 \<times> u64) list" where
  "sqlite_get_unacked eng db max_entries remote_id =
     (case eng of
        PrepareFails \<Rightarrow> (-1, [])
      | StepFails \<Rightarrow> (0, [])
      | Runs \<Rightarrow>
          let rows = take (nat max_entries) (sort_key age_key (filter (unacked (rid_of db remote_id)) (db_blocks db)))
          in (int (length rows), map (\<lambda>r. (b_devno r, b_offset r)) rows))"

definition sqlite_get_unacked_with_hash ::
  "sql_outcome \<Rightarrow> sqlite_db \<Rightarrow> int \<Rightarrow> string option \<Rightarrow> int \<times> (u32 \<times> u64 \<times> u64 \<times> u64) list" where
  "sqlite_get_unacked_with_hash eng db max_entries remote_id =
     (case eng of
        PrepareFails \<Rightarrow> (-1, [])
      | StepFails \<Rightarrow> (0, [])
      | Runs \<Rightarrow>
          let rows = take (nat max_entries) (sort_key age_key (filter (unacked (rid_of db remote_id)) (db_blocks db)))
          in (int (length rows), map (\<lambda>r. (b_devno r, b_offset r, b_hash r, b_last_sent r)) rows))"

definition sqlite_get_block_info :: "sql_outcome \<Rightarrow> sqlite_db \<Rightarrow> u32 \<Rightarrow> u64 \<Rightarrow> int \<times> block_info_t option" where
  "sqlite_get_block_info eng db devno off =
     (case eng of
        Runs \<Rightarrow> (case find (has_key devno off) (db_blocks db) of
                  Some r \<Rightarrow> (0, Some (r\<lparr>b_remote_id := take 255 (b_remote_id r)\<rparr>))
                | None \<Rightarrow> (-1, None))
      | _ \<Rightarrow> (-2, None))"

definition sqlite_list_blocks :: "sql_outcome \<Rightarrow> sqlite_db \<Rightarrow> u32 \<Rightarrow> int \<Rightarrow> int \<times> block_info_t list" where
  "sqlite_list_blocks eng db devno max_count =
     (case eng of
        PrepareFails \<Rightarrow> (-1, [])
      | StepFails \<Rightarrow> (0, [])
      | Runs \<Rightarrow>
          let rows = (if sint devno \<ge> 0
                      then sort_key (\<lambda>r. sint (b_offset r)) (filter (\<lambda>r. b_devno r = devno) (db_blocks db))
                      else sort_key (\<lambda>r. (sint (b_devno r), sint (b_offset r))) (db_blocks db));
              rows = take (nat max_count) rows
          in (int (length rows), map (\<lambda>r. r\<lparr>b_remote_id := take 255 (b_remote_id r)\<rparr>) rows))"

definition count_where :: "sql_outcome \<Rightarrow> (block_info_t \<Rightarrow> bool) \<Rightarrow> sqlite_db \<Rightarrow> int" where
  "count_where eng P db =
     (case eng of PrepareFails \<Rightarrow> -1 | StepFails \<Rightarrow> 0 | Runs \<Rightarrow> int (length (filter P (db_blocks db))))"

definition sqlite_count_blocks :: "sql_outcome \<Rightarrow> sqlite_db \<Rightarrow> u32 \<Rightarrow> int \<Rightarrow> int" where
  "sqlite_count_blocks eng db devno ack =
     count_where eng (\<lambda>r. (sint devno \<ge> 0 \<longrightarrow> b_devno r = devno) \<and> (ack \<ge> 0 \<longrightarrow> b_ack r = ack)) db"

definition sqlite_reset_acked :: "sql_outcome \<Rightarrow> sqlite_db \<Rightarrow> string option \<Rightarrow> int \<times> sqlite_db" where
  "sqlite_reset_acked eng db remote_id =
     (case eng of
        Runs \<Rightarrow>
          let hit = (\<lambda>r. b_ack r = 1 \<and> b_remote_id r = rid_of db remote_id)
          in (int (length (filter hit (db_blocks db))),
              db\<lparr>db_blocks := map (\<lambda>r. if hit r then r\<lparr>b_ack := 0\<rparr> else r) (db_blocks db)\<rparr>)
      | _ \<Rightarrow> (-1, db))"

definition sqlite_count_unacked :: "sql_outcome \<Rightarrow> sqlite_db \<Rightarrow> string option \<Rightarrow> int" where
  "sqlite_count_unacked eng db remote_id = count_where eng (unacked (rid_of db remote_id)) db"

definition sqlite_count_unacked_v :: "sql_outcome \<Rightarrow> sqlite_db \<Rightarrow> string option \<Rightarrow> int \<Rightarrow> int" where
  "sqlite_count_unacked_v eng db remote_id before_version =
     count_where eng (\<lambda>r. unacked (rid_of db remote_id) r \<and> b_version r < before_version) db"

definition sqlite_count_blocks_by_version :: "sql_outcome \<Rightarrow> sqlite_db \<Rightarrow> int \<Rightarrow> string option \<Rightarrow> int" where
  "sqlite_count_blocks_by_version eng db version remote_id =
     (let rid = rid_of db remote_id in
      if rid \<noteq> [] then count_where eng (\<lambda>r. b_version r = version \<and> b_remote_id r = rid) db
      else count_where eng (\<lambda>r. b_version r = version) db)"

section \<open>Operations on T_VERSION\<close>

definition sqlite_get_next_version :: "sql_outcome \<Rightarrow> sqlite_db \<Rightarrow> string option \<Rightarrow> int" where
  "sqlite_get_next_version eng db remote_id =
     (case eng of
        PrepareFails \<Rightarrow> -1
      | StepFails \<Rightarrow> 1
      | Runs \<Rightarrow>
          (case map v_version (filter (\<lambda>v. v_remote_id v = rid_of db remote_id) (db_versions db)) of
             [] \<Rightarrow> 0 + 1
           | x # xs \<Rightarrow> signed_take_bit 31 (fold max xs x + 1)))"

definition sqlite_version_start :: "sql_outcome \<Rightarrow> sqlite_db \<Rightarrow> int \<Rightarrow> string option \<Rightarrow> int \<Rightarrow> int \<times> sqlite_db" where
  "sqlite_version_start eng db version remote_id start_time_ms =
     (case eng of
        Runs \<Rightarrow> (0, db\<lparr>db_versions := db_versions db @
           [\<lparr>v_version = version, v_start_time = start_time_ms, v_end_time = 0, v_scanned_count = 0,
             v_changed_count = 0, v_remote_id = rid_of db remote_id\<rparr>]\<rparr>)
      | _ \<Rightarrow> (-1, db))"

definition sqlite_version_end ::
  "sql_outcome \<Rightarrow> sqlite_db \<Rightarrow> int \<Rightarrow> string option \<Rightarrow> int \<Rightarrow> int \<Rightarrow> int \<Rightarrow> int \<times> sqlite_db" where
  "sqlite_version_end eng db version remote_id end_time_ms scanned_delta changed_delta =
     (case eng of
        Runs \<Rightarrow> (0, db\<lparr>db_versions := map (\<lambda>v.
           if v_version v = version \<and> v_remote_id v = rid_of db remote_id
           then v\<lparr>v_end_time := end_time_ms, v_scanned_count := v_scanned_count v + scanned_delta,
                  v_changed_count := v_changed_count v + changed_delta\<rparr>
           else v) (db_versions db)\<rparr>)
      | _ \<Rightarrow> (-1, db))"

definition sqlite_get_version_history ::
  "sql_outcome \<Rightarrow> sqlite_db \<Rightarrow> string option \<Rightarrow> int \<Rightarrow> int \<times> version_info_t list" where
  "sqlite_get_version_history eng db remote_id max_count =
     (case eng of
        PrepareFails \<Rightarrow> (-1, [])
      | StepFails \<Rightarrow> (0, [])
      | Runs \<Rightarrow>
          let rid = rid_of db remote_id;
              rows = (if rid \<noteq> [] then filter (\<lambda>v. v_remote_id v = rid) (db_versions db) else db_versions db);
              rows = take (nat max_count) (sort_key v_version rows)
          in (int (length rows), map version_info_t.truncate rows))"

definition sqlite_get_version_info :: "sql_outcome \<Rightarrow> sqlite_db \<Rightarrow> int \<Rightarrow> string option \<Rightarrow> int \<times> version_info_t option" where
  "sqlite_get_version_info eng db version remote_id =
     (case eng of
        Runs \<Rightarrow> (case find (\<lambda>v. v_version v = version \<and> v_remote_id v = rid_of db remote_id) (db_versions db) of
                  Some v \<Rightarrow> (0, Some (version_info_t.truncate v))
                | None \<Rightarrow> (-1, None))
      | _ \<Rightarrow> (-2, None))"

section \<open>The block table as a map\<close>

text \<open>The unique index: no two rows have the same device and offset.\<close>

definition row_key :: "block_info_t \<Rightarrow> u32 \<times> u64" where
  "row_key r = (b_devno r, b_offset r)"

definition db_inv :: "sqlite_db \<Rightarrow> bool" where
  "db_inv db \<longleftrightarrow> distinct (map row_key (db_blocks db))"

definition row_of :: "sqlite_db \<Rightarrow> u32 \<times> u64 \<Rightarrow> block_info_t option" where
  "row_of db k = find (has_key (fst k) (snd k)) (db_blocks db)"

definition view :: "sqlite_db \<Rightarrow> u32 \<times> u64 \<Rightarrow> (u64 \<times> bool) option" where
  "view db k = map_option (\<lambda>r. (b_hash r, b_ack r \<noteq> 0)) (row_of db k)"

text \<open>The operations that change \<open>T_BLOCK\<close> during a transfer.\<close>

datatype ('k, 'h) store_op = SUpsert 'k 'h bool | SMark 'k | STouch 'k

fun spec_op :: "('k, 'h) store_op \<Rightarrow> ('k \<Rightarrow> ('h \<times> bool) option) \<Rightarrow> 'k \<Rightarrow> ('h \<times> bool) option" where
  "spec_op (SUpsert k h a) m = m(k \<mapsto> (h, a))"
| "spec_op (SMark k) m = m(k := map_option (\<lambda>(h, a). (h, True)) (m k))"
| "spec_op (STouch k) m = m"

locale block_store =
  fixes abs :: "'d \<Rightarrow> 'k \<Rightarrow> ('h \<times> bool) option"
    and ok :: "'d \<Rightarrow> bool"
    and step :: "'o \<Rightarrow> 'd \<Rightarrow> 'd"
    and op_of :: "'o \<Rightarrow> ('k, 'h) store_op option"
  assumes ok_step: "ok d \<Longrightarrow> ok (step c d)"
    and abs_step: "ok d \<Longrightarrow> abs (step c d) = (case op_of c of None \<Rightarrow> abs d | Some sop \<Rightarrow> spec_op sop (abs d))"
begin

lemma run_ok: "ok d \<Longrightarrow> ok (fold step cs d)"
  by (induction cs arbitrary: d) (auto intro: ok_step)

lemma run_abs: "ok d \<Longrightarrow> abs (fold step cs d) = fold spec_op (List.map_filter op_of cs) (abs d)"
  by (induction cs arbitrary: d) (auto simp: List.map_filter_simps ok_step abs_step split: option.splits)

text \<open>An acknowledged key stays acknowledged unless it is stored again as not acknowledged.\<close>

lemma ack_stable:
  assumes "ok d" "abs d k = Some (h, True)" "\<And>c h. c \<in> set cs \<Longrightarrow> op_of c \<noteq> Some (SUpsert k h False)"
  shows "\<exists>h. abs (fold step cs d) k = Some (h, True)"
  using assms
proof (induction cs arbitrary: d h)
  case (Cons c cs)
  have "\<exists>h'. abs (step c d) k = Some (h', True)"
  proof (cases "op_of c")
    case None
    then show ?thesis using Cons.prems abs_step [of d c] by simp
  next
    case (Some sop)
    have "\<exists>h'. spec_op sop (abs d) k = Some (h', True)"
      using Cons.prems(2) Cons.prems(3) [of c] Some by (cases sop) auto
    then show ?thesis using Cons.prems(1) Some abs_step [of d c] by simp
  qed
  then show ?case using Cons.IH [OF ok_step] Cons.prems by auto
qed simp

end

text \<open>The statements of a transfer on the database, each with the answer of the engine.\<close>

datatype block_stmt =
    Upsert sql_outcome u32 u64 u32 u64 int int
  | MarkAcked sql_outcome u32 u64
  | MarkVerified sql_outcome u32 u64 int
  | LastSent sql_outcome u32 u64 u64

fun exec_stmt :: "block_stmt \<Rightarrow> sqlite_db \<Rightarrow> sqlite_db" where
  "exec_stmt (Upsert eng d off sz h a v) db = snd (sqlite_block_upsert_v eng db d off sz h a v)"
| "exec_stmt (MarkAcked eng d off) db = snd (sqlite_block_mark_acked eng db d off)"
| "exec_stmt (MarkVerified eng d off v) db = snd (sqlite_block_mark_verified eng db d off v)"
| "exec_stmt (LastSent eng d off t) db = snd (sqlite_update_last_sent eng db d off t)"

fun stmt_op :: "block_stmt \<Rightarrow> (u32 \<times> u64, u64) store_op option" where
  "stmt_op (Upsert eng d off sz h a v) = (if eng = Runs then Some (SUpsert (d, off) h (a \<noteq> 0)) else None)"
| "stmt_op (MarkAcked eng d off) = (if eng = Runs then Some (SMark (d, off)) else None)"
| "stmt_op (MarkVerified eng d off v) = (if eng = Runs then Some (SMark (d, off)) else None)"
| "stmt_op (LastSent eng d off t) = (if eng = Runs then Some (STouch (d, off)) else None)"

lemma has_key_row_key: "has_key d off r \<longleftrightarrow> row_key r = (d, off)"
  by (auto simp: has_key_def row_key_def)

lemma find_filter_other: "find P (filter Q xs) = (if \<forall>x. P x \<longrightarrow> Q x then find P xs else find P (filter Q xs))"
  by (induction xs) auto

lemma find_append: "find P (xs @ ys) = (case find P xs of None \<Rightarrow> find P ys | Some x \<Rightarrow> Some x)"
  by (induction xs) auto

lemma find_map_same: "(\<And>x. P (f x) = P x) \<Longrightarrow> find P (map f xs) = map_option f (find P xs)"
  by (induction xs) auto

lemma row_of_upsert:
  "row_of (snd (sqlite_block_upsert_v Runs db d off sz h a v)) k =
    (if k = (d, off) then Some \<lparr>b_devno = d, b_offset = off, b_size = sz, b_hash = h, b_ack = a,
        b_last_sent = 0, b_version = v, b_remote_id = db_remote_id db\<rparr> else row_of db k)"
proof -
  have "find (has_key d off) (filter (\<lambda>r. \<not> has_key d off r) xs) = None" for xs
    by (simp add: find_None_iff)
  moreover have "find (has_key d' off') (filter (\<lambda>r. \<not> has_key d off r) xs) = find (has_key d' off') xs"
    if "(d', off') \<noteq> (d, off)" for d' off' xs
    using that by (subst find_filter_other) (auto simp: has_key_row_key)
  ultimately show ?thesis
    by (cases k) (auto simp: row_of_def sqlite_block_upsert_v_def find_append has_key_def split: option.split)
qed

lemma row_of_update_key:
  assumes "\<And>r. row_key (f r) = row_key r"
  shows "row_of (update_key d off f db) k = (if k = (d, off) then map_option f (row_of db k) else row_of db k)"
proof -
  let ?g = "\<lambda>r. if has_key d off r then f r else r"
  have "row_of (update_key d off f db) k = map_option ?g (row_of db k)"
    unfolding row_of_def update_key_def using assms by (simp add: find_map_same has_key_row_key)
  also have "\<dots> = (if k = (d, off) then map_option f (row_of db k) else row_of db k)"
  proof (cases "row_of db k")
    case (Some r)
    then have "row_key r = k" by (cases k) (auto simp: row_of_def find_Some_iff has_key_row_key)
    then show ?thesis using Some by (auto simp: has_key_row_key)
  qed auto
  finally show ?thesis .
qed

lemma inv_upsert: "db_inv db \<Longrightarrow> db_inv (snd (sqlite_block_upsert_v eng db d off sz h a v))"
  by (auto simp: sqlite_block_upsert_v_def db_inv_def distinct_map inj_on_def has_key_row_key
      row_key_def split: sql_outcome.split)

lemma inv_update_key: "(\<And>r. row_key (f r) = row_key r) \<Longrightarrow> db_inv (update_key d off f db) = db_inv db"
  by (simp add: db_inv_def update_key_def comp_def if_distrib cong: if_cong)

lemmas stmt_defs = sqlite_block_mark_acked_def sqlite_block_mark_verified_def sqlite_update_last_sent_def

lemma exec_inv: "db_inv db \<Longrightarrow> db_inv (exec_stmt c db)"
  by (cases c) (auto simp: stmt_defs inv_upsert inv_update_key row_key_def split: sql_outcome.split)

lemma exec_view: "view (exec_stmt c db) = (case stmt_op c of None \<Rightarrow> view db | Some sop \<Rightarrow> spec_op sop (view db))"
proof (cases c)
  case (Upsert eng d off sz h a v)
  then show ?thesis
    by (cases eng) (simp_all add: fun_eq_iff view_def row_of_upsert, simp_all add: sqlite_block_upsert_v_def)
qed (auto simp: fun_eq_iff stmt_defs view_def row_of_update_key row_key_def option.map_comp comp_def
      split: sql_outcome.split option.split)

interpretation tblock: block_store view db_inv exec_stmt stmt_op
  by unfold_locales (simp_all add: exec_inv exec_view)

lemma lookup_view:
  "sqlite_block_lookup Runs db d off = (case view db (d, off) of None \<Rightarrow> (-1, None) | Some (h, a) \<Rightarrow> (0, Some h))"
  by (simp add: sqlite_block_lookup_def view_def row_of_def split: option.split)

lemma acked_view:
  "sqlite_block_acked Runs db d off = (case view db (d, off) of None \<Rightarrow> -1 | Some (h, a) \<Rightarrow> if a then 1 else 0)"
  by (simp add: sqlite_block_acked_def view_def row_of_def split: option.split)

text \<open>
  C14: The tracking table is a map.  From a database with a unique key per row, whatever sequence
  of upserts, acknowledgements, verifications and send time updates is executed and whichever of
  the statements the engine refuses, the keys stay unique and a later lookup of any block returns
  the hash and the acknowledged flag that the same statements give on a plain map from
  (device, offset).
\<close>
theorem block_table_is_map:
  fixes stmts :: "block_stmt list"
  assumes "db_inv db"
  defines "db' \<equiv> fold exec_stmt stmts db"
    and "m \<equiv> fold spec_op (List.map_filter stmt_op stmts) (view db)"
  shows "db_inv db'
    \<and> sqlite_block_lookup Runs db' d off = (case m (d, off) of None \<Rightarrow> (-1, None) | Some (h, a) \<Rightarrow> (0, Some h))
    \<and> sqlite_block_acked Runs db' d off = (case m (d, off) of None \<Rightarrow> -1 | Some (h, a) \<Rightarrow> if a then 1 else 0)"
  unfolding db'_def m_def lookup_view acked_view
  using tblock.run_ok [OF assms(1)] tblock.run_abs [OF assms(1)] by simp

theorem block_table_is_map_witness:
  "sqlite_block_acked Runs (fold exec_stmt [Upsert Runs 1 0 8 77 0 1, MarkAcked StepFails 1 0]
      \<lparr>db_blocks = [], db_versions = [], db_remote_id = ''r''\<rparr>) 1 0 = 0"
  using block_table_is_map [where db = "\<lparr>db_blocks = [], db_versions = [], db_remote_id = ''r''\<rparr>"
      and stmts = "[Upsert Runs 1 0 8 77 0 1, MarkAcked StepFails 1 0]" and d = 1 and off = 0]
  by (simp add: db_inv_def List.map_filter_simps)

text \<open>
  An acknowledgement is permanent: a block recorded as acknowledged is reported as such after
  any sequence of statements among which there is no upsert of that block as unacknowledged.
\<close>
theorem acknowledged_stays:
  assumes "db_inv db" "sqlite_block_acked Runs db d off = 1"
    and "\<forall>sz h a v. Upsert Runs d off sz h a v \<in> set stmts \<longrightarrow> a \<noteq> 0"
  shows "sqlite_block_acked Runs (fold exec_stmt stmts db) d off = 1"
proof -
  obtain h where v: "view db (d, off) = Some (h, True)"
    using assms(2) by (auto simp: acked_view split: option.splits if_splits)
  have "stmt_op c \<noteq> Some (SUpsert (d, off) h' False)" if "c \<in> set stmts" for c h'
    by (insert that assms(3), cases c) (auto split: if_splits)
  then have "\<exists>h. view (fold exec_stmt stmts db) (d, off) = Some (h, True)"
    by (rule tblock.ack_stable [OF assms(1) v])
  then show ?thesis by (auto simp: acked_view)
qed

theorem acknowledged_stays_witness:
  "sqlite_block_acked Runs (fold exec_stmt [LastSent Runs 1 0 5, Upsert Runs 1 4096 8 3 0 1]
     (snd (sqlite_block_upsert_v Runs \<lparr>db_blocks = [], db_versions = [], db_remote_id = ''r''\<rparr> 1 0 8 77 1 1))) 1 0 = 1"
  by (rule acknowledged_stays)
    (simp_all add: db_inv_def sqlite_block_upsert_v_def sqlite_block_acked_def has_key_def)

section \<open>Counting and listing what is not acknowledged\<close>

lemma count_where_update:
  assumes "db_inv db" "row_of db (d, off) = Some r" "row_key (f r) = row_key r"
  shows "int (length (filter P (db_blocks (update_key d off f db)))) =
    int (length (filter P (db_blocks db))) - of_bool (P r) + of_bool (P (f r))"
proof -
  let ?g = "\<lambda>x. if has_key d off x then f x else x"
  from assms(2) have r: "r \<in> set (db_blocks db)" "row_key r = (d, off)"
    by (auto simp: row_of_def find_Some_iff has_key_row_key)
  from split_list [OF r(1)] obtain xs ys where xy: "db_blocks db = xs @ r # ys" by blast
  then have "\<forall>x \<in> set xs \<union> set ys. \<not> has_key d off x"
    using assms(1) r(2) by (auto simp: db_inv_def has_key_row_key image_iff)
  then have "map ?g xs = xs" "map ?g ys = ys" by (auto intro: map_idI)
  then have "db_blocks (update_key d off f db) = xs @ f r # ys"
    using r(2) by (simp add: update_key_def xy has_key_row_key)
  then show ?thesis by (simp add: xy)
qed

lemma update_key_absent: "row_of db (d, off) = None \<Longrightarrow> update_key d off f db = db"
  by (cases db) (auto simp: update_key_def row_of_def find_None_iff intro: map_idI)

text \<open>
  Progress accounting.  Acknowledging a block lowers the number of unacknowledged blocks of
  its remote host by exactly one when the block was unacknowledged and changes it in no other case
  (acknowledging twice, or a block that is not in the table, counts nothing); no count of another
  remote host moves.
\<close>
theorem ack_accounting:
  assumes "db_inv db"
  shows "sqlite_count_unacked Runs (snd (sqlite_block_mark_acked Runs db d off)) (Some rid) =
    sqlite_count_unacked Runs db (Some rid) -
      (case row_of db (d, off) of None \<Rightarrow> 0 | Some r \<Rightarrow> of_bool (unacked rid r))"
proof (cases "row_of db (d, off)")
  case None
  then show ?thesis by (simp add: sqlite_block_mark_acked_def update_key_absent)
next
  case (Some r)
  then show ?thesis
    using count_where_update [OF assms Some, of "\<lambda>r. r\<lparr>b_ack := 1\<rparr>" "unacked rid"]
    by (simp add: sqlite_block_mark_acked_def sqlite_count_unacked_def count_where_def rid_of_def
        row_key_def unacked_def)
qed

theorem ack_accounting_witness:
  "sqlite_count_unacked Runs (snd (sqlite_block_mark_acked Runs
     \<lparr>db_blocks = [\<lparr>b_devno = 1, b_offset = 0, b_size = 8, b_hash = 7, b_ack = 0, b_last_sent = 0,
        b_version = 1, b_remote_id = ''r''\<rparr>], db_versions = [], db_remote_id = ''r''\<rparr> 1 0)) (Some ''r'') = 0"
  by (subst ack_accounting)
    (simp_all add: db_inv_def sqlite_count_unacked_def count_where_def rid_of_def unacked_def row_of_def has_key_def)

lemma reset_blocks:
  "db_blocks (snd (sqlite_reset_acked Runs db rid)) =
    map (\<lambda>r. if b_ack r = 1 \<and> b_remote_id r = rid_of db rid then r\<lparr>b_ack := 0\<rparr> else r) (db_blocks db)"
  by (simp add: sqlite_reset_acked_def)

lemma filter_reset:
  "length (filter (unacked rid) (map (\<lambda>r. if b_ack r = 1 \<and> b_remote_id r = rid then r\<lparr>b_ack := 0\<rparr> else r) rs)) =
    length (filter (unacked rid) rs) + length (filter (\<lambda>r. b_ack r = 1 \<and> b_remote_id r = rid) rs)"
  by (induction rs) (auto simp: unacked_def)

text \<open>
  Resetting before a new full round: \<open>sqlite_reset_acked\<close> reports the number of blocks it
  changed, afterwards no block of the remote host counts as acknowledged, the number of
  unacknowledged blocks has grown by exactly the reported number, and no row is added, removed or
  moved to another key.
\<close>
theorem reset_acked_effect:
  "let (n, db') = sqlite_reset_acked Runs db rid
   in n \<ge> 0
    \<and> sqlite_count_unacked Runs db' (Some (rid_of db rid)) = sqlite_count_unacked Runs db (Some (rid_of db rid)) + n
    \<and> fst (sqlite_reset_acked Runs db' (Some (rid_of db rid))) = 0
    \<and> map row_key (db_blocks db') = map row_key (db_blocks db)"
proof -
  define rows where "rows = map (\<lambda>r. if b_ack r = 1 \<and> b_remote_id r = rid_of db rid then r\<lparr>b_ack := 0\<rparr> else r) (db_blocks db)"
  have "filter (\<lambda>r. b_ack r = 1 \<and> b_remote_id r = rid_of db rid) rows = []"
    by (auto simp: rows_def filter_empty_conv)
  moreover have "map row_key rows = map row_key (db_blocks db)"
    by (simp add: rows_def row_key_def)
  moreover have "length (filter (unacked (rid_of db rid)) rows) = length (filter (unacked (rid_of db rid)) (db_blocks db)) +
      length (filter (\<lambda>r. b_ack r = 1 \<and> b_remote_id r = rid_of db rid) (db_blocks db))"
    unfolding rows_def by (rule filter_reset)
  ultimately show ?thesis
    by (simp add: sqlite_reset_acked_def sqlite_count_unacked_def count_where_def rid_of_def Let_def rows_def)
qed

lemma sort_take_le:
  assumes "x \<in> set (take n (sort_key k rs))" "y \<in> set (drop n (sort_key k rs))"
  shows "k x \<le> k y"
proof -
  have "sorted (map k (take n (sort_key k rs)) @ map k (drop n (sort_key k rs)))"
    by (simp flip: map_append)
  then show ?thesis using assms unfolding sorted_append by auto
qed



section \<open>Versions\<close>

lemma fold_max_ge: "(x :: int) \<le> fold max xs x \<and> (\<forall>y \<in> set xs. y \<le> fold max xs x)"
proof (induction xs arbitrary: x)
  case (Cons a xs)
  then show ?case using Cons [of "max a x"] by (auto intro: order_trans [of _ "max a x"])
qed simp

lemma fold_max_in: "fold max xs (x :: int) \<in> insert x (set xs)"
proof (induction xs arbitrary: x)
  case (Cons a xs)
  then show ?case using Cons [of "max a x"] by (auto simp: max_def split: if_splits)
qed simp

lemma signed_take_bit_id: "\<lbrakk>- (2 ^ 31) \<le> k; k < 2 ^ 31\<rbrakk> \<Longrightarrow> signed_take_bit 31 (k :: int) = k"
  by (rule signed_take_bit_int_eq_self) simp_all

definition versions_of :: "sqlite_db \<Rightarrow> string option \<Rightarrow> int set" where
  "versions_of db rid = v_version ` {v \<in> set (db_versions db). v_remote_id v = rid_of db rid}"

text \<open>
  Round numbers are fresh and increase.  As long as the recorded rounds of the remote host are
  numbered within \<open>0 .. INT_MAX - 1\<close>, \<open>sqlite_get_next_version\<close> is positive and greater than each of
  them; once a round has been started with it the next number is exactly one more, and rounds
  started for another host do not change it.
\<close>
theorem next_version_fresh:
  assumes "versions_of db rid \<subseteq> {0 ..< 2 ^ 31 - 2}"
  defines "n \<equiv> sqlite_get_next_version Runs db rid"
  shows "0 < n \<and> (\<forall>v \<in> versions_of db rid. v < n)
    \<and> sqlite_get_next_version Runs (snd (sqlite_version_start Runs db n rid t)) rid = n + 1
    \<and> (\<forall>other v. other \<noteq> rid_of db rid \<longrightarrow>
        sqlite_get_next_version Runs (snd (sqlite_version_start Runs db v (Some other) t)) rid = n)"
proof -
  let ?vs = "map v_version (filter (\<lambda>v. v_remote_id v = rid_of db rid) (db_versions db))"
  have vs: "versions_of db rid = set ?vs" by (auto simp: versions_of_def)
  have n: "n = (case ?vs of [] \<Rightarrow> 1 | x # xs \<Rightarrow> fold max xs x + 1) \<and> 0 < n \<and> n < 2 ^ 31 - 1 \<and> (\<forall>v \<in> set ?vs. v < n)"
  proof (cases ?vs)
    case Nil
    then show ?thesis by (simp add: n_def sqlite_get_next_version_def)
  next
    case (Cons x xs)
    define M where "M = fold max xs x"
    have "M \<in> set ?vs" using fold_max_in [of xs x] Cons by (simp add: M_def)
    then have M: "0 \<le> M" "M < 2 ^ 31 - 2" using assms(1) vs by auto
    then have "n = M + 1"
      using Cons by (simp add: n_def sqlite_get_next_version_def M_def [symmetric] signed_take_bit_id)
    moreover have "\<forall>v \<in> set ?vs. v < M + 1" using Cons fold_max_ge [of x xs] by (auto simp: M_def)
    ultimately show ?thesis using M Cons by (simp add: M_def)
  qed
  have rid: "rid_of (db\<lparr>db_versions := w\<rparr>) rid = rid_of db rid" for w
    by (simp add: rid_of_def split: option.split)
  have "sqlite_get_next_version Runs (snd (sqlite_version_start Runs db n rid t)) rid = n + 1"
  proof (cases ?vs)
    case Nil
    then show ?thesis using n by (simp add: sqlite_get_next_version_def sqlite_version_start_def rid signed_take_bit_id)
  next
    case (Cons x xs)
    then have "fold max xs x < n" using n by simp
    then have "max n (fold max xs x) = n" by simp
    then show ?thesis
      using Cons n by (simp add: sqlite_get_next_version_def sqlite_version_start_def rid signed_take_bit_id)
  qed
  moreover have "sqlite_get_next_version Runs (snd (sqlite_version_start Runs db v (Some other) t)) rid = n"
    if "other \<noteq> rid_of db rid" for other v
    using that by (simp add: sqlite_get_next_version_def sqlite_version_start_def rid n_def rid_of_def [of _ "Some other"])
  moreover have "0 < n \<and> (\<forall>v \<in> versions_of db rid. v < n)" using n unfolding vs by blast
  ultimately show ?thesis by blast
qed

theorem next_version_fresh_witness:
  "sqlite_get_next_version Runs (snd (sqlite_version_start Runs
     \<lparr>db_blocks = [], db_versions = [], db_remote_id = ''r''\<rparr> 1 None 99)) None = 2"
  using next_version_fresh [where db = "\<lparr>db_blocks = [], db_versions = [], db_remote_id = ''r''\<rparr>" and rid = None and t = 99]
  by (simp add: versions_of_def sqlite_get_next_version_def)

end
