(* ===== verification/Protocol.thy ===== *)
theory Protocol
  imports Prelude
begin

text \<open>
  The shared wire protocol of \<^verbatim>\<open>include/protocol.h\<close>: its constants and the
  20-byte response \<open>server_response_t\<close> the receiver sends for every message.

  The response is sent as the raw bytes of the packed struct (\<^verbatim>\<open>#pragma pack(push, 1)\<close>), so
  \<open>response_bytes\<close> is its memory image on a little-endian host and \<open>response_of_bytes\<close>
  the \<open>memcpy\<close> back into the struct.  The locale \<open>record_codec\<close> states what a fixed-width
  record codec promises; \<open>resp\<close> interprets it on the response, which gives that a stream of
  responses is cut back into the responses that were written.
\<close>

section \<open>Constants\<close>

definition TCP_FRAME_HEADER_SIZE :: nat where [proto_consts]: "TCP_FRAME_HEADER_SIZE = 4"

definition FRAME_MAGIC :: bytes where [proto_consts]: "FRAME_MAGIC = [0x61, 0x62, 0x63]"
definition FRAME_MAGIC_LEN :: nat where [proto_consts]: "FRAME_MAGIC_LEN = 3"

definition ZSTD_COMPRESS_LEVEL_MIN :: int where [proto_consts]: "ZSTD_COMPRESS_LEVEL_MIN = 1"
definition ZSTD_COMPRESS_LEVEL_MAX :: int where [proto_consts]: "ZSTD_COMPRESS_LEVEL_MAX = 7"

definition MSGPACK_FIXMAP_3 :: byte where [proto_consts]: "MSGPACK_FIXMAP_3 = 0x93"
definition MSGPACK_BIN8 :: byte where [proto_consts]: "MSGPACK_BIN8 = 0xc4"
definition MSGPACK_BIN16 :: byte where [proto_consts]: "MSGPACK_BIN16 = 0xc5"
definition MSGPACK_BIN32 :: byte where [proto_consts]: "MSGPACK_BIN32 = 0xc6"
definition MSGPACK_INT8 :: byte where [proto_consts]: "MSGPACK_INT8 = 0xd0"
definition MSGPACK_INT16 :: byte where [proto_consts]: "MSGPACK_INT16 = 0xd1"
definition MSGPACK_INT32 :: byte where [proto_consts]: "MSGPACK_INT32 = 0xd2"
definition MSGPACK_INT64 :: byte where [proto_consts]: "MSGPACK_INT64 = 0xd3"

text \<open>A C string literal is its characters followed by the terminating NUL, which is part of
  the 15 bytes \<open>CTL_INCREMENTAL_LEN\<close> counts and not of the 17 of \<open>CTL_END_INCREMENTAL_LEN\<close>.\<close>

definition c_literal :: "string \<Rightarrow> bytes" where
  "c_literal s = map of_char s @ [0]"

definition CTL_INCREMENTAL :: bytes where "CTL_INCREMENTAL = c_literal ''ctlIncremental''"
definition CTL_INCREMENTAL_LEN :: nat where [proto_consts]: "CTL_INCREMENTAL_LEN = 15"
definition CTL_END_INCREMENTAL :: bytes where "CTL_END_INCREMENTAL = c_literal ''ctlEndIncremental''"
definition CTL_END_INCREMENTAL_LEN :: nat where [proto_consts]: "CTL_END_INCREMENTAL_LEN = 17"

definition SERVER_RESPONSE_SIZE :: nat where [proto_consts]: "SERVER_RESPONSE_SIZE = 20"

definition RESPONSE_ACK :: u32 where [proto_consts]: "RESPONSE_ACK = 0"
definition RESPONSE_BINLOG :: u32 where [proto_consts]: "RESPONSE_BINLOG = 1"
definition RESPONSE_SERVER_DONE :: u32 where [proto_consts]: "RESPONSE_SERVER_DONE = 2"
definition RESPONSE_ACK_ALT :: u32 where [proto_consts]: "RESPONSE_ACK_ALT = 4"

definition BLOCK_SIZE :: nat where [proto_consts]: "BLOCK_SIZE = 0x100000"
definition BLOCK_SIZE_MAX :: nat where [proto_consts]: "BLOCK_SIZE_MAX = BLOCK_SIZE"
definition BINLOG_SIZE_LIMIT :: u64 where [proto_consts]: "BINLOG_SIZE_LIMIT = 0x280000000"

definition SOCKET_POOL_TARGET :: nat where [proto_consts]: "SOCKET_POOL_TARGET = 7"
definition STALE_SOCKET_TIMEOUT_SEC :: int where [proto_consts]: "STALE_SOCKET_TIMEOUT_SEC = 720"
definition RETRANSMIT_MIN_INTERVAL_SEC :: int where
  [proto_consts]: "RETRANSMIT_MIN_INTERVAL_SEC = 121"

definition BACKPRESSURE_QUEUE_DEPTH :: nat where [proto_consts]: "BACKPRESSURE_QUEUE_DEPTH = 40"

definition RETRANSMIT_TIMER_MS :: u64 where [proto_consts]: "RETRANSMIT_TIMER_MS = 18000"
definition RECONNECT_TIMER_MS :: u64 where [proto_consts]: "RECONNECT_TIMER_MS = 20000"
definition ACTION_TIMER_MS :: u64 where [proto_consts]: "ACTION_TIMER_MS = 10000"

definition MAX_INCREMENTAL_ROUNDS :: int where [proto_consts]: "MAX_INCREMENTAL_ROUNDS = 60"
definition CONVERGENCE_ZERO_ROUNDS :: int where [proto_consts]: "CONVERGENCE_ZERO_ROUNDS = 3"

definition MSGPACK_BUF_INITIAL_CAP :: u64 where [proto_consts]: "MSGPACK_BUF_INITIAL_CAP = 0x2000"

section \<open>The server response\<close>

record server_response_t =
  r_type :: u32
  r_devno :: u32
  r_size :: u32
  r_offset :: u64

definition response_bytes :: "server_response_t \<Rightarrow> bytes" where
  "response_bytes r = le32 (r_type r) @ le32 (r_devno r) @ le32 (r_size r) @ le64 (r_offset r)"

definition response_of_bytes :: "bytes \<Rightarrow> server_response_t" where
  "response_of_bytes b = \<lparr>r_type = of_le32 b, r_devno = of_le32 (drop 4 b),
     r_size = of_le32 (drop 8 b), r_offset = of_le64 (drop 12 b)\<rparr>"

section \<open>Fixed-width records in a byte stream\<close>

text \<open>What a reader of \<open>n\<close> consecutive records of \<open>w\<close> bytes gets.\<close>

fun read_records :: "nat \<Rightarrow> (bytes \<Rightarrow> 'a) \<Rightarrow> nat \<Rightarrow> bytes \<Rightarrow> 'a list" where
  "read_records w dec 0 bs = []"
| "read_records w dec (Suc n) bs = dec bs # read_records w dec n (drop w bs)"

locale record_codec =
  fixes enc :: "'a \<Rightarrow> bytes"
    and dec :: "bytes \<Rightarrow> 'a"
    and width :: nat
  assumes enc_width: "length (enc x) = width"
    and dec_enc: "dec (enc x @ ys) = x"
    and width_pos: "0 < width"
begin

lemma read_records_stream: "read_records width dec (length xs) (concat (map enc xs) @ ys) = xs"
  by (induction xs) (simp_all add: dec_enc enc_width)

lemma enc_inj: "enc x = enc y \<longleftrightarrow> x = y"
  by (metis dec_enc)

lemma stream_length: "length (concat (map enc xs)) = width * length xs"
  by (induction xs) (simp_all add: enc_width)

end

lemma response_of_bytes_enc: "response_of_bytes (response_bytes r @ ys) = r"
proof -
  have "drop 4 (response_bytes r @ ys) = le32 (r_devno r) @ le32 (r_size r) @ le64 (r_offset r) @ ys"
    and "drop 8 (response_bytes r @ ys) = le32 (r_size r) @ le64 (r_offset r) @ ys"
    and "drop 12 (response_bytes r @ ys) = le64 (r_offset r) @ ys"
    by (simp_all add: response_bytes_def)
  then show ?thesis
    by (simp add: response_of_bytes_def byte_codec)
      (simp add: response_bytes_def byte_codec)
qed

interpretation resp: record_codec response_bytes response_of_bytes SERVER_RESPONSE_SIZE
  by unfold_locales (simp_all add: response_of_bytes_enc, simp_all add: response_bytes_def proto_consts)

lemma CTL_lengths:
  "length (take CTL_INCREMENTAL_LEN CTL_INCREMENTAL) = CTL_INCREMENTAL_LEN"
  "length (take CTL_END_INCREMENTAL_LEN CTL_END_INCREMENTAL) = CTL_END_INCREMENTAL_LEN"
  by (simp_all add: CTL_INCREMENTAL_def CTL_END_INCREMENTAL_def c_literal_def proto_consts)

text \<open>
  The response stream is self-delimiting: any sequence of responses written as raw packed
  structs one after the other, with whatever follows on the stream, is read back as the same
  sequence by cutting 20 bytes at a time, so no field of an acknowledgement (type, devno, size,
  offset) is changed or mixed with its neighbour.
\<close>
theorem response_stream_roundtrip:
  "read_records SERVER_RESPONSE_SIZE response_of_bytes (length rs)
     (concat (map response_bytes rs) @ rest) = rs
   \<and> length (concat (map response_bytes rs)) = SERVER_RESPONSE_SIZE * length rs"
  by (simp add: resp.read_records_stream resp.stream_length)

end
