(* ===== verification/Block_Hash.thy ===== *)
theory Block_Hash
  imports Protocol
begin

text \<open>
  The block hash of \<^verbatim>\<open>client/hash.c\<close>, which decides whether a block is re-sent: \<open>fmix64\<close>,
  the main loop over four 64-bit lanes (\<open>hash_loop\<close>, one iteration per 32-byte stripe) and
  \<open>hash_block\<close>.  A block is its memory as bytes; \<open>word64_at\<close> is the load \<open>p[i]\<close> through the
  \<open>uint64_t\<close> pointer on a little-endian host.

  The lemmas show that the loop is a fold over the stripes it visits, that every mixing step
  is injective in the lane state, and from these exactly which changes of a block the hash
  sees.
\<close>

definition HASH_MUL :: u64 where "HASH_MUL = 0xc2b4d1b3d54d51c2"
definition HASH_ROT :: u64 where "HASH_ROT = 0x9e3779b586c04815"
definition HASH_INIT_SHORT :: u64 where "HASH_INIT_SHORT = 0x27d4eb2f165667c5"
definition HASH_INIT_A :: u64 where "HASH_INIT_A = 0x60ea27eeadc0b5d6"
definition HASH_INIT_B :: u64 where "HASH_INIT_B = 0x61c8864e7a143579"
definition HASH_INIT_C :: u64 where "HASH_INIT_C = 0xc2b2ae3d27d4eb4f"
definition HASH_XOR_CONST :: u64 where "HASH_XOR_CONST = 0x85ebca77c2b2ae63"

definition fmix64 :: "u64 \<Rightarrow> u64" where
  "fmix64 h0 =
    (let h1 = h0 XOR drop_bit 33 h0;
         h2 = h1 * 0xff51afd7ed558ccd;
         h3 = h2 XOR drop_bit 33 h2;
         h4 = h3 * 0xc4ceb9fe1a85ec53
     in h4 XOR drop_bit 33 h4)"

definition word64_at :: "bytes \<Rightarrow> nat \<Rightarrow> u64" where
  "word64_at data i = of_le64 (drop (8 * i) data)"

text \<open>One channel of the loop body: add \<open>input * MUL\<close>, rotate left by 31, multiply by ROT.\<close>

definition lane_step :: "u64 \<Rightarrow> u64 \<Rightarrow> u64" where
  "lane_step input h =
     (let h = h + input * HASH_MUL in (push_bit 31 h OR drop_bit 33 h) * HASH_ROT)"

type_synonym lanes = "u64 \<times> u64 \<times> u64 \<times> u64"

function hash_loop :: "bytes \<Rightarrow> nat \<Rightarrow> nat \<Rightarrow> lanes \<Rightarrow> lanes" where
  "hash_loop data lim p (h, b, c, d) =
     (if p + 3 < lim then
        hash_loop data lim (p + 4)
          (lane_step (word64_at data p) h,
           lane_step (word64_at data (p + 1)) b,
           lane_step (word64_at data (p + 2)) c,
           lane_step (word64_at data (p + 3)) d)
      else (h, b, c, d))"
  by pat_completeness auto
termination
  by (relation "measure (\<lambda>(data, lim, p, s). lim - p)") auto

definition hash_final :: "nat \<Rightarrow> lanes \<Rightarrow> u64" where
  "hash_final len = (\<lambda>(h, b, c, d).
     (let r0 = HASH_XOR_CONST;
          r1 = (r0 XOR fmix64 h) * HASH_ROT + HASH_XOR_CONST;
          r2 = (r1 XOR fmix64 b) * HASH_ROT + HASH_XOR_CONST;
          r3 = (r2 XOR fmix64 c) * HASH_ROT + HASH_XOR_CONST;
          r4 = (r3 XOR fmix64 d) * HASH_ROT + HASH_XOR_CONST
      in r4 + of_nat len))"

definition hash_end :: "nat \<Rightarrow> nat" where
  "hash_end len = len div 8 - (if len mod 8 = 0 then 4 else 0)"

definition hash_block :: "bytes \<Rightarrow> nat \<Rightarrow> u64 \<Rightarrow> u64" where
  "hash_block data len seed =
     (if len < 32 then of_nat len + HASH_INIT_SHORT + seed
      else hash_final len (hash_loop data (hash_end len) 0
             (seed + HASH_INIT_A, seed + HASH_INIT_B, seed + HASH_INIT_C, seed)))"

declare hash_loop.simps [simp del]

section \<open>Reference view: a fold over the visited stripes\<close>

definition stripe_step :: "bytes \<Rightarrow> nat \<Rightarrow> lanes \<Rightarrow> lanes" where
  "stripe_step data k = (\<lambda>(h, b, c, d).
     (lane_step (word64_at data (4 * k)) h, lane_step (word64_at data (4 * k + 1)) b,
      lane_step (word64_at data (4 * k + 2)) c, lane_step (word64_at data (4 * k + 3)) d))"

definition hashed_stripes :: "nat \<Rightarrow> nat" where
  "hashed_stripes len = (if len mod 8 = 0 then (len - 32) div 32 else len div 32)"

lemma hash_loop_fold:
  "hash_loop data lim (4 * k) s = fold (stripe_step data) [k..<lim div 4] s"
proof (induction "lim div 4 - k" arbitrary: k s)
  case 0
  then have "\<not> 4 * k + 3 < lim" by linarith
  with 0 show ?case by (cases s) (simp add: hash_loop.simps [of data lim "4 * k"])
next
  case (Suc n)
  then have *: "4 * k + 3 < lim" "n = lim div 4 - Suc k" "k < lim div 4" by linarith+
  then have "hash_loop data lim (4 * k) s = hash_loop data lim (4 * Suc k) (stripe_step data k s)"
    by (cases s) (simp add: hash_loop.simps [of data lim "4 * k"] stripe_step_def add.commute)
  also have "\<dots> = fold (stripe_step data) [Suc k..<lim div 4] (stripe_step data k s)"
    using Suc.hyps(1) [OF *(2)] .
  finally show ?case using *(3) by (simp add: upt_conv_Cons)
qed

lemma hash_end_stripes: "32 \<le> len \<Longrightarrow> hash_end len div 4 = hashed_stripes len"
  by (auto simp: hash_end_def hashed_stripes_def div_mult2_eq [symmetric])

lemma hash_block_long:
  assumes "32 \<le> len"
  shows "hash_block data len seed = hash_final len
    (fold (stripe_step data) [0..<hashed_stripes len]
      (seed + HASH_INIT_A, seed + HASH_INIT_B, seed + HASH_INIT_C, seed))"
  using assms hash_loop_fold [of data "hash_end len" 0] by (simp add: hash_block_def hash_end_stripes)

section \<open>Lanes are independent\<close>

definition lane_run :: "bytes \<Rightarrow> nat \<Rightarrow> nat \<Rightarrow> u64 \<Rightarrow> u64" where
  "lane_run data n j h = fold (\<lambda>k. lane_step (word64_at data (4 * k + j))) [0..<n] h"

lemma fold_stripes_lanes:
  "fold (stripe_step data) [0..<n] (h, b, c, d) =
     (lane_run data n 0 h, lane_run data n 1 b, lane_run data n 2 c, lane_run data n 3 d)"
  by (induction n) (simp_all add: lane_run_def stripe_step_def)

lemma hash_block_lanes:
  assumes "32 \<le> len"
  shows "hash_block data len seed = hash_final len
    (lane_run data (hashed_stripes len) 0 (seed + HASH_INIT_A),
     lane_run data (hashed_stripes len) 1 (seed + HASH_INIT_B),
     lane_run data (hashed_stripes len) 2 (seed + HASH_INIT_C),
     lane_run data (hashed_stripes len) 3 seed)"
  using assms by (simp add: hash_block_long fold_stripes_lanes)

lemma lane_run_cong:
  "(\<And>k. k < n \<Longrightarrow> word64_at data (4 * k + j) = word64_at data' (4 * k + j)) \<Longrightarrow>
    lane_run data n j h = lane_run data' n j h"
  unfolding lane_run_def by (rule fold_cong) auto

section \<open>Injectivity of the mixing steps\<close>

lemma xorshift33_inj:
  fixes x y :: u64
  shows "x XOR drop_bit 33 x = y XOR drop_bit 33 y \<longleftrightarrow> x = y"
proof -
  have "(h XOR drop_bit 33 h) XOR drop_bit 33 (h XOR drop_bit 33 h) = h" for h :: u64
    by (rule bit_word_eqI) (auto simp: bit_simps)
  then show ?thesis by metis
qed

lemma mult_unit_inj:
  assumes "c * c' = (1 :: u64)"
  shows "x * c = y * c \<longleftrightarrow> x = y"
proof
  assume "x * c = y * c"
  then have "x * (c * c') = y * (c * c')" by (simp add: mult.assoc [symmetric])
  with assms show "x = y" by simp
qed simp

lemma HASH_ROT_inj: "x * HASH_ROT = y * HASH_ROT \<longleftrightarrow> x = y"
  by (rule mult_unit_inj [where c' = "0xbd9325dff2ad473d"]) (simp add: HASH_ROT_def)

lemma fmix64_inj: "fmix64 x = fmix64 y \<longleftrightarrow> x = y"
proof -
  have a: "p * 0xff51afd7ed558ccd = q * 0xff51afd7ed558ccd \<longleftrightarrow> p = q" for p q :: u64
    by (rule mult_unit_inj [where c' = "0x4f74430c22a54005"]) simp
  have b: "p * 0xc4ceb9fe1a85ec53 = q * 0xc4ceb9fe1a85ec53 \<longleftrightarrow> p = q" for p q :: u64
    by (rule mult_unit_inj [where c' = "0x9cb4b2f8129337db"]) simp
  show ?thesis by (simp only: fmix64_def Let_def xorshift33_inj a b)
qed

lemma rotl31_inj:
  fixes x y :: u64
  shows "push_bit 31 x OR drop_bit 33 x = push_bit 31 y OR drop_bit 33 y \<longleftrightarrow> x = y"
proof -
  have "push_bit 33 (push_bit 31 h OR drop_bit 33 h) OR drop_bit 31 (push_bit 31 h OR drop_bit 33 h) = h"
    for h :: u64
    by (rule bit_word_eqI, simp add: bit_simps cong: conj_cong) arith
  then show ?thesis by metis
qed

lemma lane_step_inj: "lane_step x h = lane_step x h' \<longleftrightarrow> h = h'"
  by (simp add: lane_step_def Let_def HASH_ROT_inj rotl31_inj)

text \<open>\<open>HASH_MUL\<close> is even, so multiplying by it forgets the top bit of the input word.\<close>

lemma HASH_MUL_inj: "x * HASH_MUL = y * HASH_MUL \<longleftrightarrow> take_bit 63 x = take_bit 63 y"
proof -
  define c :: u64 where "c = 0x615a68d9eaa6a8e1"
  have half: "HASH_MUL = 2 * c" by (simp add: HASH_MUL_def c_def)
  have "z * HASH_MUL = push_bit 1 z * c" for z
    by (simp add: half push_bit_eq_mult ac_simps)
  then have "x * HASH_MUL = y * HASH_MUL \<longleftrightarrow> push_bit 1 x = push_bit 1 y"
    using mult_unit_inj [of c "0xee2223920cc49b21" "push_bit 1 x" "push_bit 1 y"] by (simp add: c_def)
  also have "\<dots> \<longleftrightarrow> take_bit 63 x = take_bit 63 y"
  proof -
    have "m \<le> 64 \<Longrightarrow> drop_bit m (push_bit m z) = take_bit (64 - m) z"
      "m \<le> 64 \<Longrightarrow> push_bit m (take_bit (64 - m) z) = push_bit m z" for m and z :: u64
      by (rule bit_word_eqI, auto simp: bit_simps)+
    from this [of 1] have "drop_bit 1 (push_bit 1 z) = take_bit 63 z"
      "push_bit 1 (take_bit 63 z) = push_bit 1 z" for z :: u64
      by simp_all
    then show ?thesis by metis
  qed
  finally show ?thesis .
qed

lemma lane_step_input: "lane_step x h = lane_step y h \<longleftrightarrow> take_bit 63 x = take_bit 63 y"
  by (simp add: lane_step_def Let_def HASH_ROT_inj rotl31_inj HASH_MUL_inj)

lemma fold_lane_step_inj:
  "fold (\<lambda>k. lane_step (f k)) ks h = fold (\<lambda>k. lane_step (f k)) ks h' \<longleftrightarrow> h = h'"
  by (induction ks arbitrary: h h') (simp_all add: lane_step_inj)

lemma xor_left_inj: "(r :: u64) XOR x = r XOR y \<longleftrightarrow> x = y"
  by (metis (no_types) bit.xor_left_self)

lemma xor_right_inj: "(x :: u64) XOR r = y XOR r \<longleftrightarrow> x = y"
  by (metis (no_types) bit.xor_left_self xor.commute)

lemmas mix_inj = HASH_ROT_inj fmix64_inj xor_left_inj xor_right_inj add_right_cancel

lemma hash_final_inj:
  "hash_final len (h, b, c, d) = hash_final len (h', b, c, d) \<longleftrightarrow> h = h'"
  "hash_final len (h, b, c, d) = hash_final len (h, b', c, d) \<longleftrightarrow> b = b'"
  "hash_final len (h, b, c, d) = hash_final len (h, b, c', d) \<longleftrightarrow> c = c'"
  "hash_final len (h, b, c, d) = hash_final len (h, b, c, d') \<longleftrightarrow> d = d'"
  by (simp_all only: hash_final_def Let_def prod.case mix_inj)

section \<open>Which changes of a block the hash sees\<close>

lemma of_le64_take8: "of_le64 (take 8 xs) = of_le64 xs"
  by (cases xs rule: of_le64.cases) simp_all

lemma word64_at_take:
  assumes "8 * i + 8 \<le> n"
  shows "word64_at (take n data) i = word64_at data i"
proof -
  have "take 8 (drop (8 * i) (take n data)) = take 8 (drop (8 * i) data)"
    using assms by (simp add: drop_take take_take min_def)
  then show ?thesis unfolding word64_at_def by (metis of_le64_take8)
qed

lemma word64_at_memwrite:
  assumes "8 * i + 8 \<le> length data"
  shows "word64_at (memwrite (8 * i) (le64 w) data) j = (if j = i then w else word64_at data j)"
proof -
  consider "j = i" | "j < i" | "i < j" by linarith
  then show ?thesis
  proof cases
    case 1
    with assms show ?thesis by (simp add: word64_at_def memwrite_def byte_codec)
  next
    case 2
    then have "8 * j + 8 \<le> 8 * i" by simp
    then have "word64_at data j = word64_at (take (8 * i) data) j"
      "word64_at (memwrite (8 * i) (le64 w) data) j
        = word64_at (take (8 * i) (memwrite (8 * i) (le64 w) data)) j"
      by (simp_all add: word64_at_take)
    then show ?thesis using 2 assms by (simp add: memwrite_def)
  next
    case 3
    then have "8 * i + 8 \<le> 8 * j" by simp
    then have "drop (8 * j) (memwrite (8 * i) (le64 w) data) = drop (8 * j) data"
      using assms by (simp add: memwrite_def)
    with 3 show ?thesis by (simp add: word64_at_def)
  qed
qed

lemma lane_run_other:
  assumes "8 * i + 8 \<le> length data" "i mod 4 \<noteq> j" "j < 4"
  shows "lane_run (memwrite (8 * i) (le64 w) data) n j h = lane_run data n j h"
proof (rule lane_run_cong)
  fix k
  have "4 * k + j \<noteq> i" using assms(2,3) by auto
  then show "word64_at (memwrite (8 * i) (le64 w) data) (4 * k + j) = word64_at data (4 * k + j)"
    by (simp add: word64_at_memwrite [OF assms(1)])
qed

lemma lane_run_same:
  assumes "8 * i + 8 \<le> length data" "i div 4 < n"
  shows "lane_run (memwrite (8 * i) (le64 w) data) n (i mod 4) h = lane_run data n (i mod 4) h
    \<longleftrightarrow> take_bit 63 w = take_bit 63 (word64_at data i)"
proof -
  let ?k = "i div 4" and ?j = "i mod 4" and ?d = "memwrite (8 * i) (le64 w) data"
  have split: "[0..<n] = [0..<?k] @ ?k # [Suc ?k..<n]"
    using assms(2) upt_add_eq_append [of 0 ?k "n - ?k"] upt_conv_Cons [of ?k n] by simp
  have at: "word64_at ?d (4 * k + ?j) = (if k = ?k then w else word64_at data (4 * k + ?j))" for k
  proof -
    have "4 * k + ?j = i \<longleftrightarrow> k = ?k" using div_mult_mod_eq [of i 4] by auto
    then show ?thesis by (simp add: word64_at_memwrite [OF assms(1)])
  qed
  have before: "fold (\<lambda>k. lane_step (word64_at ?d (4 * k + ?j))) [0..<?k] h =
      fold (\<lambda>k. lane_step (word64_at data (4 * k + ?j))) [0..<?k] h"
    by (rule fold_cong) (auto simp: at)
  have after: "fold (\<lambda>k. lane_step (word64_at ?d (4 * k + ?j))) [Suc ?k..<n] x =
      fold (\<lambda>k. lane_step (word64_at data (4 * k + ?j))) [Suc ?k..<n] x" for x
    by (rule fold_cong) (auto simp: at)
  have i: "4 * ?k + ?j = i" by simp
  show ?thesis
    unfolding lane_run_def split fold_append fold_Cons o_apply before after fold_lane_step_inj
    by (simp add: lane_step_input i word64_at_memwrite [OF assms(1)])
qed


lemma ones72: "word64_at (replicate 72 1) 0 = 0x0101010101010101"
  by code_simp


text \<open>
  For a block whose length is a multiple of 8 (every full 1 MB block), the hash does not
  depend on the last 32 bytes: two blocks that agree before them have the same hash, whatever
  the last 32 bytes are.
\<close>
theorem hash_ignores_last_stripe:
  assumes "len mod 8 = 0" "take (len - 32) data = take (len - 32) data'"
  shows "hash_block data len seed = hash_block data' len seed"
proof (cases "32 \<le> len")
  case True
  have "word64_at data (4 * k + j) = word64_at data' (4 * k + j)"
    if "k < hashed_stripes len" "j < 4" for k j
  proof -
    have "32 * Suc k \<le> 32 * hashed_stripes len" using that(1) by simp
    also have "\<dots> \<le> len - 32" using assms(1) by (simp add: hashed_stripes_def)
    finally have "8 * (4 * k + j) + 8 \<le> len - 32" using that(2) by simp
    then show ?thesis
      using assms(2) word64_at_take [of "4 * k + j" "len - 32"] by metis
  qed
  then have "lane_run data (hashed_stripes len) j h = lane_run data' (hashed_stripes len) j h"
    if "j < 4" for j h
    using that by (intro lane_run_cong) simp
  then show ?thesis by (simp add: hash_block_lanes [OF True])
qed (simp add: hash_block_def)

theorem hash_ignores_last_stripe_witness:
  "hash_block (replicate 32 0 @ replicate 32 1) 64 (5 :: u64) = hash_block (replicate 64 0) 64 5"
  by (rule hash_ignores_last_stripe) simp_all

end
