(* ===== verification/Msgpack_Enc.thy ===== *)
theory Msgpack_Enc
  imports Protocol
begin

text \<open>
  The MsgPack encoder of the client, \<^verbatim>\<open>client/msgpack.c\<close>: a growing write buffer
  (\<open>msgpack_writer\<close>) and the encoding of one block message.

  \<^item> \<open>w_buf\<close> is \<open>None\<close> for a NULL pointer and otherwise the bytes of the allocation that have been
    written so far (what lies behind them up to \<open>w_capacity\<close> is indeterminate memory).
  \<^item> \<open>alloc n\<close> says whether the allocator satisfies a request for \<open>n\<close> bytes.
  \<^item> The capacity doubling loop of \<open>writer_ensure\<close> is written as a partial function on
    \<open>size_t\<close>: not returning is the value \<open>None\<close>.  Every operation that may grow the buffer
    therefore returns an optional pair of the C return code and the new writer.

  \<open>block_encoding\<close> is the reference encoding; the lemmas show that the encoder produces it
  through any sequence of reallocations and keeps the writer's invariant on every path.
\<close>

record msgpack_writer =
  w_buf :: "bytes option"
  w_written :: u64
  w_capacity :: u64

type_synonym write_result = "(int \<times> msgpack_writer) option"

section \<open>The writer\<close>

partial_function (option) grow_cap :: "u64 \<Rightarrow> u64 \<Rightarrow> u64 option" where
  "grow_cap wanted new_cap =
     (if wanted > new_cap then
        (let c = new_cap * 2 in
         if c > 0x8000000000000000 then Some wanted else grow_cap wanted c)
      else Some new_cap)"

declare grow_cap.simps [code]

definition writer_ensure :: "(u64 \<Rightarrow> bool) \<Rightarrow> msgpack_writer \<Rightarrow> u64 \<Rightarrow> write_result" where
  "writer_ensure alloc w need =
     (if w_capacity w - w_written w \<ge> need then Some (0, w)
      else case grow_cap (w_written w + need)
             (if w_capacity w \<noteq> 0 then w_capacity w * 2 else MSGPACK_BUF_INITIAL_CAP) of
        None \<Rightarrow> None
      | Some new_cap \<Rightarrow>
          if \<not> alloc new_cap then Some (-1, w)
          else Some (0, w\<lparr>w_buf := (case w_buf w of None \<Rightarrow> Some [] | Some b \<Rightarrow> Some b),
                          w_capacity := new_cap\<rparr>))"

text \<open>\<open>if (f(w) != 0) return -1; g(w)\<close>\<close>

definition wseq :: "write_result \<Rightarrow> (msgpack_writer \<Rightarrow> write_result) \<Rightarrow> write_result" where
  "wseq r g = (case r of None \<Rightarrow> None | Some (rc, w) \<Rightarrow> if rc \<noteq> 0 then Some (-1, w) else g w)"

definition writer_append :: "(u64 \<Rightarrow> bool) \<Rightarrow> bytes \<Rightarrow> msgpack_writer \<Rightarrow> write_result" where
  "writer_append alloc data w = wseq (writer_ensure alloc w (of_nat (length data)))
     (\<lambda>w. Some (0, w\<lparr>w_buf := map_option (memwrite (unat (w_written w)) data) (w_buf w),
                     w_written := w_written w + of_nat (length data)\<rparr>))"

definition msgpack_writer_init :: "(u64 \<Rightarrow> bool) \<Rightarrow> msgpack_writer" where
  "msgpack_writer_init alloc = \<lparr>
     w_buf = (if alloc MSGPACK_BUF_INITIAL_CAP then Some [] else None),
     w_written = 0,
     w_capacity = (if alloc MSGPACK_BUF_INITIAL_CAP then MSGPACK_BUF_INITIAL_CAP else 0)\<rparr>"

definition msgpack_writer_free :: "msgpack_writer \<Rightarrow> msgpack_writer" where
  "msgpack_writer_free w = w\<lparr>w_buf := None, w_written := 0, w_capacity := 0\<rparr>"

definition msgpack_writer_reset :: "msgpack_writer \<Rightarrow> msgpack_writer" where
  "msgpack_writer_reset w = w\<lparr>w_written := 0\<rparr>"

section \<open>The encoder\<close>

definition msgpack_write_int32 :: "(u64 \<Rightarrow> bool) \<Rightarrow> u32 \<Rightarrow> msgpack_writer \<Rightarrow> write_result" where
  "msgpack_write_int32 alloc val w =
     (if sint val \<ge> 0 \<and> sint val \<le> 127 then writer_append alloc [ucast val] w
      else if sint val \<ge> -32 \<and> sint val < 0 then writer_append alloc [ucast (val AND 0xff)] w
      else if sint val \<ge> -128 \<and> sint val \<le> 127 then
        writer_append alloc [MSGPACK_INT8, ucast val] w
      else if sint val \<ge> -32768 \<and> sint val \<le> 32767 then
        writer_append alloc
          [MSGPACK_INT16, ucast (signed_drop_bit 8 val), ucast (val AND 0xff)] w
      else
        writer_append alloc
          [MSGPACK_INT32, ucast (signed_drop_bit 24 val), ucast (signed_drop_bit 16 val),
           ucast (signed_drop_bit 8 val), ucast (val AND 0xff)] w)"

definition msgpack_write_int64 :: "(u64 \<Rightarrow> bool) \<Rightarrow> u64 \<Rightarrow> msgpack_writer \<Rightarrow> write_result" where
  "msgpack_write_int64 alloc val w = writer_append alloc
     [MSGPACK_INT64, ucast (drop_bit 56 val), ucast (drop_bit 48 val), ucast (drop_bit 40 val),
      ucast (drop_bit 32 val), ucast (drop_bit 24 val), ucast (drop_bit 16 val),
      ucast (drop_bit 8 val), ucast (val AND 0xff)] w"

definition msgpack_write_bin :: "(u64 \<Rightarrow> bool) \<Rightarrow> bytes \<Rightarrow> u32 \<Rightarrow> msgpack_writer \<Rightarrow> write_result"
where
  "msgpack_write_bin alloc data len w =
     wseq (if len < 256 then writer_append alloc [MSGPACK_BIN8, ucast len] w
           else if len < 65536 then
             writer_append alloc [MSGPACK_BIN16, ucast (drop_bit 8 len), ucast (len AND 0xff)] w
           else
             writer_append alloc
               [MSGPACK_BIN32, ucast (drop_bit 24 len), ucast (drop_bit 16 len),
                ucast (drop_bit 8 len), ucast (len AND 0xff)] w)
       (writer_append alloc (take (unat len) data))"

definition msgpack_encode_block ::
  "(u64 \<Rightarrow> bool) \<Rightarrow> msgpack_writer \<Rightarrow> u32 \<Rightarrow> u64 \<Rightarrow> bytes \<Rightarrow> u32 \<Rightarrow> write_result" where
  "msgpack_encode_block alloc w devno off data data_len =
     wseq (writer_append alloc [MSGPACK_FIXMAP_3] (w\<lparr>w_written := 0\<rparr>)) (\<lambda>w.
     wseq (writer_append alloc [0x00] w) (\<lambda>w.
     wseq (msgpack_write_int32 alloc devno w) (\<lambda>w.
     wseq (writer_append alloc [0x01] w) (\<lambda>w.
     wseq (msgpack_write_int64 alloc off w) (\<lambda>w.
     wseq (writer_append alloc [0x02] w) (\<lambda>w.
     wseq (msgpack_write_bin alloc data data_len w) (\<lambda>w. Some (0, w))))))))"

section \<open>Reference encoding\<close>

definition int32_encoding :: "u32 \<Rightarrow> bytes" where
  "int32_encoding v =
     (if -32 \<le> sint v \<and> sint v \<le> 127 then [ucast v]
      else if -128 \<le> sint v \<and> sint v < 0 then [MSGPACK_INT8, ucast v]
      else if -32768 \<le> sint v \<and> sint v \<le> 32767 then MSGPACK_INT16 # drop 2 (be32 v)
      else MSGPACK_INT32 # be32 v)"

definition bin_header :: "u32 \<Rightarrow> bytes" where
  "bin_header len =
     (if unat len < 256 then [MSGPACK_BIN8, ucast len]
      else if unat len < 65536 then MSGPACK_BIN16 # drop 2 (be32 len)
      else MSGPACK_BIN32 # be32 len)"

definition block_encoding :: "u32 \<Rightarrow> u64 \<Rightarrow> bytes \<Rightarrow> bytes" where
  "block_encoding devno off data =
     [0x93, 0x00] @ int32_encoding devno @ [0x01, 0xd3] @ be64 off @ [0x02] @
     bin_header (of_nat (length data)) @ data"

text \<open>The bytes a writer holds, and its invariant: the written bytes lie inside the
  allocation.\<close>

definition w_contents :: "msgpack_writer \<Rightarrow> bytes" where
  "w_contents w = (case w_buf w of None \<Rightarrow> [] | Some b \<Rightarrow> take (unat (w_written w)) b)"

definition writer_ok :: "msgpack_writer \<Rightarrow> bool" where
  "writer_ok w = (case w_buf w of
      None \<Rightarrow> w_written w = 0 \<and> w_capacity w = 0
    | Some b \<Rightarrow> unat (w_written w) \<le> length b \<and> length b \<le> unat (w_capacity w))"

section \<open>Growing terminates\<close>

lemma unat_double: "unat (c :: u64) < 2 ^ 63 \<Longrightarrow> unat (c * 2) = 2 * unat c"
  using unat_mult_lem [of c 2] by simp

lemma grow_cap_returns:
  assumes "0 < new_cap" "unat wanted \<le> 2 ^ 62"
  shows "\<exists>c. grow_cap wanted new_cap = Some c \<and> wanted \<le> c"
  using assms(1)
proof (induction "unat wanted - unat new_cap" arbitrary: new_cap rule: less_induct)
  case less
  show ?case
  proof (cases "new_cap < wanted")
    case True
    then have lt: "unat new_cap < unat wanted" by (simp add: word_less_nat_alt)
    with assms(2) have dbl: "unat (new_cap * 2) = 2 * unat new_cap" by (intro unat_double) simp
    have pos: "0 < unat new_cap" using less.prems by (simp add: word_less_nat_alt)
    have small: "\<not> 0x8000000000000000 < new_cap * 2"
      using lt assms(2) by (simp add: word_less_nat_alt dbl)
    have "0 < new_cap * 2" using pos by (simp add: word_less_nat_alt dbl)
    then obtain c where "grow_cap wanted (new_cap * 2) = Some c \<and> wanted \<le> c"
      using less.hyps [of "new_cap * 2"] lt pos dbl by force
    then show ?thesis
      using True small by (simp add: grow_cap.simps [of wanted new_cap] Let_def)
  next
    case False
    then have "grow_cap wanted new_cap = Some new_cap" by (simp add: grow_cap.simps [of wanted new_cap])
    with False show ?thesis by (simp add: not_less)
  qed
qed

text \<open>Beyond \<open>2 ^ 63\<close> the doubling of a power of two reaches 0 and the loop never ends.\<close>

lemma grow_cap_zero:
  assumes "grow_cap wanted new_cap = Some c" "0 < wanted"
  shows "new_cap \<noteq> 0"
proof -
  have "0 < wanted \<longrightarrow> new_cap \<noteq> 0"
    by (rule grow_cap.raw_induct [OF _ assms(1)]) (fastforce simp: Let_def split: if_splits)
  with assms(2) show ?thesis by simp
qed

lemma grow_cap_diverges:
  assumes "0x8000000000000000 < wanted"
  shows "grow_cap wanted 0x8000000000000000 = None"
proof -
  have "0 < wanted" using assms by (rule le_less_trans [rotated]) simp
  then have "grow_cap wanted 0 = None"
    using grow_cap_zero [of wanted 0] by (cases "grow_cap wanted 0") auto
  moreover have "(0x8000000000000000 :: u64) * 2 = 0" by (rule unsigned_word_eqI) simp
  ultimately show ?thesis
    using assms by (simp only: grow_cap.simps [of wanted "0x8000000000000000"] Let_def) simp
qed

section \<open>Each operation appends its encoding or fails without a change\<close>

lemma writer_ensure_cases:
  assumes "writer_ok w" "unat (w_written w) + unat need \<le> 2 ^ 62"
  shows "(\<exists>w'. writer_ensure alloc w need = Some (0, w') \<and> writer_ok w' \<and>
            w_written w' = w_written w \<and> w_contents w' = w_contents w \<and>
            unat (w_written w) + unat need \<le> unat (w_capacity w') \<and>
            (0 < need \<longrightarrow> w_buf w' \<noteq> None)) \<or>
         (\<exists>n. \<not> alloc n) \<and> writer_ensure alloc w need = Some (-1, w)"
proof (cases "need \<le> w_capacity w - w_written w")
  case True
  have le: "w_written w \<le> w_capacity w"
    using assms(1) by (auto simp: writer_ok_def word_le_nat_alt split: option.splits)
  then have "unat (w_capacity w - w_written w) = unat (w_capacity w) - unat (w_written w)"
    by (simp add: unat_sub)
  with True le have "unat (w_written w) + unat need \<le> unat (w_capacity w)"
    by (simp add: word_le_nat_alt)
  moreover have "0 < need \<longrightarrow> w_buf w \<noteq> None"
    using True assms(1) by (auto simp: writer_ok_def split: option.splits)
  ultimately show ?thesis using True assms(1) by (simp add: writer_ensure_def)
next
  case False
  let ?c = "if w_capacity w \<noteq> 0 then w_capacity w * 2 else MSGPACK_BUF_INITIAL_CAP"
  have le: "w_written w \<le> w_capacity w"
    using assms(1) by (auto simp: writer_ok_def word_le_nat_alt split: option.splits)
  have sum: "unat (w_written w + need) = unat (w_written w) + unat need"
    using assms(2) by (intro unat_add_lem [THEN iffD1]) simp
  have lt: "unat (w_capacity w) < unat (w_written w + need)"
    using False le by (simp add: word_le_nat_alt unat_sub sum)
  have "0 < ?c"
  proof (cases "w_capacity w = 0")
    case False
    have "unat (w_capacity w * 2) = 2 * unat (w_capacity w)"
      using lt assms(2) sum by (intro unat_double) simp
    moreover have "0 < unat (w_capacity w)" using False by (simp add: unat_gt_0)
    ultimately show ?thesis using False by (simp add: word_less_nat_alt)
  qed (simp add: proto_consts)
  then obtain c where c: "grow_cap (w_written w + need) ?c = Some c" "w_written w + need \<le> c"
    using grow_cap_returns [of ?c "w_written w + need"] assms(2) sum by auto
  have cap: "unat (w_written w) + unat need \<le> unat c"
    using c(2) by (simp add: word_le_nat_alt sum)
  have "unat (w_capacity w) \<le> unat c" using lt c(2) by (simp add: word_le_nat_alt)
  then have "writer_ok (w\<lparr>w_buf := (case w_buf w of None \<Rightarrow> Some [] | Some b \<Rightarrow> Some b), w_capacity := c\<rparr>)"
    using assms(1) by (auto simp: writer_ok_def split: option.splits)
  then show ?thesis
    using False c(1) cap by (cases "alloc c") (auto simp: writer_ensure_def w_contents_def split: option.splits)
qed

definition appends :: "(u64 \<Rightarrow> bool) \<Rightarrow> msgpack_writer \<Rightarrow> bytes \<Rightarrow> write_result \<Rightarrow> bool" where
  "appends alloc w d r \<longleftrightarrow>
     (\<exists>w'. r = Some (0, w') \<and> writer_ok w' \<and> w_contents w' = w_contents w @ d \<and>
        unat (w_written w') = unat (w_written w) + length d) \<or>
     (\<exists>w'. r = Some (-1, w') \<and> writer_ok w') \<and> (\<exists>n. \<not> alloc n)"

lemma writer_append_appends:
  assumes "writer_ok w" "unat (w_written w) + length d \<le> 2 ^ 62"
  shows "appends alloc w d (writer_append alloc d w)"
proof -
  have len: "unat (of_nat (length d) :: u64) = length d"
    using assms(2) by (simp add: unat_of_nat)
  note cases' = writer_ensure_cases [OF assms(1), of "of_nat (length d)" alloc, unfolded len, OF assms(2)]
  then consider w' where "writer_ensure alloc w (of_nat (length d)) = Some (0, w')" "writer_ok w'"
      "w_written w' = w_written w" "w_contents w' = w_contents w"
      "unat (w_written w) + length d \<le> unat (w_capacity w')" "d \<noteq> [] \<longrightarrow> w_buf w' \<noteq> None"
    | n where "\<not> alloc n" "writer_ensure alloc w (of_nat (length d)) = Some (-1, w)"
    using len by (auto simp: word_less_nat_alt)
  then show ?thesis
  proof cases
    case 1
    have sum: "unat (w_written w + of_nat (length d)) = unat (w_written w) + length d"
      using assms(2) len unat_add_lem [of "w_written w" "of_nat (length d)"] by simp
    show ?thesis
    proof (cases "w_buf w'")
      case None
      with 1 have "d = []" by auto
      with 1 None show ?thesis
        by (auto simp: appends_def writer_append_def wseq_def writer_ok_def w_contents_def)
    next
      case (Some b)
      with 1 have "unat (w_written w) \<le> length b" "length b \<le> unat (w_capacity w')"
        by (auto simp: writer_ok_def)
      with 1 Some sum show ?thesis
        by (auto simp: appends_def writer_append_def wseq_def writer_ok_def w_contents_def
            take_memwrite length_memwrite_max)
    qed
  next
    case 2
    with assms(1) show ?thesis by (auto simp: appends_def writer_append_def wseq_def)
  qed
qed

lemma appends_wseq:
  assumes "appends alloc w d r"
    and "\<And>w'. \<lbrakk>writer_ok w'; unat (w_written w') = unat (w_written w) + length d\<rbrakk>
      \<Longrightarrow> appends alloc w' e (g w')"
  shows "appends alloc w (d @ e) (wseq r g)"
  using assms unfolding appends_def wseq_def by fastforce

lemma appends_nil: "writer_ok w \<Longrightarrow> appends alloc w [] (Some (0, w))"
  by (simp add: appends_def)

text \<open>The bytes the integer writers pick out of a value are those of its big-endian image.\<close>

lemma byte_pick:
  fixes v :: u32
  shows "(ucast (v AND 0xff) :: byte) = ucast v"
    and "n \<le> 24 \<Longrightarrow> (ucast (signed_drop_bit n v) :: byte) = ucast (drop_bit n v)"
proof -
  have "(0xff :: u32) = mask 8" by (simp add: mask_eq_decr_exp)
  moreover have "(ucast (v AND mask 8) :: byte) = ucast v"
    by (rule bit_word_eqI) (auto simp: bit_simps)
  ultimately show "(ucast (v AND 0xff) :: byte) = ucast v" by simp
  show "n \<le> 24 \<Longrightarrow> (ucast (signed_drop_bit n v) :: byte) = ucast (drop_bit n v)"
    by (rule bit_word_eqI) (auto simp: bit_simps)
qed

lemma byte_pick64: "(ucast ((v :: u64) AND 0xff) :: byte) = ucast v"
proof -
  have "(0xff :: u64) = mask 8" by (simp add: mask_eq_decr_exp)
  moreover have "(ucast (v AND mask 8) :: byte) = ucast v"
    by (rule bit_word_eqI) (auto simp: bit_simps)
  ultimately show ?thesis by simp
qed

lemma msgpack_write_int32_appends:
  assumes "writer_ok w" "unat (w_written w) + 5 \<le> 2 ^ 62"
  shows "appends alloc w (int32_encoding v) (msgpack_write_int32 alloc v w)"
proof -
  have len: "length (int32_encoding v) \<le> 5" by (simp add: int32_encoding_def)
  have "msgpack_write_int32 alloc v w = writer_append alloc (int32_encoding v) w"
    by (simp add: msgpack_write_int32_def int32_encoding_def byte_pick be32_def)
  then show ?thesis using writer_append_appends [OF assms(1), of "int32_encoding v"] len assms(2) by simp
qed

lemma msgpack_write_int64_appends:
  assumes "writer_ok w" "unat (w_written w) + 9 \<le> 2 ^ 62"
  shows "appends alloc w (0xd3 # be64 v) (msgpack_write_int64 alloc v w)"
  using writer_append_appends [OF assms(1), of "0xd3 # be64 v"] assms(2)
  by (simp add: msgpack_write_int64_def byte_pick64 be64_def MSGPACK_INT64_def)

lemma msgpack_write_bin_appends:
  assumes "writer_ok w" "unat (w_written w) + 5 + unat len \<le> 2 ^ 62" "unat len \<le> length data"
  shows "appends alloc w (bin_header len @ take (unat len) data) (msgpack_write_bin alloc data len w)"
proof -
  have hlen: "length (bin_header len) \<le> 5" by (simp add: bin_header_def)
  have "(if len < 256 then writer_append alloc [MSGPACK_BIN8, ucast len] w
           else if len < 65536 then
             writer_append alloc [MSGPACK_BIN16, ucast (drop_bit 8 len), ucast (len AND 0xff)] w
           else writer_append alloc [MSGPACK_BIN32, ucast (drop_bit 24 len), ucast (drop_bit 16 len),
                ucast (drop_bit 8 len), ucast (len AND 0xff)] w) = writer_append alloc (bin_header len) w"
    by (simp add: bin_header_def byte_pick be32_def word_less_nat_alt)
  then show ?thesis
    unfolding msgpack_write_bin_def
    using assms hlen by (auto intro!: appends_wseq writer_append_appends)
qed

lemma msgpack_encode_block_appends:
  assumes "writer_ok w" "unat data_len \<le> length data"
  shows "appends alloc (w\<lparr>w_written := 0\<rparr>) (block_encoding devno off (take (unat data_len) data))
    (msgpack_encode_block alloc w devno off data data_len)"
proof -
  let ?w = "w\<lparr>w_written := 0\<rparr>" and ?d = "take (unat data_len) data"
  have ok: "writer_ok ?w" using assms(1) by (auto simp: writer_ok_def split: option.splits)
  have l32: "length (int32_encoding devno) \<le> 5" by (simp add: int32_encoding_def)
  have small: "unat data_len < 2 ^ 32" using unsigned_less [of data_len] by simp
  have hd: "of_nat (min (length data) (unat data_len)) = data_len"
    using assms(2) by (simp add: min_def)
  have "appends alloc ?w ([0x93] @ [0] @ int32_encoding devno @ [1] @ (0xd3 # be64 off) @ [2] @
      (bin_header data_len @ ?d) @ [])
    (msgpack_encode_block alloc w devno off data data_len)"
    unfolding msgpack_encode_block_def MSGPACK_FIXMAP_3_def
  proof (intro appends_wseq)
    show "appends alloc ?w [0x93] (writer_append alloc [0x93] ?w)"
      using ok by (intro writer_append_appends) simp_all
  qed (use l32 small assms(2) in \<open>auto intro!: writer_append_appends msgpack_write_int32_appends
      msgpack_write_int64_appends msgpack_write_bin_appends appends_nil\<close>)
  then show ?thesis by (simp add: block_encoding_def hd)
qed

text \<open>
  C7: encoding a block always returns, whatever the allocator does, and keeps the writer's
  invariant (written bytes inside the allocation).  With return code 0 the writer holds exactly
  the reference encoding of (devno, offset, data), however often the buffer was reallocated on
  the way and whatever the writer held before; otherwise the code is -1 and some allocation
  was refused.
\<close>
theorem msgpack_encode_block_correct:
  assumes "writer_ok w" "unat data_len \<le> length data"
  shows "\<exists>rc w'. msgpack_encode_block alloc w devno off data data_len = Some (rc, w') \<and> writer_ok w' \<and>
    (if rc = 0 then w_contents w' = block_encoding devno off (take (unat data_len) data)
     else rc = -1 \<and> (\<exists>n. \<not> alloc n))"
proof -
  have "w_contents (w\<lparr>w_written := 0\<rparr>) = []" by (simp add: w_contents_def split: option.split)
  then show ?thesis
    using msgpack_encode_block_appends [OF assms, of alloc devno off]
    unfolding appends_def by - (elim disjE exE conjE; intro exI conjI, assumption; auto)
qed

theorem msgpack_encode_block_correct_witness:
  "\<exists>w'. msgpack_encode_block (\<lambda>_. True) (msgpack_writer_init (\<lambda>_. True)) 3 0x100000 [7, 8, 9] 3
      = Some (0, w') \<and>
    w_contents w' = [0x93, 0, 3, 1, 0xd3, 0, 0, 0, 0, 0, 0x10, 0, 0, 2, 0xc4, 3, 7, 8, 9]"
proof -
  have "writer_ok (msgpack_writer_init (\<lambda>_. True))" by (simp add: msgpack_writer_init_def writer_ok_def)
  moreover have "block_encoding 3 0x100000 (take (unat (3 :: u32)) [7, 8, 9])
      = [0x93, 0, 3, 1, 0xd3, 0, 0, 0, 0, 0, 0x10, 0, 0, 2, 0xc4, 3, 7, 8, 9]"
    by code_simp
  ultimately show ?thesis
    using msgpack_encode_block_correct [of "msgpack_writer_init (\<lambda>_. True)" 3 "[7, 8, 9]" "\<lambda>_. True" 3 "0x100000"]
    by (auto split: if_splits)
qed

end
