(* ===== verification/Wire.thy ===== *)
theory Wire
  imports Msgpack_Enc
begin

text \<open>
  The client's wire layer, \<^verbatim>\<open>client/wire.c\<close>: sending a whole buffer over a non-blocking
  socket (\<open>send_all\<close>), framing a compressed block (\<open>wire_send\<close>) and a control message
  (\<open>wire_send_control\<close>).

  \<^item> A socket is what has been accepted by the kernel so far (\<open>sk_out\<close>) and the outcomes of the
    coming \<open>send\<close> calls (\<open>sk_script\<close>): \<open>Accepts k\<close> takes up to \<open>k\<close> bytes (and returns 0 for
    \<open>k = 0\<close>), \<open>WouldBlock\<close> is \<open>EAGAIN\<close>, \<open>Interrupted\<close> is \<open>EINTR\<close>, \<open>Fails\<close> any
    other error.  A call that needs more
    outcomes than the script has has not returned: \<open>None\<close>.
  \<^item> \<open>zc level src cap\<close> is \<open>ZSTD_compress\<close> into a buffer of \<open>cap\<close> bytes, \<open>None\<close> for a result that
    \<open>ZSTD_isError\<close> accepts.
  \<^item> Lengths are \<open>size_t\<close>; the scratch buffer is its memory, so its length is \<open>scratch_cap\<close>.
\<close>

datatype send_outcome = Accepts nat | WouldBlock | Interrupted | Fails

record sock =
  sk_out :: bytes
  sk_script :: "send_outcome list"

text \<open>The receiving side of a socket is a list of what the coming \<open>recv\<close> calls find: bytes that are
  available (\<open>Avail []\<close> is the return value 0, the peer's close), a moment with nothing to read
  (\<open>EAGAIN\<close>) or an error.  With no outcome left there is nothing to read.\<close>

datatype recv_outcome = Avail bytes | RecvBlocks | RecvError

definition host_to_be32 :: "u32 \<Rightarrow> u32" where
  "host_to_be32 val = bswap32 val"

fun send_loop :: "send_outcome list \<Rightarrow> bytes \<Rightarrow> bytes \<Rightarrow> nat \<Rightarrow> (int \<times> sock) option" where
  "send_loop script out data sent =
     (if sent < length data then
        (case script of
           [] \<Rightarrow> None
         | WouldBlock # s \<Rightarrow> send_loop s out data sent
         | Interrupted # s \<Rightarrow> Some (-1, \<lparr>sk_out = out, sk_script = s\<rparr>)
         | Fails # s \<Rightarrow> Some (-1, \<lparr>sk_out = out, sk_script = s\<rparr>)
         | Accepts k # s \<Rightarrow>
             (let n = min k (length data - sent) in
              if n = 0 then Some (-1, \<lparr>sk_out = out, sk_script = s\<rparr>)
              else send_loop s (out @ take n (drop sent data)) data (sent + n)))
      else Some (0, \<lparr>sk_out = out, sk_script = script\<rparr>))"

declare send_loop.simps [simp del]

definition send_all :: "sock \<Rightarrow> bytes \<Rightarrow> (int \<times> sock) option" where
  "send_all fd data = send_loop (sk_script fd) (sk_out fd) data 0"

definition ZSTD_COMPRESS_BOUND :: "u64 \<Rightarrow> u64" where
  "ZSTD_COMPRESS_BOUND src_size = src_size + src_size div 8 + 64"

definition wire_send ::
  "(int \<Rightarrow> bytes \<Rightarrow> u64 \<Rightarrow> bytes option) \<Rightarrow> sock \<Rightarrow> bytes \<Rightarrow> int \<Rightarrow> bytes \<Rightarrow> (int \<times> bytes \<times> sock) option"
where
  "wire_send zc fd msg level scratch =
     (let zstd_bound = ZSTD_COMPRESS_BOUND (of_nat (length msg)) in
      if zstd_bound + of_nat FRAME_MAGIC_LEN + of_nat TCP_FRAME_HEADER_SIZE > of_nat (length scratch)
      then Some (-1, scratch, fd)
      else case zc level msg zstd_bound of
        None \<Rightarrow> Some (-1, scratch, fd)
      | Some compressed \<Rightarrow>
          (let s1 = memwrite (TCP_FRAME_HEADER_SIZE + FRAME_MAGIC_LEN) compressed scratch;
               payload_len = of_nat FRAME_MAGIC_LEN + of_nat (length compressed) :: u64;
               s2 = memwrite TCP_FRAME_HEADER_SIZE FRAME_MAGIC s1;
               be_len = host_to_be32 (ucast payload_len);
               s3 = memwrite 0 (le32 be_len) s2;
               total_len = of_nat TCP_FRAME_HEADER_SIZE + payload_len
           in map_option (\<lambda>(rc, fd'). (rc, s3, fd')) (send_all fd (take (unat total_len) s3))))"

definition wire_send_control :: "sock \<Rightarrow> bytes \<Rightarrow> nat \<Rightarrow> (int \<times> sock) option" where
  "wire_send_control fd str len =
     (case send_all fd (le32 (host_to_be32 (of_nat len))) of
        None \<Rightarrow> None
      | Some (rc, fd) \<Rightarrow>
          if rc \<noteq> 0 then Some (-1, fd)
          else (case send_all fd (take len str) of
                  None \<Rightarrow> None
                | Some (rc, fd) \<Rightarrow> if rc \<noteq> 0 then Some (-1, fd) else Some (0, fd)))"

text \<open>The scratch buffer \<^verbatim>\<open>pool.h\<close> gives every connection.\<close>

definition SEND_SCRATCH_SIZE :: nat where "SEND_SCRATCH_SIZE = 0x130000"

section \<open>Reference: the frame a message becomes\<close>

definition frame :: "bytes \<Rightarrow> bytes" where
  "frame payload = be32 (of_nat (length payload)) @ payload"

definition data_frame :: "bytes \<Rightarrow> bytes" where
  "data_frame compressed = frame (FRAME_MAGIC @ compressed)"

text \<open>What \<open>ZSTD_compress\<close> documents: the result fits the destination capacity.\<close>

definition zstd_fits :: "(int \<Rightarrow> bytes \<Rightarrow> u64 \<Rightarrow> bytes option) \<Rightarrow> bool" where
  "zstd_fits zc \<longleftrightarrow> (\<forall>level msg cap c. zc level msg cap = Some c \<longrightarrow> length c \<le> unat cap)"

section \<open>Sending\<close>

text \<open>What a script takes from \<open>n\<close> pending bytes without error, and whether it ends in one.\<close>

fun takes :: "send_outcome list \<Rightarrow> nat \<Rightarrow> bool" where
  "takes script 0 = True"
| "takes [] (Suc n) = False"
| "takes (WouldBlock # s) (Suc n) = takes s (Suc n)"
| "takes (Interrupted # s) (Suc n) = False"
| "takes (Fails # s) (Suc n) = False"
| "takes (Accepts k # s) (Suc n) = (0 < k \<and> takes s (Suc n - k))"

lemma send_loop_done [simp]:
  "length data \<le> sent \<Longrightarrow> send_loop script out data sent = Some (0, \<lparr>sk_out = out, sk_script = script\<rparr>)"
  by (simp add: send_loop.simps [of script])

lemma send_loop_step [simp]:
  assumes "sent < length data"
  shows "send_loop [] out data sent = None"
    and "send_loop (WouldBlock # s) out data sent = send_loop s out data sent"
    and "send_loop (Interrupted # s) out data sent = Some (-1, \<lparr>sk_out = out, sk_script = s\<rparr>)"
    and "send_loop (Fails # s) out data sent = Some (-1, \<lparr>sk_out = out, sk_script = s\<rparr>)"
    and "send_loop (Accepts 0 # s) out data sent = Some (-1, \<lparr>sk_out = out, sk_script = s\<rparr>)"
    and "0 < k \<Longrightarrow> send_loop (Accepts k # s) out data sent =
      send_loop s (out @ take k (drop sent data)) data (sent + min k (length data - sent))"
  using assms
  by (simp_all add: send_loop.simps [of "[]"] send_loop.simps [of "WouldBlock # s"]
      send_loop.simps [of "Interrupted # s"] send_loop.simps [of "Fails # s"] send_loop.simps [of "Accepts 0 # s"]
      send_loop.simps [of "Accepts k # s"] Let_def min_def)

lemma send_loop_result:
  assumes "send_loop script out data sent = Some (rc, fd)" "sent \<le> length data"
  shows "rc = 0 \<and> sk_out fd = out @ drop sent data \<or>
    rc = -1 \<and> (\<exists>n < length data - sent. sk_out fd = out @ take n (drop sent data))"
  using assms
proof (induction script arbitrary: out sent)
  case Nil
  then show ?case by (cases "sent < length data") auto
next
  case (Cons x s)
  show ?case
  proof (cases "sent < length data")
    case False
    with Cons.prems show ?thesis by auto
  next
    case True
    consider k where "x = Accepts k" "0 < k" | "x = Accepts 0" | "x = WouldBlock" | "x = Interrupted" | "x = Fails"
      by (metis gr0I send_outcome.exhaust)
    then show ?thesis
    proof cases
      case 1
      define n where "n = min k (length data - sent)"
      have a: "send_loop s (out @ take k (drop sent data)) data (sent + n) = Some (rc, fd)"
        using Cons.prems True 1 by (simp add: n_def)
      have b: "sent + n \<le> length data" using True by (simp add: n_def)
      have c: "take k (drop sent data) = take n (drop sent data)"
        by (simp add: n_def min_def)
      from Cons.IH [OF a b] consider "rc = 0" "sk_out fd = out @ take n (drop sent data) @ drop (sent + n) data"
        | m where "rc = -1" "m < length data - (sent + n)"
          "sk_out fd = out @ take n (drop sent data) @ take m (drop (sent + n) data)"
        unfolding c by auto
      then show ?thesis
      proof cases
        case 1
        then show ?thesis by (metis append_take_drop_id drop_drop add.commute)
      next
        case 2
        then have "sk_out fd = out @ take (n + m) (drop sent data)"
          by (simp add: take_add add.commute [of sent n])
        with 2 show ?thesis by (auto intro!: exI [of _ "n + m"])
      qed
    qed (use Cons.prems True Cons.IH in \<open>auto intro: exI [of _ 0]\<close>)
  qed
qed

lemma send_loop_takes:
  "takes script (length data - sent) \<longleftrightarrow> (\<exists>fd. send_loop script out data sent = Some (0, fd))"
proof (induction script arbitrary: out sent)
  case Nil
  then show ?case by (cases "length data - sent") auto
next
  case (Cons x s)
  show ?case
  proof (cases "length data - sent")
    case 0
    then show ?thesis by simp
  next
    case (Suc m)
    then have lt: "sent < length data" by simp
    consider k where "x = Accepts k" "0 < k" | "x = Accepts 0" | "x = WouldBlock" | "x = Interrupted" | "x = Fails"
      by (metis gr0I send_outcome.exhaust)
    then show ?thesis
    proof cases
      case (1 k)
      have "Suc m - k = length data - (sent + min k (length data - sent))" using Suc by simp
      with 1 Suc lt Cons.IH [of "sent + min k (length data - sent)"] show ?thesis by simp
    qed (use Suc lt Cons.IH [of sent out] in auto)
  qed
qed

lemma send_all_result:
  assumes "send_all fd data = Some (rc, fd')"
  shows "rc = 0 \<and> sk_out fd' = sk_out fd @ data \<or>
    rc = -1 \<and> (\<exists>n < length data. sk_out fd' = sk_out fd @ take n data)"
  using send_loop_result [of "sk_script fd" "sk_out fd" data 0 rc fd'] assms by (simp add: send_all_def)

lemma send_all_takes:
  "takes (sk_script fd) (length data) \<longleftrightarrow> (\<exists>fd'. send_all fd data = Some (0, fd'))"
  using send_loop_takes [of "sk_script fd" data 0] by (simp add: send_all_def)

section \<open>Frames\<close>

lemma ucast_of_nat_32: "ucast (of_nat n :: u64) = (of_nat n :: u32)"
  by (rule bit_word_eqI) (auto simp: bit_simps bit_of_nat_iff_bit [symmetric])

lemma length_frame [simp]: "length (frame p) = 4 + length p"
  by (simp add: frame_def)

text \<open>The three writes into the scratch buffer build the frame at its beginning.\<close>

lemma scratch_frame:
  assumes "7 + length c \<le> length scratch"
  shows "take (7 + length c)
      (memwrite 0 (le32 (host_to_be32 (of_nat (3 + length c))))
        (memwrite 4 FRAME_MAGIC (memwrite 7 c scratch))) = data_frame c"
proof -
  have m: "length FRAME_MAGIC = 3" by (simp add: proto_consts)
  have "memwrite 0 h (memwrite 4 FRAME_MAGIC (memwrite 7 c scratch)) = h @ FRAME_MAGIC @ c @ drop (7 + length c) scratch"
    if "length h = 4" for h
    using that assms m by (simp add: memwrite_def)
  then show ?thesis
    by (simp add: data_frame_def frame_def m host_to_be32_def le32_bswap32)
qed

lemma unat_ZSTD_COMPRESS_BOUND:
  assumes "n < 2 ^ 40"
  shows "unat (ZSTD_COMPRESS_BOUND (of_nat n)) = n + n div 8 + 64"
proof -
  have n: "unat (of_nat m :: u64) = m" if "m < 2 ^ 42" for m
    using that by (simp add: unat_of_nat)
  have "ZSTD_COMPRESS_BOUND (of_nat n) = of_nat (n + n div 8 + 64)"
    using assms by (simp add: ZSTD_COMPRESS_BOUND_def word_arith_nat_div n)
  then show ?thesis using assms by (simp only:) (rule n, simp)
qed

lemma wire_send_frame:
  fixes zc
  assumes "zstd_fits zc" "length msg < 2 ^ 40" "length scratch < 2 ^ 40"
    and "length msg + length msg div 8 + 71 \<le> length scratch"
    and "zc level msg (ZSTD_COMPRESS_BOUND (of_nat (length msg))) = Some c"
  shows "\<exists>scratch'. length scratch' = length scratch \<and>
    wire_send zc fd msg level scratch =
      map_option (\<lambda>(rc, fd'). (rc, scratch', fd')) (send_all fd (data_frame c))"
proof -
  have len64: "unat (of_nat n :: u64) = n" if "n < 2 ^ 42" for n
    using that by (simp add: unat_of_nat)
  note bound = unat_ZSTD_COMPRESS_BOUND [OF assms(2)]
  have c: "7 + length c \<le> length scratch"
    using assms(1,4,5) bound by (force simp: zstd_fits_def)
  define s3 where "s3 = memwrite 0 (le32 (host_to_be32 (of_nat (3 + length c))))
        (memwrite 4 FRAME_MAGIC (memwrite 7 c scratch))"
  have s3: "length s3 = length scratch"
    using c by (simp add: s3_def proto_consts)
  have room: "\<not> of_nat (length scratch) <
      ZSTD_COMPRESS_BOUND (of_nat (length msg)) + of_nat FRAME_MAGIC_LEN + of_nat TCP_FRAME_HEADER_SIZE"
  proof -
    have "unat (ZSTD_COMPRESS_BOUND (of_nat (length msg)) + 3 + 4) = length msg + length msg div 8 + 71"
      using assms(2) bound by (simp add: unat_plus_simple unat_word_ariths)
    then show ?thesis using assms(3,4) by (simp add: proto_consts word_less_nat_alt len64)
  qed
  have tot: "unat (7 + of_nat (length c) :: u64) = 7 + length c"
    using len64 [of "7 + length c"] c assms(3) by simp
  have pay: "ucast (3 + of_nat (length c) :: u64) = (3 + of_nat (length c) :: u32)"
    using ucast_of_nat_32 [of "3 + length c"] by simp
  have "wire_send zc fd msg level scratch =
      map_option (\<lambda>(rc, fd'). (rc, s3, fd')) (send_all fd (take (7 + length c) s3))"
    using room assms(5) by (simp add: wire_send_def s3_def proto_consts tot pay Let_def)
  then show ?thesis using scratch_frame [OF c] s3 by (auto simp: s3_def)
qed

lemma length_block_encoding: "length (block_encoding devno off data) \<le> length data + 23"
proof -
  have "length (int32_encoding devno) \<le> 5" "length (bin_header n) \<le> 5" for n
    by (simp_all add: int32_encoding_def bin_header_def)
  from this(1) this(2) [of "of_nat (length data)"] show ?thesis
    by (simp add: block_encoding_def del: of_nat_eq_0_iff)
qed

text \<open>
  C6: sending one block never fails for lack of scratch space: for every block of at most 1 MB,
  whatever its device and offset, the encoded message fits the connection's scratch buffer of
  \<open>SEND_SCRATCH_SIZE\<close> bytes; \<open>wire_send\<close> then hands the kernel exactly the frame (4-byte big-endian
  length, "abc", compressed message) when it returns 0, and a strict prefix of it when it
  returns -1.  It returns 0 exactly when the socket takes the whole frame without an error.
\<close>
theorem wire_send_block:
  fixes zc :: "int \<Rightarrow> bytes \<Rightarrow> u64 \<Rightarrow> bytes option"
  assumes "zstd_fits zc" "length data \<le> BLOCK_SIZE_MAX" "length scratch = SEND_SCRATCH_SIZE"
    and "msg = block_encoding devno off data"
    and "zc level msg (ZSTD_COMPRESS_BOUND (of_nat (length msg))) = Some c"
  shows "(\<forall>rc scratch' fd'. wire_send zc fd msg level scratch = Some (rc, scratch', fd') \<longrightarrow>
      (rc = 0 \<and> sk_out fd' = sk_out fd @ data_frame c \<or>
       rc = -1 \<and> (\<exists>n < length (data_frame c). sk_out fd' = sk_out fd @ take n (data_frame c))))
    \<and> (takes (sk_script fd) (length (data_frame c)) \<longleftrightarrow>
        (\<exists>scratch' fd'. wire_send zc fd msg level scratch = Some (0, scratch', fd')))"
proof -
  have "length msg \<le> 0x100000 + 23"
    using assms(2,4) length_block_encoding [of devno off data] by (simp add: proto_consts)
  then have "length msg < 2 ^ 40" "length scratch < 2 ^ 40"
    "length msg + length msg div 8 + 71 \<le> length scratch"
    using assms(3) by (simp_all add: SEND_SCRATCH_SIZE_def)
  from wire_send_frame [OF assms(1) this assms(5), of fd] obtain s where
    w: "wire_send zc fd msg level scratch = map_option (\<lambda>(rc, fd'). (rc, s, fd')) (send_all fd (data_frame c))"
    by blast
  show ?thesis
  proof (intro conjI allI impI)
    fix rc s' fd'
    assume "wire_send zc fd msg level scratch = Some (rc, s', fd')"
    with w have "send_all fd (data_frame c) = Some (rc, fd')"
      by (cases "send_all fd (data_frame c)") auto
    from send_all_result [OF this] show "rc = 0 \<and> sk_out fd' = sk_out fd @ data_frame c \<or>
       rc = -1 \<and> (\<exists>n < length (data_frame c). sk_out fd' = sk_out fd @ take n (data_frame c))" .
  next
    show "takes (sk_script fd) (length (data_frame c)) \<longleftrightarrow>
        (\<exists>scratch' fd'. wire_send zc fd msg level scratch = Some (0, scratch', fd'))"
      unfolding send_all_takes w by (cases "send_all fd (data_frame c)") auto
  qed
qed

theorem wire_send_block_witness:
  "\<exists>s fd'. wire_send (\<lambda>level m cap. if 2 \<le> cap then Some (take 2 m) else None)
      \<lparr>sk_out = [], sk_script = [Accepts 5, WouldBlock, Accepts 9]\<rparr>
      (block_encoding 0 0 [1, 2, 3]) 3 (replicate SEND_SCRATCH_SIZE 0) = Some (0, s, fd') \<and>
    sk_out fd' = [0, 0, 0, 5, 0x61, 0x62, 0x63, 0x93, 0]"
proof -
  define m where "m = block_encoding 0 0 [1, 2, 3]"
  define zc :: "int \<Rightarrow> bytes \<Rightarrow> u64 \<Rightarrow> bytes option" where
    "zc = (\<lambda>level m cap. if 2 \<le> cap then Some (take 2 m) else None)"
  define fd where "fd = \<lparr>sk_out = [], sk_script = [Accepts 5, WouldBlock, Accepts 9]\<rparr>"
  have fr: "data_frame (take 2 m) = [0, 0, 0, 5, 0x61, 0x62, 0x63, 0x93, 0]"
    unfolding m_def by code_simp
  have fits: "zstd_fits zc" by (auto simp: zstd_fits_def zc_def word_le_nat_alt)
  have c: "zc 3 m (ZSTD_COMPRESS_BOUND (of_nat (length m))) = Some (take 2 m)"
    unfolding m_def zc_def by code_simp
  have t: "takes (sk_script fd) (length (data_frame (take 2 m)))"
    unfolding fr fd_def by code_simp
  note sent = wire_send_block [OF fits _ _ m_def c, of "replicate SEND_SCRATCH_SIZE 0" fd]
  from sent t obtain s fd' where "wire_send zc fd m 3 (replicate SEND_SCRATCH_SIZE 0) = Some (0, s, fd')"
    by (auto simp: proto_consts)
  moreover from this sent have "sk_out fd' = sk_out fd @ data_frame (take 2 m)"
    by (force simp: proto_consts)
  ultimately show ?thesis unfolding m_def [symmetric] zc_def [symmetric] fd_def [symmetric] fr
    by (auto simp: fd_def)
qed

end
