(* ===== verification/Conn_Pool.thy ===== *)
theory Conn_Pool
  imports Wire
begin

text \<open>
  The client's connection pool, \<^verbatim>\<open>client/pool.c\<close> and \<^verbatim>\<open>client/pool.h\<close>: seven slots, each with a
  socket and a scratch buffer, handed out round-robin.

  \<^item> The result of \<open>socket()\<close> (\<open>None\<close> for a failure) and of \<open>connect()\<close> are arguments, for
    \<open>pool_init\<close> one pair per slot; so are the current time and the outcome of \<open>malloc\<close>.
  \<^item> \<open>c_send_scratch\<close> is \<open>None\<close> for NULL and otherwise the buffer's memory.
  \<^item> A pointer to a connection is the index of its slot.
  \<^item> The data a connection receives is a list of \<open>recv_outcome\<close>.

  The operations that change the pool hold its mutex, so each is one atomic step.
\<close>

definition SOCKET_ERR :: int where "SOCKET_ERR = -1"

datatype connect_outcome = Connected | InProgress | Refused

record pool_conn_t =
  c_fd :: int
  c_server_ip :: string
  c_server_port :: "16 word"
  c_in_use :: bool
  c_last_active :: int
  c_created_at :: int
  c_blocks_sent :: u64
  c_bytes_sent :: u64
  c_send_scratch :: "bytes option"
  c_send_scratch_cap :: nat

record socket_pool_t =
  p_conns :: "pool_conn_t list"
  p_count :: int
  p_next_index :: nat
  p_mutex :: bool

definition zero_conn :: pool_conn_t where
  "zero_conn = \<lparr>c_fd = 0, c_server_ip = '''', c_server_port = 0, c_in_use = False, c_last_active = 0,
     c_created_at = 0, c_blocks_sent = 0, c_bytes_sent = 0, c_send_scratch = None, c_send_scratch_cap = 0\<rparr>"

definition pool_connect :: "int option \<Rightarrow> connect_outcome \<Rightarrow> int" where
  "pool_connect sock co =
     (case sock of
        None \<Rightarrow> SOCKET_ERR
      | Some fd \<Rightarrow> (case co of Connected \<Rightarrow> fd | InProgress \<Rightarrow> fd | Refused \<Rightarrow> SOCKET_ERR))"

section \<open>Building and destroying the pool\<close>

text \<open>The state of slot \<open>i\<close> before its connection is tried.\<close>

definition prepare_conn :: "bool \<Rightarrow> string \<Rightarrow> 16 word \<Rightarrow> pool_conn_t" where
  "prepare_conn alloc server_ip server_port =
     (let c = zero_conn\<lparr>c_fd := SOCKET_ERR, c_server_port := server_port, c_in_use := False,
                c_server_ip := take 63 server_ip\<rparr> in
      if alloc then c\<lparr>c_send_scratch := Some (replicate SEND_SCRATCH_SIZE 0), c_send_scratch_cap := SEND_SCRATCH_SIZE\<rparr>
      else c)"

fun pool_init_loop ::
  "(nat \<Rightarrow> bool) \<Rightarrow> (nat \<Rightarrow> int option \<times> connect_outcome) \<Rightarrow> int \<Rightarrow> string \<Rightarrow> 16 word \<Rightarrow> nat list \<Rightarrow>
   socket_pool_t \<Rightarrow> int \<times> socket_pool_t" where
  "pool_init_loop alloc net now ip port [] p = (0, p)"
| "pool_init_loop alloc net now ip port (i # is) p =
     (let c = prepare_conn (alloc i) ip port;
          p = p\<lparr>p_conns := (p_conns p)[i := c]\<rparr>
      in if c_send_scratch c = None then pool_init_loop alloc net now ip port is p
         else
           let fd = pool_connect (fst (net i)) (snd (net i)) in
           if fd = SOCKET_ERR then (if i = 0 then (-1, p) else (0, p))
           else pool_init_loop alloc net now ip port is
                  (p\<lparr>p_conns := (p_conns p)[i := c\<lparr>c_fd := fd, c_last_active := now, c_created_at := now\<rparr>],
                     p_count := p_count p + 1\<rparr>))"

definition pool_init ::
  "bool \<Rightarrow> (nat \<Rightarrow> bool) \<Rightarrow> (nat \<Rightarrow> int option \<times> connect_outcome) \<Rightarrow> int \<Rightarrow> string \<Rightarrow> 16 word \<Rightarrow>
   int \<times> socket_pool_t" where
  "pool_init alloc_mutex alloc net now ip port =
     (let p = \<lparr>p_conns = replicate SOCKET_POOL_TARGET zero_conn, p_count = 0, p_next_index = 0,
               p_mutex = alloc_mutex\<rparr> in
      if \<not> alloc_mutex then (-1, p)
      else pool_init_loop alloc net now ip port [0..<SOCKET_POOL_TARGET] p)"

text \<open>The descriptors closed are returned with the pool.\<close>

definition pool_destroy :: "socket_pool_t \<Rightarrow> int list \<times> socket_pool_t" where
  "pool_destroy p =
     (filter (\<lambda>fd. fd \<noteq> SOCKET_ERR) (map c_fd (p_conns p)),
      p\<lparr>p_conns := map (\<lambda>c. c\<lparr>c_fd := SOCKET_ERR, c_send_scratch := None\<rparr>) (p_conns p),
        p_count := 0, p_mutex := False\<rparr>)"

section \<open>Handing out connections\<close>

text \<open>The round-robin scan: the first idle open slot, \<open>attempt\<close> counting from \<open>start\<close>.\<close>

fun scan_idle :: "pool_conn_t list \<Rightarrow> nat \<Rightarrow> nat list \<Rightarrow> nat option" where
  "scan_idle conns start [] = None"
| "scan_idle conns start (attempt # as) =
     (let i = (start + attempt) mod SOCKET_POOL_TARGET in
      if c_fd (conns ! i) \<noteq> SOCKET_ERR \<and> \<not> c_in_use (conns ! i) then Some i
      else scan_idle conns start as)"

text \<open>The first closed slot that has a scratch buffer.\<close>

fun scan_closed :: "pool_conn_t list \<Rightarrow> nat list \<Rightarrow> nat option" where
  "scan_closed conns [] = None"
| "scan_closed conns (i # is) =
     (if c_fd (conns ! i) = SOCKET_ERR \<and> c_send_scratch (conns ! i) \<noteq> None then Some i
      else scan_closed conns is)"

definition pool_acquire ::
  "int option \<times> connect_outcome \<Rightarrow> int \<Rightarrow> socket_pool_t \<Rightarrow> nat option \<times> socket_pool_t" where
  "pool_acquire net now p =
     (case scan_idle (p_conns p) (p_next_index p) [0..<SOCKET_POOL_TARGET] of
        Some i \<Rightarrow> (Some i, p\<lparr>p_conns := (p_conns p)[i := (p_conns p ! i)\<lparr>c_in_use := True\<rparr>],
                            p_next_index := (i + 1) mod SOCKET_POOL_TARGET\<rparr>)
      | None \<Rightarrow>
          if p_count p < int SOCKET_POOL_TARGET then
            (case scan_closed (p_conns p) [0..<SOCKET_POOL_TARGET] of
               None \<Rightarrow> (None, p)
             | Some i \<Rightarrow>
                 let fd = pool_connect (fst net) (snd net) in
                 if fd \<noteq> SOCKET_ERR then
                   (Some i, p\<lparr>p_conns := (p_conns p)[i := (p_conns p ! i)\<lparr>c_fd := fd, c_in_use := True,
                                                       c_last_active := now\<rparr>],
                              p_count := p_count p + 1,
                              p_next_index := (i + 1) mod SOCKET_POOL_TARGET\<rparr>)
                 else (None, p))
          else (None, p))"

definition pool_release :: "nat \<Rightarrow> socket_pool_t \<Rightarrow> socket_pool_t" where
  "pool_release i p = p\<lparr>p_conns := (p_conns p)[i := (p_conns p ! i)\<lparr>c_in_use := False\<rparr>]\<rparr>"

definition pool_touch :: "int \<Rightarrow> pool_conn_t \<Rightarrow> pool_conn_t" where
  "pool_touch now c = c\<lparr>c_last_active := now\<rparr>"

definition stale :: "int \<Rightarrow> pool_conn_t \<Rightarrow> bool" where
  "stale now c \<longleftrightarrow> c_fd c \<noteq> SOCKET_ERR \<and> \<not> c_in_use c \<and> now - c_last_active c > STALE_SOCKET_TIMEOUT_SEC"

fun reap_loop :: "int \<Rightarrow> nat list \<Rightarrow> int \<Rightarrow> socket_pool_t \<Rightarrow> int \<times> socket_pool_t" where
  "reap_loop now [] closed p = (closed, p)"
| "reap_loop now (i # is) closed p =
     (if stale now (p_conns p ! i) then
        reap_loop now is (closed + 1)
          (p\<lparr>p_conns := (p_conns p)[i := (p_conns p ! i)\<lparr>c_fd := SOCKET_ERR\<rparr>], p_count := p_count p - 1\<rparr>)
      else reap_loop now is closed p)"

definition pool_reap_stale :: "int \<Rightarrow> socket_pool_t \<Rightarrow> int \<times> socket_pool_t" where
  "pool_reap_stale now p = reap_loop now [0..<SOCKET_POOL_TARGET] 0 p"

definition pool_count :: "socket_pool_t \<Rightarrow> int" where
  "pool_count p = p_count p"

section \<open>Receiving an acknowledgement\<close>

function recv_ack_loop :: "recv_outcome list \<Rightarrow> bytes \<Rightarrow> int \<times> bytes \<times> recv_outcome list" where
  "recv_ack_loop rx buf =
     (if length buf < SERVER_RESPONSE_SIZE then
        (case rx of
           [] \<Rightarrow> (0, buf, [])
         | RecvBlocks # rx' \<Rightarrow> (0, buf, rx')
         | RecvError # rx' \<Rightarrow> (-1, buf, rx')
         | Avail bs # rx' \<Rightarrow>
             (let n = min (SERVER_RESPONSE_SIZE - length buf) (length bs) in
              if n = 0 then (-1, buf, rx')
              else recv_ack_loop (if n < length bs then Avail (drop n bs) # rx' else rx') (buf @ take n bs)))
      else (1, buf, rx))"
  by pat_completeness auto
termination
  by (relation "measure (\<lambda>(rx, buf). SERVER_RESPONSE_SIZE - length buf)")
    (auto simp: min_def simp flip: length_greater_0_conv)

declare recv_ack_loop.simps [simp del]

definition pool_recv_ack :: "recv_outcome list \<Rightarrow> int \<times> server_response_t option \<times> recv_outcome list" where
  "pool_recv_ack rx =
     (case recv_ack_loop rx [] of (rc, buf, rx') \<Rightarrow>
        (rc, if rc = 1 then Some (response_of_bytes buf) else None, rx'))"

section \<open>Invariant\<close>

text \<open>Seven slots, a valid round-robin index, no closed slot in use, and a count that is the
  number of open slots.\<close>

definition open_slots :: "pool_conn_t list \<Rightarrow> nat" where
  "open_slots cs = length (filter (\<lambda>c. c_fd c \<noteq> SOCKET_ERR) cs)"

definition pool_ok :: "socket_pool_t \<Rightarrow> bool" where
  "pool_ok p \<longleftrightarrow> length (p_conns p) = SOCKET_POOL_TARGET \<and> p_next_index p < SOCKET_POOL_TARGET \<and>
     (\<forall>c \<in> set (p_conns p). c_in_use c \<longrightarrow> c_fd c \<noteq> SOCKET_ERR) \<and>
     p_count p = int (open_slots (p_conns p))"

text \<open>The pool's life after it is built: threads acquire and release slots, record activity and
  bytes sent on a slot they hold, and the timer reaps stale connections.\<close>

inductive pool_step :: "socket_pool_t \<Rightarrow> socket_pool_t \<Rightarrow> bool" where
  acquire: "pool_step p (snd (pool_acquire net now p))"
| release: "i < SOCKET_POOL_TARGET \<Longrightarrow> pool_step p (pool_release i p)"
| activity: "i < SOCKET_POOL_TARGET \<Longrightarrow>
    pool_step p (p\<lparr>p_conns := (p_conns p)[i := (pool_touch now (p_conns p ! i))\<lparr>c_blocks_sent := b, c_bytes_sent := n\<rparr>]\<rparr>)"
| reap: "pool_step p (snd (pool_reap_stale now p))"

inductive_cases pool_stepE: "pool_step p p'"

lemma open_slots_update:
  assumes "i < length cs"
  shows "int (open_slots (cs[i := c])) = int (open_slots cs)
    + (if c_fd c \<noteq> SOCKET_ERR then 1 else 0) - (if c_fd (cs ! i) \<noteq> SOCKET_ERR then 1 else 0)"
  using assms
proof (induction cs arbitrary: i)
  case (Cons a cs)
  show ?case
  proof (cases i)
    case (Suc j)
    with Cons.prems Cons.IH [of j] show ?thesis by (auto simp: open_slots_def split: if_splits)
  qed (simp add: open_slots_def)
qed simp

lemma pool_ok_update:
  assumes "pool_ok p" "i < SOCKET_POOL_TARGET" "c_in_use c \<longrightarrow> c_fd c \<noteq> SOCKET_ERR"
  shows "pool_ok (p\<lparr>p_conns := (p_conns p)[i := c],
    p_count := p_count p + (if c_fd c \<noteq> SOCKET_ERR then 1 else 0) - (if c_fd (p_conns p ! i) \<noteq> SOCKET_ERR then 1 else 0)\<rparr>)"
  using assms by (auto simp: pool_ok_def open_slots_update dest!: set_update_subset_insert [THEN subsetD])

lemma pool_ok_same_fd:
  assumes "pool_ok p" "i < SOCKET_POOL_TARGET" "c_fd c = c_fd (p_conns p ! i)"
    and "c_in_use c \<longrightarrow> c_fd c \<noteq> SOCKET_ERR"
  shows "pool_ok (p\<lparr>p_conns := (p_conns p)[i := c]\<rparr>)"
  using pool_ok_update [OF assms(1,2,4)] assms(3) by (simp add: pool_ok_def)

lemma pool_ok_next: "\<lbrakk>pool_ok p; n < SOCKET_POOL_TARGET\<rbrakk> \<Longrightarrow> pool_ok (p\<lparr>p_next_index := n\<rparr>)"
  by (simp add: pool_ok_def)

lemma slot_busy_open:
  "\<lbrakk>pool_ok p; i < SOCKET_POOL_TARGET; c_in_use (p_conns p ! i)\<rbrakk> \<Longrightarrow> c_fd (p_conns p ! i) \<noteq> SOCKET_ERR"
  by (simp add: pool_ok_def)

lemma scan_idle_find:
  "scan_idle cs start as = find (\<lambda>i. c_fd (cs ! i) \<noteq> SOCKET_ERR \<and> \<not> c_in_use (cs ! i))
     (map (\<lambda>a. (start + a) mod SOCKET_POOL_TARGET) as)"
  by (induction as) (simp_all add: Let_def)

lemma scan_closed_find:
  "scan_closed cs is = find (\<lambda>i. c_fd (cs ! i) = SOCKET_ERR \<and> c_send_scratch (cs ! i) \<noteq> None) is"
  by (induction "is") auto

lemma ring_covers: "0 < n \<Longrightarrow> set (map (\<lambda>a. (s + a) mod n) [0..<n]) = {..<n :: nat}"
proof -
  assume n: "0 < n"
  have "i \<in> (\<lambda>a. (s + a) mod n) ` {..<n}" if "i < n" for i
  proof (rule image_eqI)
    show "(n - s mod n + i) mod n \<in> {..<n}" using n by simp
    have "(s + (n - s mod n + i) mod n) mod n = (s mod n + (n - s mod n + i)) mod n"
      by (simp add: mod_simps)
    also have "s mod n + (n - s mod n + i) = n + i"
      using mod_less_divisor [OF n, of s] by linarith
    also have "(n + i) mod n = i" using that by simp
    finally show "i = (s + (n - s mod n + i) mod n) mod n" by simp
  qed
  then show ?thesis using n by (auto simp: atLeast0LessThan)
qed

lemma pool_target_pos: "0 < SOCKET_POOL_TARGET"
  by (simp add: proto_consts)

text \<open>What \<open>pool_acquire\<close> does, by the two scans.\<close>

lemma scan_idle_None:
  "scan_idle cs start [0..<SOCKET_POOL_TARGET] = None \<longleftrightarrow>
    (\<forall>i < SOCKET_POOL_TARGET. c_fd (cs ! i) \<noteq> SOCKET_ERR \<longrightarrow> c_in_use (cs ! i))"
  using ring_covers [OF pool_target_pos, of start] unfolding scan_idle_find find_None_iff by auto

lemma scan_idle_Some:
  assumes "scan_idle cs start [0..<SOCKET_POOL_TARGET] = Some i"
  shows "i < SOCKET_POOL_TARGET" "c_fd (cs ! i) \<noteq> SOCKET_ERR" "\<not> c_in_use (cs ! i)"
  using assms pool_target_pos unfolding scan_idle_find find_Some_iff by auto

lemma scan_closed_Some:
  assumes "scan_closed cs [0..<SOCKET_POOL_TARGET] = Some i"
  shows "i < SOCKET_POOL_TARGET" "c_fd (cs ! i) = SOCKET_ERR" "c_send_scratch (cs ! i) \<noteq> None"
  using assms unfolding scan_closed_find find_Some_iff by auto

lemma acquire_ok:
  assumes "pool_ok p"
  shows "pool_ok (snd (pool_acquire net now p))"
proof (cases "scan_idle (p_conns p) (p_next_index p) [0..<SOCKET_POOL_TARGET]")
  case (Some i)
  note s = scan_idle_Some [OF Some]
  have "pool_ok (p\<lparr>p_conns := (p_conns p)[i := (p_conns p ! i)\<lparr>c_in_use := True\<rparr>]\<rparr>)"
    using assms s by (intro pool_ok_same_fd) simp_all
  from pool_ok_next [OF this, of "(i + 1) mod SOCKET_POOL_TARGET"] Some pool_target_pos show ?thesis
    by (simp add: pool_acquire_def)
next
  case None
  show ?thesis
  proof (cases "scan_closed (p_conns p) [0..<SOCKET_POOL_TARGET]")
    case (Some i)
    note s = scan_closed_Some [OF Some]
    define fd where "fd = pool_connect (fst net) (snd net)"
    have "fd \<noteq> SOCKET_ERR \<Longrightarrow> pool_ok (p\<lparr>p_conns := (p_conns p)[i := (p_conns p ! i)\<lparr>c_fd := fd, c_in_use := True,
        c_last_active := now\<rparr>], p_count := p_count p + 1\<rparr>)"
      using pool_ok_update [OF assms s(1), of "(p_conns p ! i)\<lparr>c_fd := fd, c_in_use := True, c_last_active := now\<rparr>"] s(2)
      by simp
    from pool_ok_next [OF this, of "(i + 1) mod SOCKET_POOL_TARGET"] None Some pool_target_pos assms show ?thesis
      by (auto simp: pool_acquire_def fd_def Let_def)
  qed (use None assms in \<open>simp add: pool_acquire_def\<close>)
qed

lemma acquire_slot:
  assumes "pool_ok p" "pool_acquire net now p = (Some i, p')"
  shows "i < SOCKET_POOL_TARGET \<and> length (p_conns p') = SOCKET_POOL_TARGET \<and> c_fd (p_conns p' ! i) \<noteq> SOCKET_ERR"
proof -
  have len: "length (p_conns p) = SOCKET_POOL_TARGET" using assms(1) by (simp add: pool_ok_def)
  show ?thesis
  proof (cases "scan_idle (p_conns p) (p_next_index p) [0..<SOCKET_POOL_TARGET]")
    case (Some k)
    then show ?thesis using assms(2) len scan_idle_Some [OF Some] by (auto simp: pool_acquire_def)
  next
    case None
    then obtain k where k: "scan_closed (p_conns p) [0..<SOCKET_POOL_TARGET] = Some k"
      using assms(2) by (auto simp: pool_acquire_def split: if_splits option.splits)
    then show ?thesis
      using assms(2) None len scan_closed_Some [OF k] by (auto simp: pool_acquire_def Let_def split: if_splits)
  qed
qed

lemma reap_loop_ok:
  "\<lbrakk>pool_ok p; set is \<subseteq> {..<SOCKET_POOL_TARGET}\<rbrakk> \<Longrightarrow> pool_ok (snd (reap_loop now is closed p))"
proof (induction "is" arbitrary: closed p)
  case (Cons i "is")
  have "pool_ok (p\<lparr>p_conns := (p_conns p)[i := (p_conns p ! i)\<lparr>c_fd := SOCKET_ERR\<rparr>], p_count := p_count p - 1\<rparr>)"
    if "stale now (p_conns p ! i)"
    using pool_ok_update [OF Cons.prems(1), of i "(p_conns p ! i)\<lparr>c_fd := SOCKET_ERR\<rparr>"] Cons.prems(2) that
    by (simp add: stale_def)
  with Cons show ?case by simp
qed simp

text \<open>Reaping closes every stale slot and touches no other.\<close>

lemma reap_loop_result:
  assumes "distinct is" "set is \<subseteq> {..<length (p_conns p)}" "reap_loop now is closed p = (closed', p')"
  shows "length (p_conns p') = length (p_conns p) \<and>
    (\<forall>i < length (p_conns p). p_conns p' ! i =
      (if i \<in> set is \<and> stale now (p_conns p ! i) then (p_conns p ! i)\<lparr>c_fd := SOCKET_ERR\<rparr> else p_conns p ! i)) \<and>
    closed' - closed = int (length (filter (\<lambda>i. stale now (p_conns p ! i)) is)) \<and>
    p_count p' = p_count p - (closed' - closed)"
  using assms
proof (induction "is" arbitrary: closed p)
  case (Cons i "is")
  show ?case
  proof (cases "stale now (p_conns p ! i)")
    case True
    define p1 where "p1 = p\<lparr>p_conns := (p_conns p)[i := (p_conns p ! i)\<lparr>c_fd := SOCKET_ERR\<rparr>], p_count := p_count p - 1\<rparr>"
    have "reap_loop now is (closed + 1) p1 = (closed', p')" using Cons.prems(3) True by (simp add: p1_def)
    from Cons.IH [OF _ _ this] Cons.prems(1,2)
    have ih: "length (p_conns p') = length (p_conns p1)"
      "\<And>k. k < length (p_conns p1) \<Longrightarrow> p_conns p' ! k =
         (if k \<in> set is \<and> stale now (p_conns p1 ! k) then (p_conns p1 ! k)\<lparr>c_fd := SOCKET_ERR\<rparr> else p_conns p1 ! k)"
      "closed' - (closed + 1) = int (length (filter (\<lambda>i. stale now (p_conns p1 ! i)) is))"
      "p_count p' = p_count p1 - (closed' - (closed + 1))"
      by (auto simp: p1_def)
    have same: "k \<in> set is \<Longrightarrow> p_conns p1 ! k = p_conns p ! k" for k
      using Cons.prems(1) by (cases "k = i") (auto simp: p1_def)
    have "filter (\<lambda>i. stale now (p_conns p1 ! i)) is = filter (\<lambda>i. stale now (p_conns p ! i)) is"
      by (rule filter_cong) (simp_all add: same)
    with ih same True Cons.prems(1,2) show ?thesis
      by (auto simp: p1_def nth_list_update)
  next
    case False
    with Cons show ?thesis by auto
  qed
qed simp

section \<open>Acknowledgements read from a connection\<close>

lemma recv_ack_loop_done [simp]:
  "length buf = SERVER_RESPONSE_SIZE \<Longrightarrow> recv_ack_loop rx buf = (1, buf, rx)"
  by (simp add: recv_ack_loop.simps [of rx])

lemma recv_ack_loop_step:
  assumes "length buf < SERVER_RESPONSE_SIZE"
  shows "recv_ack_loop [] buf = (0, buf, [])"
    and "recv_ack_loop (RecvBlocks # rx) buf = (0, buf, rx)"
    and "recv_ack_loop (RecvError # rx) buf = (-1, buf, rx)"
    and "recv_ack_loop (Avail [] # rx) buf = (-1, buf, rx)"
    and "\<lbrakk>bs \<noteq> []; length buf + length bs \<le> SERVER_RESPONSE_SIZE\<rbrakk> \<Longrightarrow>
      recv_ack_loop (Avail bs # rx) buf = recv_ack_loop rx (buf @ bs)"
    and "SERVER_RESPONSE_SIZE < length buf + length bs \<Longrightarrow>
      recv_ack_loop (Avail bs # rx) buf =
        (1, buf @ take (SERVER_RESPONSE_SIZE - length buf) bs, Avail (drop (SERVER_RESPONSE_SIZE - length buf) bs) # rx)"
  using assms
  by (simp_all add: recv_ack_loop.simps [of "[]"] recv_ack_loop.simps [of "RecvBlocks # rx"]
      recv_ack_loop.simps [of "RecvError # rx"] recv_ack_loop.simps [of "Avail [] # rx"]
      recv_ack_loop.simps [of "Avail bs # rx"] Let_def min_def)

text \<open>Available bytes without a gap: what a burst of pieces delivers.\<close>

lemma recv_ack_loop_burst:
  assumes "\<forall>b \<in> set pieces. b \<noteq> []" "length buf + length (concat pieces) = SERVER_RESPONSE_SIZE"
  shows "recv_ack_loop (map Avail pieces @ rx) buf = (1, buf @ concat pieces, rx)"
  using assms
proof (induction pieces arbitrary: buf)
  case (Cons b pieces)
  then have "length buf < SERVER_RESPONSE_SIZE" "length buf + length b \<le> SERVER_RESPONSE_SIZE"
    by (auto simp flip: length_greater_0_conv)
  with Cons show ?case by (simp add: recv_ack_loop_step)
qed simp

section \<open>Properties\<close>

lemma pool_step_ok: "pool_step p p' \<Longrightarrow> pool_ok p \<Longrightarrow> pool_ok p'"
proof (induction rule: pool_step.induct)
  case (acquire p net now)
  then show ?case by (rule acquire_ok)
next
  case (release i p)
  then show ?case by (simp add: pool_release_def pool_ok_same_fd)
next
  case (activity i p now b n)
  then show ?case by (intro pool_ok_same_fd) (auto simp: pool_touch_def slot_busy_open)
next
  case (reap p now)
  then show ?case by (simp add: pool_reap_stale_def reap_loop_ok atLeast0LessThan lessThan_def subset_iff)
qed

lemma pool_init_loop_all:
  assumes "\<And>i. i < n \<Longrightarrow> alloc i \<and> pool_connect (fst (net i)) (snd (net i)) \<noteq> SOCKET_ERR"
    and "length (p_conns p) = SOCKET_POOL_TARGET" "n \<le> SOCKET_POOL_TARGET"
  shows "pool_init_loop alloc net now ip port ([0..<n] @ rest) p =
    pool_init_loop alloc net now ip port rest
      (p\<lparr>p_conns := map (\<lambda>i. (prepare_conn True ip port)\<lparr>c_fd := pool_connect (fst (net i)) (snd (net i)),
            c_last_active := now, c_created_at := now\<rparr>) [0..<n] @ drop n (p_conns p),
         p_count := p_count p + int n\<rparr>)"
  using assms
proof (induction n arbitrary: rest)
  case 0
  then show ?case by simp
next
  case (Suc n)
  let ?c = "\<lambda>i. (prepare_conn True ip port)\<lparr>c_fd := pool_connect (fst (net i)) (snd (net i)),
            c_last_active := now, c_created_at := now\<rparr>"
  have d: "drop n (p_conns p) = (p_conns p ! n) # drop (Suc n) (p_conns p)"
    using Suc.prems(2,3) by (simp add: Cons_nth_drop_Suc)
  have scratch: "c_send_scratch (prepare_conn True ip port) = Some (replicate SEND_SCRATCH_SIZE 0)"
    by (simp add: prepare_conn_def Let_def)
  have "pool_init_loop alloc net now ip port ([0..<Suc n] @ rest) p =
      pool_init_loop alloc net now ip port (n # rest)
        (p\<lparr>p_conns := map ?c [0..<n] @ drop n (p_conns p), p_count := p_count p + int n\<rparr>)"
    using Suc.IH [of "n # rest"] Suc.prems by simp
  also have "\<dots> = pool_init_loop alloc net now ip port rest
        (p\<lparr>p_conns := map ?c [0..<Suc n] @ drop (Suc n) (p_conns p), p_count := p_count p + int (Suc n)\<rparr>)"
    using Suc.prems(1) [of n] scratch by (simp add: d Let_def list_update_append ac_simps)
  finally show ?case .
qed

lemma pool_init_all_ok:
  assumes "\<And>i. i < SOCKET_POOL_TARGET \<Longrightarrow> alloc i \<and> pool_connect (fst (net i)) (snd (net i)) \<noteq> SOCKET_ERR"
  shows "fst (pool_init True alloc net now ip port) = 0 \<and> pool_ok (snd (pool_init True alloc net now ip port))"
proof -
  note loop = pool_init_loop_all [of SOCKET_POOL_TARGET alloc net _ now ip port "[]", OF assms(1)]
  have "pool_init True alloc net now ip port = (0, \<lparr>p_conns = map (\<lambda>i. (prepare_conn True ip port)\<lparr>c_fd := pool_connect (fst (net i)) (snd (net i)),
            c_last_active := now, c_created_at := now\<rparr>) [0..<SOCKET_POOL_TARGET],
      p_count = int SOCKET_POOL_TARGET, p_next_index = 0, p_mutex = True\<rparr>)"
    using loop by (simp add: pool_init_def)
  moreover have "filter (\<lambda>i. pool_connect (fst (net i)) (snd (net i)) \<noteq> SOCKET_ERR) [0..<SOCKET_POOL_TARGET] = [0..<SOCKET_POOL_TARGET]"
    using assms(1) by (intro filter_True) simp
  ultimately show ?thesis
    using pool_target_pos assms(1)
    by (auto simp: pool_ok_def open_slots_def filter_map comp_def)
qed


text \<open>A pool whose seven connections all succeeded, for the witnesses.\<close>

definition sample_pool :: socket_pool_t where
  "sample_pool = snd (pool_init True (\<lambda>_. True) (\<lambda>i. (Some (int i + 3), Connected)) 0 ''10.0.0.2'' 3389)"

lemma sample_pool_ok: "pool_ok sample_pool"
  unfolding sample_pool_def by (rule pool_init_all_ok [THEN conjunct2]) (simp add: pool_connect_def SOCKET_ERR_def)


text \<open>
  C25: a connection is handed to one user at a time.  An acquired slot was not in use, is open
  afterwards, is marked in use and differs from the old pool in no other slot; an idle open slot
  is taken without connecting, a new connection is made only when every open slot is busy.
  Acquiring fails, with the pool unchanged, only when every open slot is in use.
\<close>
theorem pool_acquire_exclusive:
  assumes "pool_ok p"
  shows "case pool_acquire net now p of
      (None, p') \<Rightarrow> p' = p \<and> (\<forall>i < SOCKET_POOL_TARGET. c_fd (p_conns p ! i) \<noteq> SOCKET_ERR \<longrightarrow> c_in_use (p_conns p ! i))
    | (Some i, p') \<Rightarrow> i < SOCKET_POOL_TARGET \<and> \<not> c_in_use (p_conns p ! i) \<and> c_in_use (p_conns p' ! i) \<and>
        c_fd (p_conns p' ! i) \<noteq> SOCKET_ERR \<and> (\<forall>j. j \<noteq> i \<longrightarrow> p_conns p' ! j = p_conns p ! j) \<and>
        (if c_fd (p_conns p ! i) \<noteq> SOCKET_ERR then p_count p' = p_count p
         else p_count p' = p_count p + 1 \<and>
           (\<forall>j < SOCKET_POOL_TARGET. c_fd (p_conns p ! j) \<noteq> SOCKET_ERR \<longrightarrow> c_in_use (p_conns p ! j)))"
proof (cases "scan_idle (p_conns p) (p_next_index p) [0..<SOCKET_POOL_TARGET]")
  case (Some i)
  have "length (p_conns p) = SOCKET_POOL_TARGET" using assms by (simp add: pool_ok_def)
  with Some scan_idle_Some [OF Some] show ?thesis by (simp add: pool_acquire_def)
next
  case None
  have len: "length (p_conns p) = SOCKET_POOL_TARGET" using assms by (simp add: pool_ok_def)
  note busy = None [unfolded scan_idle_None]
  show ?thesis
  proof (cases "scan_closed (p_conns p) [0..<SOCKET_POOL_TARGET]")
    case None': None
    with None busy show ?thesis by (simp add: pool_acquire_def)
  next
    case (Some i)
    note s = scan_closed_Some [OF Some]
    with slot_busy_open [OF assms s(1)] None Some busy len show ?thesis
      by (auto simp: pool_acquire_def Let_def)
  qed
qed

theorem pool_acquire_exclusive_witness:
  "case pool_acquire (None, Refused) 5 sample_pool of
     (None, p') \<Rightarrow> p' = sample_pool
   | (Some i, p') \<Rightarrow> i < SOCKET_POOL_TARGET \<and> \<not> c_in_use (p_conns sample_pool ! i) \<and> c_in_use (p_conns p' ! i)"
  using pool_acquire_exclusive [OF sample_pool_ok, of "(None, Refused)" 5] by (auto split: prod.splits option.splits)

text \<open>
  Reaping closes exactly the idle connections without activity for more than 720 seconds:
  every other slot, in particular every slot in use, is unchanged, the number returned is the
  number closed, and the pool's count drops by it.
\<close>
theorem pool_reap_exact:
  assumes "pool_ok p"
  shows "case pool_reap_stale now p of (closed, p') \<Rightarrow>
    p_conns p' = map (\<lambda>c. if stale now c then c\<lparr>c_fd := SOCKET_ERR\<rparr> else c) (p_conns p) \<and>
    closed = int (length (filter (stale now) (p_conns p))) \<and> p_count p' = p_count p - closed \<and>
    pool_ok p'"
proof -
  obtain closed p' where r: "reap_loop now [0..<SOCKET_POOL_TARGET] 0 p = (closed, p')"
    by (cases "reap_loop now [0..<SOCKET_POOL_TARGET] 0 p")
  have len: "length (p_conns p) = SOCKET_POOL_TARGET" using assms by (simp add: pool_ok_def)
  have sub: "set [0..<SOCKET_POOL_TARGET] \<subseteq> {..<length (p_conns p)}" by (auto simp: len)
  note res = reap_loop_result [OF distinct_upt sub r]
  have "filter (stale now) (p_conns p) = map (\<lambda>i. p_conns p ! i) (filter (\<lambda>i. stale now (p_conns p ! i)) [0..<SOCKET_POOL_TARGET])"
    by (subst map_nth [of "p_conns p", symmetric]) (simp add: filter_map comp_def len)
  then have "closed = int (length (filter (stale now) (p_conns p)))" using res by simp
  moreover have "p_conns p' = map (\<lambda>c. if stale now c then c\<lparr>c_fd := SOCKET_ERR\<rparr> else c) (p_conns p)"
    using res len by (auto intro: nth_equalityI)
  moreover have "pool_ok p'" using reap_loop_ok [OF assms, of "[0..<SOCKET_POOL_TARGET]" now 0] r
    by (simp add: lessThan_atLeast0)
  ultimately show ?thesis using res r by (simp add: pool_reap_stale_def)
qed

theorem pool_reap_exact_witness:
  "case pool_reap_stale 1000 sample_pool of (closed, p') \<Rightarrow> p_count p' = p_count sample_pool - closed"
  using pool_reap_exact [OF sample_pool_ok, of 1000] by (auto split: prod.splits)

text \<open>
  The fate of an acknowledgement depends on how it arrives.  When its 20 bytes arrive
  without a pause, in any number of pieces, it is read whole and the next call starts at the
  following byte.  When the socket runs dry after the first \<open>k\<close> of its bytes, the call returns 0
  and these bytes are lost: the next call takes the remaining bytes and the first \<open>k\<close> bytes of
  the following acknowledgement as one response.
\<close>
theorem recv_ack_arrival:
  assumes "\<forall>b \<in> set pieces. b \<noteq> []" "concat pieces = response_bytes r" "0 < k" "k < SERVER_RESPONSE_SIZE"
  shows "pool_recv_ack (map Avail pieces @ rx) = (1, Some r, rx) \<and>
    pool_recv_ack (Avail (take k (response_bytes r)) # RecvBlocks # Avail (drop k (response_bytes r) @ response_bytes r') # rx)
      = (0, None, Avail (drop k (response_bytes r) @ response_bytes r') # rx) \<and>
    pool_recv_ack (Avail (drop k (response_bytes r) @ response_bytes r') # rx)
      = (1, Some (response_of_bytes (drop k (response_bytes r) @ take k (response_bytes r'))),
         Avail (drop k (response_bytes r')) # rx)"
proof (intro conjI)
  have len: "length (response_bytes x) = SERVER_RESPONSE_SIZE" for x by (rule resp.enc_width)
  show "pool_recv_ack (map Avail pieces @ rx) = (1, Some r, rx)"
    using recv_ack_loop_burst [of pieces "[]" rx] assms(1,2) len [of r] resp.dec_enc [of r "[]"]
    by (simp add: pool_recv_ack_def)
  have "take k (response_bytes r) \<noteq> []" using assms(3) len [of r] resp.width_pos by auto
  then show "pool_recv_ack (Avail (take k (response_bytes r)) # RecvBlocks # Avail (drop k (response_bytes r) @ response_bytes r') # rx)
      = (0, None, Avail (drop k (response_bytes r) @ response_bytes r') # rx)"
    using assms(3,4) len [of r] by (simp add: pool_recv_ack_def recv_ack_loop_step)
  show "pool_recv_ack (Avail (drop k (response_bytes r) @ response_bytes r') # rx)
      = (1, Some (response_of_bytes (drop k (response_bytes r) @ take k (response_bytes r'))),
         Avail (drop k (response_bytes r')) # rx)"
    using assms(3,4) len by (simp add: pool_recv_ack_def recv_ack_loop_step)
qed

theorem recv_ack_arrival_witness:
  "pool_recv_ack [Avail (response_bytes \<lparr>r_type = 0, r_devno = 1, r_size = 2, r_offset = 3\<rparr>)]
    = (1, Some \<lparr>r_type = 0, r_devno = 1, r_size = 2, r_offset = 3\<rparr>, [])"
proof -
  define r where "r = \<lparr>r_type = 0, r_devno = 1, r_size = 2, r_offset = 3\<rparr>"
  have "response_bytes r \<noteq> []" by (simp add: response_bytes_def le32_def)
  then show ?thesis
    unfolding r_def [symmetric]
    using recv_ack_arrival [of "[response_bytes r]" r 4 "[]" r, THEN conjunct1] by (simp add: proto_consts)
qed

text \<open>
  When the pool is built and the connection of slot \<open>k\<close> (with \<open>0 < k < 6\<close>) fails after the
  earlier ones succeeded, building still reports success, but the slots behind \<open>k\<close> keep
  descriptor 0, which is not \<open>SOCKET_ERR\<close>, and have no scratch buffer.  They count as open: once
  the \<open>k\<close> real connections are busy, \<open>pool_acquire\<close> hands out slot \<open>k + 1\<close> with descriptor 0.
\<close>
theorem pool_init_partial:
  assumes "0 < k" "k < 6" "\<And>i. i < SOCKET_POOL_TARGET \<Longrightarrow> alloc i"
    and "\<And>i. i < k \<Longrightarrow> pool_connect (fst (net i)) (snd (net i)) \<noteq> SOCKET_ERR"
    and "pool_connect (fst (net k)) (snd (net k)) = SOCKET_ERR"
  shows "\<exists>p. pool_init True alloc net now ip port = (0, p) \<and> p_count p = int k \<and>
    (\<forall>j. k < j \<and> j < SOCKET_POOL_TARGET \<longrightarrow> p_conns p ! j = zero_conn) \<and>
    (let busy = p\<lparr>p_conns := map (\<lambda>i. (p_conns p ! i)\<lparr>c_in_use := i < k\<rparr>) [0..<SOCKET_POOL_TARGET]\<rparr> in
     fst (pool_acquire net' now busy) = Some (k + 1) \<and> c_fd (p_conns busy ! (k + 1)) = 0 \<and>
     c_send_scratch (p_conns busy ! (k + 1)) = None)"
proof -
  define opened where "opened = map (\<lambda>i. (prepare_conn True ip port)\<lparr>c_fd := pool_connect (fst (net i)) (snd (net i)),
            c_last_active := now, c_created_at := now\<rparr>) [0..<k]"
  define cs where "cs = opened @ prepare_conn True ip port # drop (Suc k) (replicate SOCKET_POOL_TARGET zero_conn)"
  define p where "p = \<lparr>p_conns = cs, p_count = int k, p_next_index = 0, p_mutex = True\<rparr>"
  have t: "SOCKET_POOL_TARGET = 7" by (simp add: proto_consts)
  have len: "length opened = k" "length cs = SOCKET_POOL_TARGET" using assms(2) by (simp_all add: opened_def cs_def t)
  have upt: "[0..<SOCKET_POOL_TARGET] = [0..<k] @ k # [Suc k..<SOCKET_POOL_TARGET]"
    using upt_add_eq_append [of 0 k "SOCKET_POOL_TARGET - k"] assms(2) upt_conv_Cons [of k SOCKET_POOL_TARGET]
    by (simp add: t)
  have kl: "k < SOCKET_POOL_TARGET" using assms(2) by (simp add: t)
  have d: "replicate (SOCKET_POOL_TARGET - k) zero_conn = zero_conn # replicate (SOCKET_POOL_TARGET - Suc k) zero_conn"
    using kl by (simp add: Suc_diff_Suc flip: replicate_Suc)
  have prep: "c_send_scratch (prepare_conn True ip port) = Some (replicate SEND_SCRATCH_SIZE 0)"
    by (simp add: prepare_conn_def Let_def)
  have "pool_init True alloc net now ip port = (0, p)"
    using pool_init_loop_all [of k alloc net "\<lparr>p_conns = replicate SOCKET_POOL_TARGET zero_conn, p_count = 0,
        p_next_index = 0, p_mutex = True\<rparr>" now ip port "k # [Suc k..<SOCKET_POOL_TARGET]"]
      assms kl prep len(1)
    by (simp add: pool_init_def upt opened_def [symmetric] d list_update_append Let_def p_def cs_def)
  moreover have zero: "cs ! j = zero_conn" if "k < j" "j < SOCKET_POOL_TARGET" for j
    using that len by (simp add: cs_def nth_append nth_Cons')
  moreover have closed: "c_fd (cs ! k) = SOCKET_ERR"
    using len by (simp add: cs_def nth_append prepare_conn_def Let_def)
  moreover have "fst (pool_acquire net' now (p\<lparr>p_conns := map (\<lambda>i. (cs ! i)\<lparr>c_in_use := i < k\<rparr>) [0..<SOCKET_POOL_TARGET]\<rparr>)) = Some (k + 1)"
  proof -
    have "map (\<lambda>a. (0 + a) mod SOCKET_POOL_TARGET) [0..<SOCKET_POOL_TARGET] = [0..<SOCKET_POOL_TARGET]"
      by (rule map_idI) simp
    moreover have "k + 1 < SOCKET_POOL_TARGET" using assms(2) by (simp add: t)
    ultimately have "scan_idle (map (\<lambda>i. (cs ! i)\<lparr>c_in_use := i < k\<rparr>) [0..<SOCKET_POOL_TARGET]) 0 [0..<SOCKET_POOL_TARGET] = Some (k + 1)"
      unfolding scan_idle_find find_Some_iff using zero closed
      by (intro exI [of _ "k + 1"]) (auto simp: less_Suc_eq zero_conn_def SOCKET_ERR_def)
    then show ?thesis by (simp add: pool_acquire_def p_def)
  qed
  moreover have "k + 1 < SOCKET_POOL_TARGET" using assms(2) by (simp add: t)
  ultimately show ?thesis
    using zero [of "k + 1"] by (auto simp: p_def Let_def zero_conn_def)
qed

theorem pool_init_partial_witness:
  "\<exists>p. pool_init True (\<lambda>_. True) (\<lambda>i. if i < 2 then (Some (int i + 3), Connected) else (None, Refused)) 0 ''10.0.0.2'' 3389
      = (0, p) \<and> p_conns p ! 3 = zero_conn"
  using pool_init_partial [of 2 "\<lambda>_. True" "\<lambda>i. if i < 2 then (Some (int i + 3), Connected) else (None, Refused)" 0
      "''10.0.0.2''" 3389 "(None, Refused)"]
  by (auto simp: pool_connect_def SOCKET_ERR_def proto_consts)

end
