(* ===== verification/Send_Queue.thy ===== *)
theory Send_Queue
  imports Protocol
begin

text \<open>
  The client's send queue, \<^verbatim>\<open>client/queue.c\<close> and \<^verbatim>\<open>client/queue.h\<close>: a ring buffer of 256
  entries between the reader threads and the sender.

  Every operation takes the queue's mutex, so it is one atomic step of the model and an
  interleaving of threads is a sequence of operations.  An entry's heap payload is \<open>None\<close> for a
  NULL pointer; \<open>alloc\<close> is the outcome of \<open>malloc\<close>.  An entry stays in its slot after
  \<open>queue_pop\<close> with \<open>e_pending\<close> still set, until \<open>queue_ack\<close> clears it or the slot is reused.

  The locale \<open>fifo\<close> states what a bounded first-in-first-out queue promises; \<open>ring\<close> interprets it
  on the ring buffer, which gives the order of every sequence of pushes and pops.
\<close>

definition QUEUE_CAPACITY :: nat where "QUEUE_CAPACITY = 256"
definition QUEUE_ENTRY_MAX_PAYLOAD :: nat where "QUEUE_ENTRY_MAX_PAYLOAD = 0x100000 + 256"

record queue_entry_t =
  e_devno :: u32
  e_offset :: u64
  e_hash :: u64
  e_payload :: "bytes option"
  e_payload_len :: nat
  e_pending :: bool

record send_queue_t =
  q_entries :: "queue_entry_t list"
  q_head :: nat
  q_tail :: nat
  q_count :: nat
  q_backpressure :: bool
  q_mutex :: bool

definition zero_entry :: queue_entry_t where
  "zero_entry = \<lparr>e_devno = 0, e_offset = 0, e_hash = 0, e_payload = None, e_payload_len = 0,
     e_pending = False\<rparr>"

definition queue_init :: "bool \<Rightarrow> int \<times> send_queue_t" where
  "queue_init alloc = (if alloc then 0 else -1,
     \<lparr>q_entries = replicate QUEUE_CAPACITY zero_entry, q_head = 0, q_tail = 0, q_count = 0,
      q_backpressure = False, q_mutex = alloc\<rparr>)"

definition queue_destroy :: "send_queue_t \<Rightarrow> send_queue_t" where
  "queue_destroy q =
     (if q_mutex q then q\<lparr>q_entries := map (\<lambda>e. e\<lparr>e_payload := None\<rparr>) (q_entries q), q_mutex := False\<rparr>
      else q)"

definition queue_push ::
  "bool \<Rightarrow> send_queue_t \<Rightarrow> u32 \<Rightarrow> u64 \<Rightarrow> u64 \<Rightarrow> bytes \<Rightarrow> int \<times> send_queue_t" where
  "queue_push alloc q devno off hash payload =
     (if length payload > QUEUE_ENTRY_MAX_PAYLOAD then (-1, q)
      else if q_count q \<ge> QUEUE_CAPACITY then (-1, q)
      else if \<not> alloc then (-1, q)
      else
        let slot = q_head q;
            e = \<lparr>e_devno = devno, e_offset = off, e_hash = hash, e_payload = Some payload,
                 e_payload_len = length payload, e_pending = True\<rparr>;
            q = q\<lparr>q_entries := (q_entries q)[slot := e], q_head := (slot + 1) mod QUEUE_CAPACITY,
                  q_count := q_count q + 1\<rparr>;
            q = (if q_count q \<ge> BACKPRESSURE_QUEUE_DEPTH then q\<lparr>q_backpressure := True\<rparr> else q)
        in (if q_backpressure q then 2 else 0, q))"

definition queue_pop :: "send_queue_t \<Rightarrow> queue_entry_t \<Rightarrow> int \<times> queue_entry_t \<times> send_queue_t" where
  "queue_pop q out =
     (if q_count q = 0 then (-1, out, q)
      else
        let slot = q_tail q;
            out = q_entries q ! slot;
            q = q\<lparr>q_tail := (slot + 1) mod QUEUE_CAPACITY, q_count := q_count q - 1\<rparr>;
            q = (if q_count q < BACKPRESSURE_QUEUE_DEPTH then q\<lparr>q_backpressure := False\<rparr> else q)
        in (0, out, q))"

fun ack_entries :: "u32 \<Rightarrow> u64 \<Rightarrow> queue_entry_t list \<Rightarrow> queue_entry_t list" where
  "ack_entries devno off [] = []"
| "ack_entries devno off (e # es) =
     (if e_pending e \<and> e_devno e = devno \<and> e_offset e = off
      then e\<lparr>e_pending := False, e_payload := None\<rparr> # es
      else e # ack_entries devno off es)"

definition queue_ack :: "send_queue_t \<Rightarrow> u32 \<Rightarrow> u64 \<Rightarrow> send_queue_t" where
  "queue_ack q devno off = q\<lparr>q_entries := ack_entries devno off (q_entries q)\<rparr>"

definition queue_count :: "send_queue_t \<Rightarrow> nat" where
  "queue_count q = q_count q"

fun collect_pending :: "nat \<Rightarrow> queue_entry_t list \<Rightarrow> (u32 \<times> u64) list" where
  "collect_pending max_entries [] = []"
| "collect_pending max_entries (e # es) =
     (if max_entries = 0 then []
      else if e_pending e then (e_devno e, e_offset e) # collect_pending (max_entries - 1) es
      else collect_pending max_entries es)"

definition queue_get_pending :: "send_queue_t \<Rightarrow> nat \<Rightarrow> (u32 \<times> u64) list" where
  "queue_get_pending q max_entries = collect_pending max_entries (q_entries q)"

definition queue_should_backpressure :: "send_queue_t \<Rightarrow> bool" where
  "queue_should_backpressure q = (q_count q \<ge> BACKPRESSURE_QUEUE_DEPTH)"

section \<open>Abstract queue\<close>

definition q_list :: "send_queue_t \<Rightarrow> queue_entry_t list" where
  "q_list q = map (\<lambda>i. q_entries q ! ((q_tail q + i) mod QUEUE_CAPACITY)) [0..<q_count q]"

definition queue_ok :: "send_queue_t \<Rightarrow> bool" where
  "queue_ok q \<longleftrightarrow> length (q_entries q) = QUEUE_CAPACITY \<and> q_tail q < QUEUE_CAPACITY \<and>
     q_count q \<le> QUEUE_CAPACITY \<and> q_head q = (q_tail q + q_count q) mod QUEUE_CAPACITY \<and>
     q_backpressure q = (q_count q \<ge> BACKPRESSURE_QUEUE_DEPTH)"

datatype 'i fifo_op = Push 'i | Pop

text \<open>Running operations: the inputs accepted, the entries handed out, the final queue.\<close>

fun fifo_run :: "('i \<Rightarrow> 'q \<Rightarrow> 'q option) \<Rightarrow> ('q \<Rightarrow> ('e \<times> 'q) option) \<Rightarrow> 'i fifo_op list \<Rightarrow> 'q \<Rightarrow>
    'i list \<times> 'e list \<times> 'q" where
  "fifo_run push pop [] q = ([], [], q)"
| "fifo_run push pop (Push i # ops) q =
     (case push i q of
        None \<Rightarrow> fifo_run push pop ops q
      | Some q' \<Rightarrow> let (acc, outs, q'') = fifo_run push pop ops q' in (i # acc, outs, q''))"
| "fifo_run push pop (Pop # ops) q =
     (case pop q of
        None \<Rightarrow> fifo_run push pop ops q
      | Some (e, q') \<Rightarrow> let (acc, outs, q'') = fifo_run push pop ops q' in (acc, e # outs, q''))"

locale fifo =
  fixes push :: "'i \<Rightarrow> 'q \<Rightarrow> 'q option"
    and pop :: "'q \<Rightarrow> ('e \<times> 'q) option"
    and entry :: "'i \<Rightarrow> 'e"
    and items :: "'q \<Rightarrow> 'e list"
    and ok :: "'q \<Rightarrow> bool"
    and bound :: nat
  assumes push_Some: "\<lbrakk>ok q; push i q = Some q'\<rbrakk> \<Longrightarrow> ok q' \<and> items q' = items q @ [entry i]"
    and pop_Some: "\<lbrakk>ok q; pop q = Some (e, q')\<rbrakk> \<Longrightarrow> ok q' \<and> items q = e # items q'"
    and pop_None: "\<lbrakk>ok q; pop q = None\<rbrakk> \<Longrightarrow> items q = []"
    and bounded: "ok q \<Longrightarrow> length (items q) \<le> bound"
begin

lemma run_order:
  "\<lbrakk>ok q; fifo_run push pop ops q = (acc, outs, q')\<rbrakk> \<Longrightarrow>
    ok q' \<and> items q @ map entry acc = outs @ items q'"
proof (induction ops arbitrary: q acc outs)
  case Nil
  then show ?case by simp
next
  case (Cons p ops)
  show ?case
  proof (cases p)
    case (Push i)
    show ?thesis
    proof (cases "push i q")
      case None
      with Push Cons show ?thesis by simp
    next
      case (Some q1)
      obtain acc1 where r: "fifo_run push pop ops q1 = (acc1, outs, q')" "acc = i # acc1"
        using Cons.prems Push Some by (auto split: prod.splits)
      from push_Some [OF Cons.prems(1) Some] Cons.IH [OF _ r(1)] r(2) show ?thesis by auto
    qed
  next
    case Pop
    with Cons show ?thesis
      by (auto split: option.splits prod.splits dest: pop_Some)
  qed
qed

lemma drain:
  assumes "ok q" "length (items q) \<le> n"
  shows "\<exists>q'. fifo_run push pop (replicate n Pop) q = ([], items q, q') \<and> ok q' \<and> items q' = []"
  using assms
proof (induction n arbitrary: q)
  case 0
  then show ?case by simp
next
  case (Suc n)
  show ?case
  proof (cases "pop q")
    case None
    with Suc.prems Suc.IH [of q] pop_None [of q] show ?thesis by auto
  next
    case (Some eq)
    obtain e q1 where eq: "eq = (e, q1)" by (cases eq)
    with Some Suc.prems have "ok q1" "items q = e # items q1" using pop_Some [of q] by auto
    with Suc.prems Suc.IH [of q1] Some eq show ?thesis by auto
  qed
qed

end

section \<open>The ring buffer is a bounded queue\<close>

lemma queue_capacity_pos: "0 < QUEUE_CAPACITY"
  by (simp add: QUEUE_CAPACITY_def)

lemma queue_init_ok: "queue_ok (snd (queue_init alloc))" "q_list (snd (queue_init alloc)) = []"
  by (simp_all add: queue_init_def queue_ok_def q_list_def QUEUE_CAPACITY_def BACKPRESSURE_QUEUE_DEPTH_def)

text \<open>Two positions of the ring within one turn are different slots.\<close>

lemma ring_inj: "\<lbrakk>i < n; j < n; (t + i) mod n = (t + j) mod n\<rbrakk> \<Longrightarrow> i = (j :: nat)"
proof (induction i j rule: linorder_wlog)
  case (le i j)
  then have "n dvd (t + j) - (t + i)" by (subst mod_eq_dvd_iff_nat [symmetric]) auto
  with le show ?case by (auto dest: dvd_imp_le)
qed simp

lemma push_ok:
  assumes "queue_ok q" "queue_push alloc q devno off hash payload = (rc, q')" "rc \<noteq> -1"
  shows "queue_ok q' \<and> q_list q' = q_list q @ [\<lparr>e_devno = devno, e_offset = off, e_hash = hash,
      e_payload = Some payload, e_payload_len = length payload, e_pending = True\<rparr>]"
    and "rc = (if BACKPRESSURE_QUEUE_DEPTH \<le> q_count q' then 2 else 0)"
proof -
  define e where "e = \<lparr>e_devno = devno, e_offset = off, e_hash = hash,
      e_payload = Some payload, e_payload_len = length payload, e_pending = True\<rparr>"
  have room: "q_count q < QUEUE_CAPACITY"
    using assms(2,3) by (auto simp: queue_push_def split: if_splits)
  have q': "q_entries q' = (q_entries q)[q_head q := e]" "q_head q' = (q_head q + 1) mod QUEUE_CAPACITY"
    "q_count q' = q_count q + 1" "q_tail q' = q_tail q"
    "q_backpressure q' = (q_backpressure q \<or> BACKPRESSURE_QUEUE_DEPTH \<le> q_count q + 1)"
    "rc = (if q_backpressure q' then 2 else 0)"
    using assms(2,3) by (auto simp: queue_push_def e_def Let_def split: if_splits)
  have ok: "length (q_entries q) = QUEUE_CAPACITY" "q_tail q < QUEUE_CAPACITY"
    "q_head q = (q_tail q + q_count q) mod QUEUE_CAPACITY"
    "q_backpressure q = (BACKPRESSURE_QUEUE_DEPTH \<le> q_count q)"
    using assms(1) by (auto simp: queue_ok_def)
  have same: "(q_entries q)[q_head q := e] ! ((q_tail q + i) mod QUEUE_CAPACITY) =
      (if i = q_count q then e else q_entries q ! ((q_tail q + i) mod QUEUE_CAPACITY))"
    if "i \<le> q_count q" for i
  proof -
    have "(q_tail q + i) mod QUEUE_CAPACITY = q_head q \<longleftrightarrow> i = q_count q"
      using ring_inj [of i QUEUE_CAPACITY "q_count q" "q_tail q"] that room ok(3) by auto
    moreover have "(q_tail q + i) mod QUEUE_CAPACITY < QUEUE_CAPACITY" by (simp add: QUEUE_CAPACITY_def)
    ultimately show ?thesis using ok(1) by (auto simp: nth_list_update)
  qed
  have "q_list q' = q_list q @ [e]"
    using same by (simp add: q_list_def q')
  moreover have "queue_ok q'"
    using ok room q' by (auto simp: queue_ok_def mod_Suc_eq)
  ultimately show "queue_ok q' \<and> q_list q' = q_list q @ [\<lparr>e_devno = devno, e_offset = off, e_hash = hash,
      e_payload = Some payload, e_payload_len = length payload, e_pending = True\<rparr>]" by (simp add: e_def)
  show "rc = (if BACKPRESSURE_QUEUE_DEPTH \<le> q_count q' then 2 else 0)"
    using q' ok(4) by auto
qed

lemma pop_ok:
  assumes "queue_ok q" "queue_pop q out = (rc, e, q')"
  shows "if q_count q = 0 then rc = -1 \<and> e = out \<and> q' = q \<and> q_list q = []
    else rc = 0 \<and> queue_ok q' \<and> q_list q = e # q_list q'"
proof (cases "q_count q = 0")
  case True
  then show ?thesis using assms(2) by (auto simp: queue_pop_def q_list_def)
next
  case False
  then have q': "rc = 0" "e = q_entries q ! q_tail q" "q_entries q' = q_entries q"
    "q_tail q' = (q_tail q + 1) mod QUEUE_CAPACITY" "q_count q' = q_count q - 1" "q_head q' = q_head q"
    "q_backpressure q' = (q_backpressure q \<and> BACKPRESSURE_QUEUE_DEPTH \<le> q_count q - 1)"
    using assms(2) by (auto simp: queue_pop_def Let_def split: if_splits)
  have ok: "q_tail q < QUEUE_CAPACITY" using assms(1) by (simp add: queue_ok_def)
  have "q_list q = e # q_list q'"
  proof -
    have "[0..<q_count q] = 0 # map Suc [0..<q_count q - 1]"
      using False by (simp add: map_Suc_upt upt_conv_Cons)
    then show ?thesis
      using ok by (simp add: q_list_def q' mod_add_left_eq comp_def)
  qed
  moreover have "queue_ok q'"
  proof -
    obtain c where c: "q_count q = Suc c" using False not0_implies_Suc by blast
    have "(Suc (q_tail q) mod QUEUE_CAPACITY + c) mod QUEUE_CAPACITY = (q_tail q + Suc c) mod QUEUE_CAPACITY"
      by (simp add: mod_add_left_eq)
    then show ?thesis using assms(1) q' c by (auto simp: queue_ok_def)
  qed
  ultimately show ?thesis using False q'(1) by simp
qed

text \<open>The queue as its clients see it: an input is accepted unless the return code is -1.\<close>

type_synonym push_arg = "u32 \<times> u64 \<times> u64 \<times> bytes"

definition ring_push :: "push_arg \<Rightarrow> send_queue_t \<Rightarrow> send_queue_t option" where
  "ring_push = (\<lambda>(devno, off, hash, payload) q.
     let (rc, q') = queue_push True q devno off hash payload in if rc = -1 then None else Some q')"

definition ring_pop :: "send_queue_t \<Rightarrow> (queue_entry_t \<times> send_queue_t) option" where
  "ring_pop q = (let (rc, e, q') = queue_pop q zero_entry in if rc = -1 then None else Some (e, q'))"

definition ring_entry :: "push_arg \<Rightarrow> queue_entry_t" where
  "ring_entry = (\<lambda>(devno, off, hash, payload).
     \<lparr>e_devno = devno, e_offset = off, e_hash = hash, e_payload = Some payload,
      e_payload_len = length payload, e_pending = True\<rparr>)"

interpretation ring: fifo ring_push ring_pop ring_entry q_list queue_ok QUEUE_CAPACITY
proof (unfold_locales, goal_cases)
  case (1 q i q')
  then show ?case
    using push_ok(1) by (fastforce simp: ring_push_def ring_entry_def split: prod.splits if_splits)
next
  case (2 q e q')
  then show ?case using pop_ok [of q zero_entry] by (auto simp: ring_pop_def split: prod.splits if_splits)
next
  case (3 q)
  then show ?case using pop_ok [of q zero_entry] by (auto simp: ring_pop_def split: prod.splits if_splits)
next
  case (4 q)
  then show ?case by (simp add: q_list_def queue_ok_def)
qed

section \<open>Acknowledgements\<close>

lemma length_ack_entries [simp]: "length (ack_entries devno off es) = length es"
  by (induction es) simp_all

lemma collect_pending_filter:
  "collect_pending n es = take n (map (\<lambda>e. (e_devno e, e_offset e)) (filter e_pending es))"
  by (induction es arbitrary: n) (auto simp: take_Cons')

lemma ack_entries_pending:
  "map (\<lambda>e. (e_devno e, e_offset e)) (filter e_pending (ack_entries devno off es)) =
    remove1 (devno, off) (map (\<lambda>e. (e_devno e, e_offset e)) (filter e_pending es))"
  by (induction es) auto

lemma ack_entries_nth:
  "i < length es \<Longrightarrow> e_devno (ack_entries devno off es ! i) = e_devno (es ! i) \<and>
    e_offset (ack_entries devno off es ! i) = e_offset (es ! i) \<and>
    e_hash (ack_entries devno off es ! i) = e_hash (es ! i)"
  by (induction es arbitrary: i) (auto simp: nth_Cons split: nat.split)

lemma queue_ack_ok: "queue_ok q \<Longrightarrow> queue_ok (queue_ack q devno off)"
  by (simp add: queue_ok_def queue_ack_def)

section \<open>Properties\<close>

text \<open>
  C21: the send queue is a first-in-first-out queue of at most 256 entries under every
  interleaving of pushes and pops: starting from \<open>queue_init\<close>, the entries handed out followed
  by the entries still queued are exactly the accepted pushes, in their order, with device,
  offset, hash and payload as pushed.
\<close>
theorem queue_fifo_order:
  "case fifo_run ring_push ring_pop ops (snd (queue_init True)) of (acc, outs, q) \<Rightarrow>
     map ring_entry acc = outs @ q_list q \<and> queue_ok q \<and> length (q_list q) \<le> QUEUE_CAPACITY"
proof -
  obtain acc outs q where r: "fifo_run ring_push ring_pop ops (snd (queue_init True)) = (acc, outs, q)"
    by (metis prod_cases3)
  from ring.run_order [OF queue_init_ok(1) r] queue_init_ok(2) [of True] r show ?thesis
    by (auto dest: ring.bounded)
qed

text \<open>
  The return code of \<open>queue_push\<close>.  It is -1 exactly when the payload is over the limit,
  the ring is full or memory is short, and then the queue is unchanged.  Otherwise the entry IS
  enqueued, and the code is 2 instead of 0 exactly when the queue now holds 40 entries or more:
  code 2 is an advice to slow down, not a refusal.
\<close>
theorem queue_push_codes:
  assumes "queue_ok q"
  shows "case queue_push alloc q devno off hash payload of (rc, q') \<Rightarrow>
    if length payload > QUEUE_ENTRY_MAX_PAYLOAD \<or> q_count q = QUEUE_CAPACITY \<or> \<not> alloc
    then rc = -1 \<and> q' = q
    else queue_ok q' \<and> q_list q' = q_list q @ [ring_entry (devno, off, hash, payload)] \<and>
      rc = (if queue_should_backpressure q' then 2 else 0)"
proof -
  obtain rc q' where p: "queue_push alloc q devno off hash payload = (rc, q')" by (cases "queue_push alloc q devno off hash payload")
  have le: "q_count q \<le> QUEUE_CAPACITY" using assms by (simp add: queue_ok_def)
  show ?thesis
  proof (cases "length payload > QUEUE_ENTRY_MAX_PAYLOAD \<or> q_count q = QUEUE_CAPACITY \<or> \<not> alloc")
    case True
    then show ?thesis by (auto simp: queue_push_def)
  next
    case False
    with le have "rc \<noteq> -1" using p by (auto simp: queue_push_def Let_def split: if_splits)
    from push_ok [OF assms p this] False p show ?thesis
      by (auto simp: ring_entry_def queue_should_backpressure_def)
  qed
qed

theorem queue_push_codes_witness:
  "fst (queue_push True (snd (queue_init True)) 0 0 7 [1, 2]) = 0 \<and>
   q_list (snd (queue_push True (snd (queue_init True)) 0 0 7 [1, 2])) = [ring_entry (0, 0, 7, [1, 2])]"
proof -
  have "fst (queue_push True (snd (queue_init True)) 0 0 7 [1, 2]) = 0"
    "q_count (snd (queue_init True)) \<noteq> QUEUE_CAPACITY" "length [1 :: byte, 2] \<le> QUEUE_ENTRY_MAX_PAYLOAD"
    using queue_capacity_pos
    by (simp_all add: queue_push_def queue_init_def QUEUE_ENTRY_MAX_PAYLOAD_def proto_consts)
  then show ?thesis
    using queue_push_codes [OF queue_init_ok(1) [of True], where alloc = True and devno = 0 and off = 0
        and hash = 7 and payload = "[1, 2]"] queue_init_ok(2) [of True]
    by (auto simp: not_less split: prod.splits)
qed

text \<open>
  An acknowledgement removes exactly one outstanding entry: the pending set loses the first
  (in slot order) occurrence of the acknowledged (devno, offset) and nothing else, an
  acknowledgement of an unknown block changes nothing, and the order, keys and hashes of the
  entries still to be sent are not touched.
\<close>
theorem queue_ack_removes_one:
  assumes "queue_ok q"
  shows "queue_get_pending (queue_ack q devno off) QUEUE_CAPACITY =
      remove1 (devno, off) (queue_get_pending q QUEUE_CAPACITY) \<and>
    queue_ok (queue_ack q devno off) \<and>
    map (\<lambda>e. (e_devno e, e_offset e, e_hash e)) (q_list (queue_ack q devno off)) =
      map (\<lambda>e. (e_devno e, e_offset e, e_hash e)) (q_list q)"
proof -
  have len: "length (q_entries q) = QUEUE_CAPACITY" using assms by (simp add: queue_ok_def)
  have all: "collect_pending QUEUE_CAPACITY es = map (\<lambda>e. (e_devno e, e_offset e)) (filter e_pending es)"
    if "length es = QUEUE_CAPACITY" for es
    using that length_filter_le [of e_pending es] by (simp add: collect_pending_filter)
  have "(q_tail q + i) mod QUEUE_CAPACITY < length (q_entries q)" for i
    by (simp add: len QUEUE_CAPACITY_def)
  then have "map (\<lambda>e. (e_devno e, e_offset e, e_hash e)) (q_list (queue_ack q devno off)) =
      map (\<lambda>e. (e_devno e, e_offset e, e_hash e)) (q_list q)"
    using ack_entries_nth by (simp add: queue_ack_def q_list_def)
  then show ?thesis
    using queue_ack_ok [OF assms]
    by (simp add: queue_get_pending_def queue_ack_def all len ack_entries_pending)
qed

theorem queue_ack_removes_one_witness:
  "queue_get_pending (queue_ack (snd (queue_push True (snd (queue_init True)) 3 8 7 [1])) 3 8) QUEUE_CAPACITY = []"
proof -
  define q where "q = snd (queue_push True (snd (queue_init True)) 3 8 7 [1])"
  have "queue_ok q"
    unfolding q_def by (rule push_ok(1) [OF queue_init_ok(1) [of True] prod.collapse [symmetric], THEN conjunct1])
      (use queue_capacity_pos in \<open>simp add: queue_push_def queue_init_def QUEUE_ENTRY_MAX_PAYLOAD_def proto_consts\<close>)
  moreover have "queue_get_pending q QUEUE_CAPACITY = [(3, 8)]"
  proof -
    have "collect_pending m (replicate k zero_entry) = []" for m k
      by (induction k) (simp_all add: zero_entry_def)
    then have "collect_pending n ((replicate n zero_entry)[0 := e]) = [(e_devno e, e_offset e)]"
      if "0 < n" "e_pending e" for n e
      using that by (cases n) simp_all
    then show ?thesis using queue_capacity_pos
      by (simp add: q_def queue_push_def queue_init_def QUEUE_ENTRY_MAX_PAYLOAD_def proto_consts
          queue_get_pending_def)
  qed
  ultimately show ?thesis using queue_ack_removes_one [of q 3 8] by (simp add: q_def)
qed

end
