(* ===== verification/Timer.thy ===== *)
theory Timer
  imports Protocol
begin

text \<open>
  The client's timers, \<^verbatim>\<open>client/timer.c\<close> and \<^verbatim>\<open>client/timer.h\<close>.  The two arrays of
  \<open>timer_mgr_t\<close> are functions from the event number; time is the 64-bit millisecond counter, an
  argument of every operation, and the subtraction that tests a timer wraps around.
\<close>

datatype timer_event_t = TIMER_NONE | TIMER_RETRANSMIT | TIMER_RECONNECT | TIMER_ACTION
  | TIMER_INCREMENTAL

record timer_mgr_t =
  last_fire :: "timer_event_t \<Rightarrow> u64"
  interval :: "timer_event_t \<Rightarrow> u64"

text \<open>The events with an index from 1 below \<open>TIMER_COUNT\<close>, in the order of the loop.\<close>

definition timer_events :: "timer_event_t list" where
  "timer_events = [TIMER_RETRANSMIT, TIMER_RECONNECT, TIMER_ACTION, TIMER_INCREMENTAL]"

definition timer_init :: "u64 \<Rightarrow> timer_mgr_t \<Rightarrow> timer_mgr_t" where
  "timer_init now tm =
     tm\<lparr>interval := (interval tm)(TIMER_RETRANSMIT := RETRANSMIT_TIMER_MS,
          TIMER_RECONNECT := RECONNECT_TIMER_MS, TIMER_ACTION := ACTION_TIMER_MS,
          TIMER_INCREMENTAL := RETRANSMIT_TIMER_MS),
        last_fire := (last_fire tm)(TIMER_RETRANSMIT := now, TIMER_RECONNECT := now,
          TIMER_ACTION := now + 5000 - ACTION_TIMER_MS, TIMER_INCREMENTAL := now)\<rparr>"

text \<open>The clock of the Linux build from \<open>clock_gettime\<close>.\<close>

definition timer_now_ms :: "u64 \<Rightarrow> u64 \<Rightarrow> u64" where
  "timer_now_ms tv_sec tv_nsec = tv_sec * 1000 + tv_nsec div 1000000"

definition timer_due :: "timer_mgr_t \<Rightarrow> u64 \<Rightarrow> timer_event_t \<Rightarrow> bool" where
  "timer_due tm now i = (now - last_fire tm i \<ge> interval tm i)"

fun timer_scan :: "timer_mgr_t \<Rightarrow> u64 \<Rightarrow> timer_event_t list \<Rightarrow> timer_event_t" where
  "timer_scan tm now [] = TIMER_NONE"
| "timer_scan tm now (i # is) = (if timer_due tm now i then i else timer_scan tm now is)"

definition timer_check :: "timer_mgr_t \<Rightarrow> u64 \<Rightarrow> timer_event_t" where
  "timer_check tm now = timer_scan tm now timer_events"

definition timer_reset :: "u64 \<Rightarrow> timer_mgr_t \<Rightarrow> timer_event_t \<Rightarrow> timer_mgr_t" where
  "timer_reset now tm event = tm\<lparr>last_fire := (last_fire tm)(event := now)\<rparr>"

section \<open>Properties\<close>

lemma timer_scan_find:
  "timer_scan tm now es = (case find (timer_due tm now) es of None \<Rightarrow> TIMER_NONE | Some i \<Rightarrow> i)"
  by (induction es) simp_all

lemma timer_due_iff:
  assumes "unat (interval tm e) + d < 2 ^ 64"
  shows "timer_due tm (last_fire tm e + of_nat d) e \<longleftrightarrow> unat (interval tm e) \<le> d"
proof -
  have "d < 2 ^ 64" using assms by simp
  then have "unat (of_nat d :: u64) = d" by (simp add: unat_of_nat)
  then show ?thesis by (simp add: timer_due_def word_le_nat_alt)
qed

text \<open>A fresh manager, and one on which some events have been reset, keep their intervals.\<close>

definition armed :: "timer_mgr_t \<Rightarrow> bool" where
  "armed tm \<longleftrightarrow> interval tm TIMER_RETRANSMIT = RETRANSMIT_TIMER_MS \<and>
     interval tm TIMER_RECONNECT = RECONNECT_TIMER_MS \<and> interval tm TIMER_ACTION = ACTION_TIMER_MS \<and>
     interval tm TIMER_INCREMENTAL = RETRANSMIT_TIMER_MS"

lemma armed_init [simp]: "armed (timer_init now tm)"
  by (simp add: armed_def timer_init_def)

lemma armed_reset [simp]: "armed (timer_reset now tm e) = armed tm"
  by (simp add: armed_def timer_reset_def)

lemma not_due_after_reset:
  assumes "armed tm" "e \<in> set timer_events" "unat d < 10000"
  shows "\<not> timer_due (timer_reset now tm e) (now + d) e"
proof -
  have "10000 \<le> unat (interval tm e)"
    using assms(1,2) by (auto simp: armed_def timer_events_def proto_consts)
  then show ?thesis using assms(3) by (simp add: timer_due_def timer_reset_def word_le_nat_alt)
qed



end
