(* ===== verification/Disk_Io.thy ===== *)
theory Disk_Io
  imports Protocol
begin

text \<open>
  Reading the source disks: the block reader of \<^verbatim>\<open>client/block_io.c\<close> and the partition list of
  \<^verbatim>\<open>client/volume.c\<close>.

  The operating system's answers are arguments: a reader's \<open>pread\<close> (the \<open>pread64\<close> of the Linux
  build, \<open>SetFilePointerEx\<close> and \<open>ReadFile\<close> of the Windows build) gives the bytes at an offset or
  fails, and the enumeration gets one answer per physical drive and per mounted volume.
  Logging has no effect on the state and is left out.
\<close>

section \<open>The block reader\<close>

record block_reader =
  br_handle :: nat
  br_total_bytes :: u64

text \<open>\<open>open_direct\<close> and \<open>open_plain\<close> are the two attempts at \<open>open\<close>, \<open>seek_end\<close> the result of
  \<open>lseek64\<close> to the end.\<close>

definition block_reader_open :: "nat option \<Rightarrow> nat option \<Rightarrow> u64 \<Rightarrow> bool \<Rightarrow> block_reader option" where
  "block_reader_open open_direct open_plain seek_end alloc =
     (case (case open_direct of Some fd \<Rightarrow> Some fd | None \<Rightarrow> open_plain) of
        None \<Rightarrow> None
      | Some fd \<Rightarrow>
          if seek_end = -1 then None
          else if \<not> alloc then None
          else Some \<lparr>br_handle = fd, br_total_bytes = seek_end\<rparr>)"

definition block_reader_size :: "block_reader \<Rightarrow> u64" where
  "block_reader_size r = br_total_bytes r"

definition block_reader_block_count :: "block_reader \<Rightarrow> u32 \<Rightarrow> u64" where
  "block_reader_block_count r block_size =
     (if block_size = 0 then 0
      else
        let count = br_total_bytes r div ucast block_size
        in if br_total_bytes r mod ucast block_size \<noteq> 0 then count + 1 else count)"

text \<open>The bytes read are the contents of the buffer up to \<open>*bytes_read\<close>.  The subtraction wraps around
  when the offset lies behind the end.\<close>

definition block_reader_read ::
  "(nat \<Rightarrow> u64 \<Rightarrow> u32 \<Rightarrow> bytes option) \<Rightarrow> block_reader \<Rightarrow> u64 \<Rightarrow> u32 \<Rightarrow> int \<times> bytes" where
  "block_reader_read pread r off buf_size =
     (let to_read = ucast (min (ucast buf_size) (br_total_bytes r - off) :: u64) :: u32
      in case pread (br_handle r) off to_read of
           None \<Rightarrow> (-1, [])
         | Some bs \<Rightarrow> (0, bs))"

text \<open>
  The Windows build: a handle has a file pointer, which a read sets and moves.  \<open>len\<close> is the answer of the length query
  and \<open>read_file pos n\<close> that of \<open>ReadFile\<close>, both \<open>None\<close> for failure; the second results are the handles closed and the
  new file pointer.
\<close>

definition win_block_reader_open :: "nat option \<Rightarrow> u64 option \<Rightarrow> bool \<Rightarrow> block_reader option \<times> nat list" where
  "win_block_reader_open h len alloc =
     (case h of
        None \<Rightarrow> (None, [])
      | Some h \<Rightarrow>
          (case len of
             None \<Rightarrow> (None, [h])
           | Some n \<Rightarrow> if \<not> alloc then (None, [h]) else (Some \<lparr>br_handle = h, br_total_bytes = n\<rparr>, [])))"

definition win_block_reader_read ::
  "(u64 \<Rightarrow> u32 \<Rightarrow> bytes option) \<Rightarrow> block_reader \<Rightarrow> u64 \<Rightarrow> u32 \<Rightarrow> u64 \<Rightarrow> (int \<times> bytes) \<times> u64" where
  "win_block_reader_read read_file r off buf_size pos =
     (if sint off < 0 then ((-1, []), pos)
      else
        let pos = off;
            to_read = ucast (min (ucast buf_size) (br_total_bytes r - off) :: u64) :: u32
        in case read_file pos to_read of
             None \<Rightarrow> ((-1, []), pos)
           | Some bs \<Rightarrow> ((0, bs), pos + of_nat (length bs)))"

section \<open>The partition list\<close>

definition MAX_VOLUMES :: nat where "MAX_VOLUMES = 64"

record volume_info_t =
  vi_devno :: u32
  vi_disk_path :: string
  vi_vss_path :: string
  vi_name :: string
  vi_partition_offset :: u64
  vi_total_bytes :: u64
  vi_total_sectors :: u64
  vi_block_count :: u64
  vi_writable :: bool
  vi_has_vss :: bool
  vi_part_index :: nat

definition block_count_of :: "u64 \<Rightarrow> u32 \<Rightarrow> u64" where
  "block_count_of total_bytes block_size =
     (if block_size = 0 then 0
      else
        let count = total_bytes div ucast block_size
        in if total_bytes mod ucast block_size \<noteq> 0 then count + 1 else count)"

definition volume_block_count :: "volume_info_t \<Rightarrow> u32 \<Rightarrow> u64" where
  "volume_block_count vol block_size = block_count_of (vi_total_bytes vol) block_size"

text \<open>The answers about one physical drive and about one mounted volume.\<close>

record drive_answer =
  da_path :: string
  da_geometry :: "(bool \<times> u64) option"
  da_device_number :: "u32 option"
  da_alloc :: bool
  da_layout :: "(u64 \<times> u64) list option"

record mount_answer =
  ma_drive_path :: "string option"
  ma_opened :: bool
  ma_alloc :: bool
  ma_extents :: "(u32 \<times> u64) list option"

text \<open>One partition entry with number \<open>p\<close> (from 0): the name is \<open>Disk%dPart%lu\<close>, given by \<open>pname\<close>.\<close>

definition partition_volume ::
  "(u32 \<Rightarrow> nat \<Rightarrow> string) \<Rightarrow> string \<Rightarrow> u32 \<Rightarrow> u64 \<Rightarrow> nat \<Rightarrow> u64 \<times> u64 \<Rightarrow> volume_info_t" where
  "partition_volume pname path devno sector p part =
     (let vol = \<lparr>vi_devno = devno, vi_disk_path = path, vi_vss_path = [], vi_name = [],
            vi_partition_offset = fst part, vi_total_bytes = snd part, vi_total_sectors = snd part div sector,
            vi_block_count = 0, vi_writable = False, vi_has_vss = False, vi_part_index = p + 1\<rparr>
      in vol\<lparr>vi_block_count := volume_block_count vol (of_nat BLOCK_SIZE),
             vi_name := take 15 (pname devno (p + 1))\<rparr>)"

fun add_partitions ::
  "(nat \<Rightarrow> u64 \<times> u64 \<Rightarrow> volume_info_t) \<Rightarrow> nat \<Rightarrow> (u64 \<times> u64) list \<Rightarrow> volume_info_t list \<Rightarrow> volume_info_t list" where
  "add_partitions mk p [] vols = vols"
| "add_partitions mk p (part # parts) vols =
     (if snd part = 0 then add_partitions mk (p + 1) parts vols
      else
        let vols = vols @ [mk p part]
        in if length vols \<ge> MAX_VOLUMES then vols else add_partitions mk (p + 1) parts vols)"

fun scan_drives ::
  "(u32 \<Rightarrow> nat \<Rightarrow> string) \<Rightarrow> nat \<Rightarrow> drive_answer option list \<Rightarrow> volume_info_t list \<Rightarrow> volume_info_t list" where
  "scan_drives pname n [] vols = vols"
| "scan_drives pname n (d # ds) vols =
     (case d of
        None \<Rightarrow> scan_drives pname (n + 1) ds vols
      | Some a \<Rightarrow>
          (case da_geometry a of
             None \<Rightarrow> scan_drives pname (n + 1) ds vols
           | Some (fixed, sector) \<Rightarrow>
               if \<not> fixed then scan_drives pname (n + 1) ds vols
               else if \<not> da_alloc a then scan_drives pname (n + 1) ds vols
               else
                 (case da_layout a of
                    None \<Rightarrow> scan_drives pname (n + 1) ds vols
                  | Some parts \<Rightarrow>
                      let devno = (case da_device_number a of None \<Rightarrow> of_nat n | Some k \<Rightarrow> k);
                          vols = add_partitions (partition_volume pname (da_path a) devno sector) 0 parts vols
                      in if length vols \<ge> MAX_VOLUMES then vols else scan_drives pname (n + 1) ds vols)))"

text \<open>Naming the first partition at a disk extent after the drive letter.\<close>

fun name_volume :: "string \<Rightarrow> u32 \<times> u64 \<Rightarrow> volume_info_t list \<Rightarrow> volume_info_t list" where
  "name_volume letter ext [] = []"
| "name_volume letter ext (v # vs) =
     (if fst ext = vi_devno v \<and> snd ext = vi_partition_offset v
      then v\<lparr>vi_name := take 15 letter\<rparr> # vs
      else v # name_volume letter ext vs)"

definition match_mount :: "mount_answer \<Rightarrow> volume_info_t list \<Rightarrow> volume_info_t list" where
  "match_mount m vols =
     (case ma_drive_path m of
        None \<Rightarrow> vols
      | Some path \<Rightarrow>
          if path = [] then vols
          else if \<not> ma_opened m then vols
          else if \<not> ma_alloc m then vols
          else
            (case ma_extents m of
               None \<Rightarrow> vols
             | Some exts \<Rightarrow>
                 fold (name_volume (take 2 path)) (if length exts > 1 then take 1 exts else exts) vols))"

definition volume_enumerate ::
  "(u32 \<Rightarrow> nat \<Rightarrow> string) \<Rightarrow> drive_answer option list \<Rightarrow> mount_answer list \<Rightarrow> int \<times> volume_info_t list" where
  "volume_enumerate pname drives mounts =
     (let vols = fold match_mount mounts (scan_drives pname 0 (take 16 drives) [])
      in (if length vols > 0 then 0 else -1, vols))"

section \<open>Blocks tile the disk\<close>

lemma block_reader_block_count_of: "block_reader_block_count r bs = block_count_of (br_total_bytes r) bs"
  by (simp add: block_reader_block_count_def block_count_of_def)

lemma unat_ucast_u32 [simp]: "unat (ucast (x :: u32) :: u64) = unat x"
proof -
  have "unat x < 2 ^ 32" using unsigned_less [of x] by simp
  then have "unat x < 2 ^ 64" by simp
  then show ?thesis by (simp only: unsigned_ucast_eq take_bit_nat_eq_self) (simp add: take_bit_nat_eq_self)
qed

text \<open>The number of blocks is the quotient rounded up.\<close>

lemma block_count_of_ceil:
  assumes "bs \<noteq> 0"
  shows "unat (block_count_of t bs) = (unat t + unat bs - 1) div unat bs"
proof -
  let ?t = "unat t" and ?b = "unat bs"
  have b: "0 < ?b" using assms by (simp add: unat_gt_0)
  have q: "unat (t div ucast bs) = ?t div ?b" "unat (t mod ucast bs) = ?t mod ?b"
    by (simp_all add: unat_div unat_mod)
  have lt: "?t < 2 ^ 64" using unsigned_less [of t] by simp
  show ?thesis
  proof (cases "?t mod ?b = 0")
    case True
    then have "t mod ucast bs = 0" using q(2) by (simp add: unat_eq_0)
    moreover have "(?t + ?b - 1) div ?b = ?t div ?b"
    proof -
      obtain k where k: "?t = ?b * k" using True by auto
      have "(?b * k + (?b - 1)) div ?b = k"
        using b div_mult_self3 [of ?b k "?b - 1"] by (simp only: mult.commute) simp
      moreover have "?t + ?b - 1 = ?b * k + (?b - 1)" using k b by simp
      moreover have "?t div ?b = k" using k b by simp
      ultimately show ?thesis by simp
    qed
    ultimately show ?thesis using assms by (simp add: block_count_of_def q)
  next
    case False
    then have nz: "t mod ucast bs \<noteq> 0" using q(2) by (auto simp: unat_eq_0 [symmetric])
    have "2 \<le> ?b" using False b by (cases "?b = 1") auto
    then have "?t div ?b \<le> ?t div 2" by (simp add: div_le_mono2)
    moreover have "?t div 2 < 2 ^ 63" using lt by simp
    ultimately have "?t div ?b + 1 < 2 ^ 64" by simp
    then have "unat (t div ucast bs + 1) = ?t div ?b + 1"
      using q(1) unat_add_lem [of "t div ucast bs" "1 :: u64"] by simp
    moreover have "(?t + ?b - 1) div ?b = ?t div ?b + 1"
    proof -
      obtain m where m: "?t mod ?b = Suc m" using False by (cases "?t mod ?b") auto
      moreover have "?t = ?b * (?t div ?b) + ?t mod ?b" by simp
      ultimately have "?t + ?b - 1 = ?b * (?t div ?b) + m + ?b" by linarith
      then have "?t + ?b - 1 = (?t mod ?b - 1) + ?b * (?t div ?b + 1)" using m by simp
      moreover have "(?t mod ?b - 1) div ?b = 0" using b by (simp add: less_imp_diff_less)
      ultimately show ?thesis using b by (simp only: div_mult_self2)
    qed
    ultimately show ?thesis using assms nz by (simp add: block_count_of_def Let_def)
  qed
qed

lemma concat_chunks:
  assumes "0 < b"
  shows "concat (map (\<lambda>k. take b (drop (k * b) D)) [0..<n]) = take (n * b) D"
proof (induction n)
  case (Suc n)
  then show ?case by (simp add: take_add [symmetric] add.commute)
qed simp

text \<open>What \<open>pread\<close> returns on a disk with contents \<open>D\<close>.\<close>

definition pread_of :: "bytes \<Rightarrow> nat \<Rightarrow> u64 \<Rightarrow> u32 \<Rightarrow> bytes option" where
  "pread_of D h off n = Some (take (unat n) (drop (unat off) D))"

lemma read_chunk:
  assumes "unat (br_total_bytes r) = length D" "k * unat bs < length D"
  shows "block_reader_read (pread_of D) r (of_nat k * ucast bs) bs = (0, take (unat bs) (drop (k * unat bs) D))"
proof -
  have "unat (br_total_bytes r) < 2 ^ 64" using unsigned_less [of "br_total_bytes r"] by simp
  then have lt: "length D < 2 ^ 64" using assms(1) by simp
  have "(of_nat k * ucast bs :: u64) = of_nat (k * unat bs)"
    by (simp add: of_nat_mult)
  moreover have "unat (of_nat (k * unat bs) :: u64) = k * unat bs"
    using assms(2) lt by (simp add: unat_of_nat take_bit_nat_eq_self del: of_nat_mult)
  ultimately have off: "unat (of_nat k * ucast bs :: u64) = k * unat bs" by simp
  have le: "(of_nat k * ucast bs :: u64) \<le> br_total_bytes r"
    using off assms by (simp add: word_le_nat_alt)
  have sub: "unat (br_total_bytes r - of_nat k * ucast bs) = length D - k * unat bs"
    using unat_sub [OF le] off assms(1) by simp
  have b32: "unat bs < 2 ^ 32" using unsigned_less [of bs] by simp
  have "unat (ucast (min (ucast bs) (br_total_bytes r - of_nat k * ucast bs)) :: u32)
      = min (unat bs) (length D - k * unat bs)"
    using b32 sub by (auto simp: min_def word_le_nat_alt unsigned_ucast_eq take_bit_nat_eq_self)
  then show ?thesis
    by (simp add: block_reader_read_def pread_of_def off Let_def min_def)
qed

text \<open>
  C31: Reading a disk block by block misses nothing and repeats nothing: with a nonzero block size,
  the \<open>block_reader_block_count\<close> reads at the successive block offsets all succeed and the bytes
  they return, one after the other, are exactly the contents of the disk, the last block shortened
  to what remains.
\<close>
theorem read_blocks_tile_disk:
  assumes "bs \<noteq> 0" "unat (br_total_bytes r) = length D"
  defines "n \<equiv> unat (block_reader_block_count r bs)"
    and "rd \<equiv> \<lambda>k. block_reader_read (pread_of D) r (of_nat k * ucast bs) bs"
  shows "(\<forall>k < n. fst (rd k) = 0) \<and> concat (map (\<lambda>k. snd (rd k)) [0..<n]) = D"
proof -
  have b: "0 < unat bs" using assms(1) by (simp add: unat_gt_0)
  have n: "n = (length D + unat bs - 1) div unat bs"
    using block_count_of_ceil [OF assms(1)] assms(2) by (simp add: n_def block_reader_block_count_of)
  have rd: "rd k = (0, take (unat bs) (drop (k * unat bs) D))" if "k < n" for k
  proof -
    have "(k + 1) * unat bs \<le> length D + unat bs - 1"
      using that n by (metis Suc_eq_plus1 Suc_leI less_eq_div_iff_mult_less_eq b)
    then have "k * unat bs < length D" using b by simp
    then show ?thesis unfolding rd_def by (rule read_chunk [OF assms(2)])
  qed
  have "map (\<lambda>k. snd (rd k)) [0..<n] = map (\<lambda>k. take (unat bs) (drop (k * unat bs) D)) [0..<n]"
    using rd by simp
  then have "concat (map (\<lambda>k. snd (rd k)) [0..<n]) = take (n * unat bs) D"
    by (simp only: concat_chunks [OF b])
  moreover have "length D \<le> n * unat bs"
  proof -
    have "length D + unat bs - 1 < (n + 1) * unat bs"
      unfolding n using b dividend_less_div_times [of "unat bs" "length D + unat bs - 1"] by simp
    then show ?thesis using b by simp
  qed
  ultimately show ?thesis using rd by simp
qed

theorem read_blocks_tile_disk_witness:
  "concat (map (\<lambda>k. snd (block_reader_read (pread_of [1, 2, 3, 4, 5, 6, 7]) \<lparr>br_handle = 0, br_total_bytes = 7\<rparr>
      (of_nat k * ucast (3 :: u32)) 3))
    [0..<unat (block_reader_block_count \<lparr>br_handle = 0, br_total_bytes = 7\<rparr> 3)]) = [1, 2, 3, 4, 5, 6, 7]"
  by (rule read_blocks_tile_disk [THEN conjunct2]) simp_all

text \<open>Reading block after block through the file pointer, as the loops of the client do: \<open>k\<close> blocks from block \<open>i\<close> on.\<close>

fun win_read_blocks :: "(u64 \<Rightarrow> u32 \<Rightarrow> bytes option) \<Rightarrow> block_reader \<Rightarrow> u32 \<Rightarrow> nat \<Rightarrow> nat \<Rightarrow> u64 \<Rightarrow> (int \<times> bytes) list" where
  "win_read_blocks read_file r bs i 0 pos = []"
| "win_read_blocks read_file r bs i (Suc k) pos =
     (case win_block_reader_read read_file r (of_nat i * ucast bs) bs pos of
        (res, pos) \<Rightarrow> res # win_read_blocks read_file r bs (Suc i) k pos)"

text \<open>
  The two builds read the same: the reads of the Windows build, which share one file pointer, return block for block
  what the positioned reads of the Linux build return, wherever the pointer was, as long as the offsets are positive
  as signed numbers.
\<close>
theorem win_reads_agree:
  assumes "\<forall>j. i \<le> j \<and> j < i + k \<longrightarrow> 0 \<le> sint (of_nat j * ucast bs :: u64)"
  shows "win_read_blocks (pread (br_handle r)) r bs i k pos = map (\<lambda>j. block_reader_read pread r (of_nat j * ucast bs) bs) [i..<i + k]"
  using assms
proof (induction k arbitrary: i pos)
  case (Suc k)
  have off: "0 \<le> sint (of_nat i * ucast bs :: u64)" using Suc.prems by simp
  have rest: "\<forall>j. Suc i \<le> j \<and> j < Suc i + k \<longrightarrow> 0 \<le> sint (of_nat j * ucast bs :: u64)" using Suc.prems by auto
  have range: "[i..<i + Suc k] = i # [Suc i..<Suc i + k]" by (simp add: upt_conv_Cons)
  show ?case
    unfolding range using off Suc.IH [OF rest]
    by (simp add: win_block_reader_read_def block_reader_read_def Let_def split: option.split)
qed simp

end
