(* ===== verification/Block_Writer.thy ===== *)
theory Block_Writer
  imports Protocol
begin

text \<open>
  The receiver's disk writer, \<^verbatim>\<open>server/block_writer.c\<close>: the registered target disks, writing one
  block at an offset, the statistics and the periodic \<open>fsync\<close>.

  \<^item> The module's global variables are the record \<open>block_writer\<close>.  The contents of an open file are
    a function from addresses to bytes, once as written (\<open>bw_files\<close>) and once as guaranteed to be
    on stable storage (\<open>bw_durable\<close>, which only a successful \<open>fsync\<close> changes).
  \<^item> \<open>disk_env\<close> is the part of the operating system that does not change: which seeks succeed and
    which descriptors \<open>fsync\<close> works on.  \<open>bw_script\<close> holds the outcomes of the coming \<open>write\<close>
    calls: \<open>Writes k\<close> writes up to \<open>k\<close> bytes, \<open>WriteEintr\<close> and \<open>WriteFails\<close> return -1.  A call that
    needs more outcomes than the script has has not returned: \<open>None\<close>.
\<close>

definition MAX_TARGET_DISKS :: nat where "MAX_TARGET_DISKS = 16"
definition FSYNC_BLOCK_INTERVAL :: u64 where "FSYNC_BLOCK_INTERVAL = 2000"

type_synonym disk_image = "nat \<Rightarrow> byte"

datatype write_outcome = Writes nat | WriteEintr | WriteFails

record target_disk_t =
  d_fd :: int
  d_path :: string
  d_registered :: bool

record disk_env =
  de_seekable :: "int \<Rightarrow> u64 \<Rightarrow> bool"
  de_fsync_ok :: "int \<Rightarrow> bool"

record block_writer =
  bw_disks :: "target_disk_t list"
  bw_total_blocks :: u64
  bw_total_bytes :: u64
  bw_blocks_since_fsync :: u64
  bw_pending_bytes :: u64
  bw_files :: "int \<Rightarrow> disk_image"
  bw_durable :: "int \<Rightarrow> disk_image"
  bw_script :: "write_outcome list"

definition block_writer_init :: "block_writer \<Rightarrow> int \<times> block_writer" where
  "block_writer_init g =
     (0, g\<lparr>bw_disks := replicate MAX_TARGET_DISKS \<lparr>d_fd = -1, d_path = '''', d_registered = False\<rparr>,
           bw_total_blocks := 0, bw_total_bytes := 0, bw_blocks_since_fsync := 0\<rparr>)"

definition block_writer_register :: "int \<Rightarrow> string \<Rightarrow> block_writer \<Rightarrow> int \<times> block_writer" where
  "block_writer_register devno filepath g =
     (if devno < 0 \<or> devno \<ge> int MAX_TARGET_DISKS then (-1, g)
      else (0, g\<lparr>bw_disks := (bw_disks g)[nat devno :=
                  (bw_disks g ! nat devno)\<lparr>d_path := take 511 filepath, d_registered := True\<rparr>]\<rparr>))"

text \<open>\<open>opened path\<close> is the descriptor \<open>open\<close> returns, negative for a failure.\<close>

fun open_loop :: "(string \<Rightarrow> int) \<Rightarrow> nat list \<Rightarrow> block_writer \<Rightarrow> int \<times> block_writer" where
  "open_loop opened [] g = (0, g)"
| "open_loop opened (i # is) g =
     (let d = bw_disks g ! i in
      if \<not> d_registered d then open_loop opened is g
      else
        let fd = opened (d_path d);
            g = g\<lparr>bw_disks := (bw_disks g)[i := d\<lparr>d_fd := fd\<rparr>]\<rparr>
        in if fd < 0 then (-1, g) else open_loop opened is g)"

definition block_writer_open_all :: "(string \<Rightarrow> int) \<Rightarrow> block_writer \<Rightarrow> int \<times> block_writer" where
  "block_writer_open_all opened g = open_loop opened [0..<MAX_TARGET_DISKS] g"

definition fsync_fd :: "disk_env \<Rightarrow> int \<Rightarrow> block_writer \<Rightarrow> int \<times> block_writer" where
  "fsync_fd env fd g =
     (if de_fsync_ok env fd then (0, g\<lparr>bw_durable := (bw_durable g)(fd := bw_files g fd)\<rparr>)
      else (-1, g))"

fun fsync_loop :: "disk_env \<Rightarrow> int \<Rightarrow> nat list \<Rightarrow> block_writer \<Rightarrow> int \<times> block_writer" where
  "fsync_loop env rc [] g = (rc, g)"
| "fsync_loop env rc (i # is) g =
     (let fd = d_fd (bw_disks g ! i) in
      if fd \<ge> 0 then
        let (r, g) = fsync_fd env fd g in fsync_loop env (if r < 0 then -1 else rc) is g
      else fsync_loop env rc is g)"

definition block_writer_fsync_all :: "disk_env \<Rightarrow> block_writer \<Rightarrow> int \<times> block_writer" where
  "block_writer_fsync_all env g = fsync_loop env 0 [0..<MAX_TARGET_DISKS] g"

fun close_loop :: "disk_env \<Rightarrow> nat list \<Rightarrow> block_writer \<Rightarrow> block_writer" where
  "close_loop env [] g = g"
| "close_loop env (i # is) g =
     (let d = bw_disks g ! i in
      if d_fd d \<ge> 0 then
        let g = snd (fsync_fd env (d_fd d) g)
        in close_loop env is (g\<lparr>bw_disks := (bw_disks g)[i := d\<lparr>d_fd := -1\<rparr>]\<rparr>)
      else close_loop env is g)"

definition block_writer_close_all :: "disk_env \<Rightarrow> block_writer \<Rightarrow> block_writer" where
  "block_writer_close_all env g = close_loop env [0..<MAX_TARGET_DISKS] g"

text \<open>The effect of a write of \<open>bs\<close> at address \<open>pos\<close>.\<close>

definition image_write :: "nat \<Rightarrow> bytes \<Rightarrow> disk_image \<Rightarrow> disk_image" where
  "image_write pos bs f = (\<lambda>a. if pos \<le> a \<and> a < pos + length bs then bs ! (a - pos) else f a)"

fun write_loop :: "write_outcome list \<Rightarrow> int \<Rightarrow> nat \<Rightarrow> bytes \<Rightarrow> nat \<Rightarrow> block_writer \<Rightarrow> (int \<times> block_writer) option"
where
  "write_loop script fd off data written g =
     (if written < length data then
        (case script of
           [] \<Rightarrow> None
         | WriteEintr # s \<Rightarrow> write_loop s fd off data written g
         | WriteFails # s \<Rightarrow> Some (-1, g\<lparr>bw_script := s\<rparr>)
         | Writes k # s \<Rightarrow>
             (let bs = take k (drop written data) in
              write_loop s fd off data (written + length bs)
                (g\<lparr>bw_files := (bw_files g)(fd := image_write (off + written) bs (bw_files g fd))\<rparr>)))
      else Some (0, g\<lparr>bw_script := script\<rparr>))"

declare write_loop.simps [simp del]

definition block_writer_write ::
  "disk_env \<Rightarrow> u32 \<Rightarrow> u64 \<Rightarrow> bytes \<Rightarrow> u32 \<Rightarrow> block_writer \<Rightarrow> (int \<times> block_writer) option" where
  "block_writer_write env devno off data len g =
     (if sint devno < 0 \<or> sint devno \<ge> int MAX_TARGET_DISKS \<or> \<not> d_registered (bw_disks g ! unat devno)
      then Some (-1, g)
      else
        let fd = d_fd (bw_disks g ! unat devno) in
        if fd < 0 then Some (-1, g)
        else if \<not> de_seekable env fd off then Some (-1, g)
        else case write_loop (bw_script g) fd (unat off) (take (unat len) data) 0 g of
          None \<Rightarrow> None
        | Some (rc, g) \<Rightarrow>
            if rc < 0 then Some (-1, g)
            else
              let g = g\<lparr>bw_total_blocks := bw_total_blocks g + 1,
                        bw_total_bytes := bw_total_bytes g + ucast len,
                        bw_pending_bytes := bw_pending_bytes g + ucast len,
                        bw_blocks_since_fsync := bw_blocks_since_fsync g + 1\<rparr>
              in if bw_blocks_since_fsync g \<ge> FSYNC_BLOCK_INTERVAL
                 then Some (0, (snd (block_writer_fsync_all env g))\<lparr>bw_blocks_since_fsync := 0\<rparr>)
                 else Some (0, g))"

definition block_writer_has_registered :: "block_writer \<Rightarrow> bool" where
  "block_writer_has_registered g = list_ex d_registered (bw_disks g)"

definition block_writer_total_blocks :: "block_writer \<Rightarrow> u64" where
  "block_writer_total_blocks g = bw_total_blocks g"

definition block_writer_total_bytes :: "block_writer \<Rightarrow> u64" where
  "block_writer_total_bytes g = bw_total_bytes g"

definition block_writer_pending_bytes :: "block_writer \<Rightarrow> u64 \<times> block_writer" where
  "block_writer_pending_bytes g = (bw_pending_bytes g, g\<lparr>bw_pending_bytes := 0\<rparr>)"

section \<open>Writing\<close>

lemma image_write_join:
  "image_write (pos + length bs) cs (image_write pos bs f) = image_write pos (bs @ cs) f"
  by (auto simp: image_write_def nth_append fun_eq_iff)

lemma image_write_nil [simp]: "image_write pos [] f = f"
  by (rule ext) (auto simp: image_write_def)

lemma write_nothing:
  "g\<lparr>bw_files := (bw_files g)(fd := image_write pos (take 0 xs) (bw_files g fd)), bw_script := s\<rparr> = g\<lparr>bw_script := s\<rparr>"
  by simp

lemma image_write_same: "a < length bs \<Longrightarrow> image_write pos bs f (pos + a) = bs ! a"
  by (simp add: image_write_def)

lemma image_write_other: "a < pos \<or> pos + length bs \<le> a \<Longrightarrow> image_write pos bs f a = f a"
  by (auto simp: image_write_def)

lemma write_loop_done [simp]:
  "length data \<le> written \<Longrightarrow> write_loop script fd off data written g = Some (0, g\<lparr>bw_script := script\<rparr>)"
  by (simp add: write_loop.simps [of script])

lemma write_loop_step [simp]:
  assumes "written < length data"
  shows "write_loop [] fd off data written g = None"
    and "write_loop (WriteEintr # s) fd off data written g = write_loop s fd off data written g"
    and "write_loop (WriteFails # s) fd off data written g = Some (-1, g\<lparr>bw_script := s\<rparr>)"
    and "write_loop (Writes k # s) fd off data written g =
      write_loop s fd off data (written + length (take k (drop written data)))
        (g\<lparr>bw_files := (bw_files g)(fd := image_write (off + written) (take k (drop written data)) (bw_files g fd))\<rparr>)"
  using assms
  by (simp_all add: write_loop.simps [of "[]"] write_loop.simps [of "WriteEintr # s"]
      write_loop.simps [of "WriteFails # s"] write_loop.simps [of "Writes k # s"] Let_def)

text \<open>Whatever the short writes, the file holds a prefix of the data, all of it on success, and
  nothing else of the writer's state changes.\<close>

lemma write_loop_result:
  assumes "write_loop script fd off data written g = Some (rc, g')" "written \<le> length data"
  shows "\<exists>n s. g' = g\<lparr>bw_files := (bw_files g)(fd := image_write (off + written) (take n (drop written data)) (bw_files g fd)),
      bw_script := s\<rparr> \<and> (rc = 0 \<and> n = length data - written \<or> rc = -1 \<and> n < length data - written)"
  using assms
proof (induction script arbitrary: written g)
  case Nil
  then show ?case
    by (cases "written < length data")
      (auto simp: write_nothing intro!: exI [of _ 0] exI [of _ "[]"])
next
  case (Cons x s)
  show ?case
  proof (cases "written < length data")
    case False
    with Cons.prems show ?thesis
      by (intro exI [of _ 0] exI [of _ "x # s"]) (auto simp: write_nothing)
  next
    case True
    show ?thesis
    proof (cases x)
      case (Writes k)
      let ?bs = "take k (drop written data)"
      let ?g = "g\<lparr>bw_files := (bw_files g)(fd := image_write (off + written) ?bs (bw_files g fd))\<rparr>"
      have rec: "write_loop s fd off data (written + length ?bs) ?g = Some (rc, g')"
        using Cons.prems True Writes by simp
      have le: "written + length ?bs \<le> length data" using True by simp
      from Cons.IH [OF rec le] obtain n s' where
        g': "g' = ?g\<lparr>bw_files := (bw_files ?g)(fd := image_write (off + (written + length ?bs))
               (take n (drop (written + length ?bs) data)) (bw_files ?g fd)), bw_script := s'\<rparr>"
        and rc: "rc = 0 \<and> n = length data - (written + length ?bs) \<or> rc = -1 \<and> n < length data - (written + length ?bs)"
        by blast
      have "take (length ?bs + n) (drop written data) = ?bs @ take n (drop (written + length ?bs) data)"
        by (simp only: take_add take_length_take drop_drop add.commute [of "length ?bs" written])
      then have "g' = g\<lparr>bw_files := (bw_files g)(fd := image_write (off + written)
          (take (length ?bs + n) (drop written data)) (bw_files g fd)), bw_script := s'\<rparr>"
        using g' image_write_join [of "off + written" ?bs] by (simp add: add.assoc)
      moreover have "rc = 0 \<and> length ?bs + n = length data - written \<or> rc = -1 \<and> length ?bs + n < length data - written"
        using rc le by linarith
      ultimately show ?thesis by blast
    next
      case WriteEintr
      then have "write_loop s fd off data written g = Some (rc, g')"
        using Cons.prems True by simp
      from Cons.IH [OF this Cons.prems(2)] show ?thesis .
    next
      case WriteFails
      with Cons.prems True show ?thesis
        by (intro exI [of _ 0] exI [of _ s]) (auto simp: write_nothing)
    qed
  qed
qed

section \<open>Flushing\<close>

text \<open>The durable contents after flushing the disks with index in \<open>is\<close>.\<close>

definition synced :: "disk_env \<Rightarrow> block_writer \<Rightarrow> nat set \<Rightarrow> int \<Rightarrow> disk_image" where
  "synced env g I fd =
     (if fd \<ge> 0 \<and> de_fsync_ok env fd \<and> fd \<in> (\<lambda>i. d_fd (bw_disks g ! i)) ` I
      then bw_files g fd else bw_durable g fd)"

lemma fsync_loop_result:
  "fsync_loop env rc is g =
    (if \<exists>i \<in> set is. d_fd (bw_disks g ! i) \<ge> 0 \<and> \<not> de_fsync_ok env (d_fd (bw_disks g ! i)) then -1 else rc,
     g\<lparr>bw_durable := synced env g (set is)\<rparr>)"
proof (induction "is" arbitrary: rc g)
  case Nil
  have "synced env g {} = bw_durable g" by (rule ext) (simp add: synced_def)
  then show ?case by simp
next
  case (Cons i "is")
  let ?fd = "d_fd (bw_disks g ! i)"
  show ?case
  proof (cases "?fd \<ge> 0 \<and> de_fsync_ok env ?fd")
    case True
    let ?g = "g\<lparr>bw_durable := (bw_durable g)(?fd := bw_files g ?fd)\<rparr>"
    have "synced env ?g (set is) = synced env g (set (i # is))"
      using True by (intro ext) (auto simp: synced_def)
    with True Cons.IH [of rc ?g] show ?thesis by (simp add: fsync_fd_def Let_def)
  next
    case False
    have "synced env g (set is) = synced env g (set (i # is))"
      using False by (intro ext) (auto simp: synced_def)
    with False Cons.IH [of _ g] show ?thesis by (auto simp: fsync_fd_def Let_def)
  qed
qed

lemma fsync_all_result:
  "block_writer_fsync_all env g =
    (if \<exists>i < MAX_TARGET_DISKS. d_fd (bw_disks g ! i) \<ge> 0 \<and> \<not> de_fsync_ok env (d_fd (bw_disks g ! i)) then -1 else 0,
     g\<lparr>bw_durable := synced env g {..<MAX_TARGET_DISKS}\<rparr>)"
  by (auto simp: block_writer_fsync_all_def fsync_loop_result atLeast0LessThan)

section \<open>Properties\<close>

text \<open>The statistics step at the end of a successful write.\<close>

definition after_write :: "disk_env \<Rightarrow> u32 \<Rightarrow> block_writer \<Rightarrow> block_writer" where
  "after_write env len g =
     (let g = g\<lparr>bw_total_blocks := bw_total_blocks g + 1,
                bw_total_bytes := bw_total_bytes g + ucast len,
                bw_pending_bytes := bw_pending_bytes g + ucast len,
                bw_blocks_since_fsync := bw_blocks_since_fsync g + 1\<rparr>
      in if bw_blocks_since_fsync g \<ge> FSYNC_BLOCK_INTERVAL
         then (snd (block_writer_fsync_all env g))\<lparr>bw_blocks_since_fsync := 0\<rparr>
         else g)"

lemma after_write_frame:
  "bw_disks (after_write env len g) = bw_disks g" "bw_files (after_write env len g) = bw_files g"
  "bw_script (after_write env len g) = bw_script g"
  "bw_total_blocks (after_write env len g) = bw_total_blocks g + 1"
  "bw_total_bytes (after_write env len g) = bw_total_bytes g + ucast len"
  "bw_pending_bytes (after_write env len g) = bw_pending_bytes g + ucast len"
  by (simp_all add: after_write_def Let_def fsync_all_result)

lemma devno_index: "\<lbrakk>0 \<le> sint (devno :: u32); sint devno < int MAX_TARGET_DISKS\<rbrakk> \<Longrightarrow> unat devno < MAX_TARGET_DISKS"
proof -
  assume d: "0 \<le> sint devno" "sint devno < int MAX_TARGET_DISKS"
  have "uint devno = uint (of_int (sint devno) :: u32)" by simp
  also have "\<dots> = sint devno"
    using d by (simp only: uint_word_of_int_eq) (simp add: take_bit_int_eq_self MAX_TARGET_DISKS_def)
  finally show ?thesis using d by (simp add: unat_eq_nat_uint nat_less_iff)
qed

lemma block_writer_write_cases:
  assumes "block_writer_write env devno off data len g = Some (rc, g')"
  obtains (invalid) "sint devno < 0 \<or> sint devno \<ge> int MAX_TARGET_DISKS \<or> \<not> d_registered (bw_disks g ! unat devno)
      \<or> d_fd (bw_disks g ! unat devno) < 0 \<or> \<not> de_seekable env (d_fd (bw_disks g ! unat devno)) off"
      "rc = -1" "g' = g"
  | (failed) n s where "rc = -1" "n < length (take (unat len) data)"
      "g' = g\<lparr>bw_files := (bw_files g)(d_fd (bw_disks g ! unat devno) :=
         image_write (unat off) (take n (take (unat len) data)) (bw_files g (d_fd (bw_disks g ! unat devno)))), bw_script := s\<rparr>"
      "0 \<le> sint devno" "sint devno < int MAX_TARGET_DISKS" "d_fd (bw_disks g ! unat devno) \<ge> 0"
  | (written) s where "rc = 0" "0 \<le> sint devno" "sint devno < int MAX_TARGET_DISKS"
      "d_registered (bw_disks g ! unat devno)" "d_fd (bw_disks g ! unat devno) \<ge> 0"
      "g' = after_write env len (g\<lparr>bw_files := (bw_files g)(d_fd (bw_disks g ! unat devno) :=
         image_write (unat off) (take (unat len) data) (bw_files g (d_fd (bw_disks g ! unat devno)))), bw_script := s\<rparr>)"
proof -
  let ?fd = "d_fd (bw_disks g ! unat devno)" and ?bs = "take (unat len) data"
  let ?bad = "sint devno < 0 \<or> sint devno \<ge> int MAX_TARGET_DISKS \<or> \<not> d_registered (bw_disks g ! unat devno)
      \<or> ?fd < 0 \<or> \<not> de_seekable env ?fd off"
  show thesis
  proof (cases ?bad)
    case True
    then show thesis using assms invalid by (auto simp: block_writer_write_def Let_def split: if_splits)
  next
    case False
    then obtain rc1 g1 where w: "write_loop (bw_script g) ?fd (unat off) ?bs 0 g = Some (rc1, g1)"
      using assms by (auto simp: block_writer_write_def Let_def split: option.splits)
    from write_loop_result [OF w] obtain n s where
      g1: "g1 = g\<lparr>bw_files := (bw_files g)(?fd := image_write (unat off) (take n ?bs) (bw_files g ?fd)), bw_script := s\<rparr>"
      and n: "rc1 = 0 \<and> n = length ?bs \<or> rc1 = -1 \<and> n < length ?bs"
      by auto
    show thesis
    proof (cases "rc1 = 0")
      case True
      then have "n = length ?bs" using n by simp
      then have "take n ?bs = ?bs" by (simp only: take_all order_refl)
      moreover have "rc = 0 \<and> g' = after_write env len g1"
        using assms False w True by (auto simp: block_writer_write_def Let_def after_write_def split: if_splits)
      ultimately show thesis using written False g1 by auto
    next
      case rc1: False
      then have "rc = -1 \<and> g' = g1"
        using assms False w n by (auto simp: block_writer_write_def Let_def)
      then show thesis using failed False g1 n rc1 by auto
    qed
  qed
qed

text \<open>
  C22: what a block write does to the disks.  A write that succeeds puts exactly the block's
  bytes at its offset on the disk registered under its device number, through any sequence of
  short and interrupted writes, and counts the block; a write that fails leaves the
  counters alone and at most a prefix of the block at that place.  No write changes a byte
  outside the block's range or on another disk, and a device number that is negative, out of
  range or not registered is refused without any effect.
\<close>
theorem block_write_effect:
  assumes "block_writer_write env devno off data len g = Some (rc, g')"
    and "fd = d_fd (bw_disks g ! unat devno)" "bs = take (unat len) data"
  shows "bw_disks g' = bw_disks g \<and> (\<forall>fd'. fd' \<noteq> fd \<longrightarrow> bw_files g' fd' = bw_files g fd') \<and>
    (\<forall>a. a < unat off \<or> unat off + length bs \<le> a \<longrightarrow> bw_files g' fd a = bw_files g fd a) \<and>
    (if rc = 0 then 0 \<le> sint devno \<and> sint devno < int MAX_TARGET_DISKS \<and> d_registered (bw_disks g ! unat devno) \<and>
        bw_files g' fd = image_write (unat off) bs (bw_files g fd) \<and>
        block_writer_total_blocks g' = block_writer_total_blocks g + 1 \<and>
        block_writer_total_bytes g' = block_writer_total_bytes g + ucast len
     else rc = -1 \<and> (\<exists>n \<le> length bs. bw_files g' fd = image_write (unat off) (take n bs) (bw_files g fd)) \<and>
        block_writer_total_blocks g' = block_writer_total_blocks g \<and>
        block_writer_total_bytes g' = block_writer_total_bytes g)"
  using assms(1)
proof (cases rule: block_writer_write_cases)
  case invalid
  then show ?thesis by (auto intro!: exI [of _ 0] simp: fun_eq_iff)
next
  case (failed n s)
  then show ?thesis
    unfolding assms(2,3) [symmetric]
    by (auto simp: block_writer_total_blocks_def block_writer_total_bytes_def image_write_other intro!: exI [of _ n])
next
  case (written s)
  then show ?thesis
    unfolding assms(2,3) [symmetric]
    by (auto simp: block_writer_total_blocks_def block_writer_total_bytes_def image_write_other after_write_frame)
qed

text \<open>A writer with one open disk, for the witnesses.\<close>

definition sample_writer :: block_writer where
  "sample_writer = \<lparr>bw_disks = \<lparr>d_fd = 3, d_path = ''/tmp/d0'', d_registered = True\<rparr> #
       replicate 15 \<lparr>d_fd = -1, d_path = '''', d_registered = False\<rparr>,
     bw_total_blocks = 0, bw_total_bytes = 0, bw_blocks_since_fsync = 0, bw_pending_bytes = 0,
     bw_files = (\<lambda>_ _. 0), bw_durable = (\<lambda>_ _. 0), bw_script = [Writes 1, WriteEintr, Writes 9]\<rparr>"

definition sample_env :: disk_env where
  "sample_env = \<lparr>de_seekable = (\<lambda>_ off. 0 \<le> sint off), de_fsync_ok = (\<lambda>_. True)\<rparr>"

theorem block_write_effect_witness:
  "\<exists>g'. block_writer_write sample_env 0 10 [7, 8, 9] 3 sample_writer = Some (0, g') \<and>
     bw_files g' 3 = image_write 10 [7, 8, 9] (\<lambda>_. 0)"
proof -
  have "map_option fst (block_writer_write sample_env 0 10 [7, 8, 9] 3 sample_writer) = Some 0"
    by code_simp
  then obtain g' where "block_writer_write sample_env 0 10 [7, 8, 9] 3 sample_writer = Some (0, g')" by auto
  with block_write_effect [OF this refl refl] show ?thesis by (simp add: sample_writer_def)
qed

text \<open>
  C23: durability.  A flush changes no file, and when it returns 0 every open disk's contents
  are on stable storage.  Blocks are flushed at the latest when 2000 of them have been written:
  the number of blocks since the last flush stays below 2000, and the write that would reach
  it flushes, so that with working disks everything written so far is durable after it.
\<close>
theorem flush_durability:
  "(case block_writer_fsync_all env g of (rc, g') \<Rightarrow>
      bw_files g' = bw_files g \<and>
      (rc = 0 \<longrightarrow> (\<forall>i < MAX_TARGET_DISKS. d_fd (bw_disks g ! i) \<ge> 0 \<longrightarrow>
         bw_durable g' (d_fd (bw_disks g ! i)) = bw_files g (d_fd (bw_disks g ! i)))))
   \<and> (block_writer_write env devno off data len g = Some (rc, g') \<and> bw_blocks_since_fsync g < FSYNC_BLOCK_INTERVAL \<longrightarrow>
      bw_blocks_since_fsync g' < FSYNC_BLOCK_INTERVAL \<and>
      (rc = 0 \<and> bw_blocks_since_fsync g' = 0 \<and> (\<forall>fd. de_fsync_ok env fd) \<longrightarrow>
        (\<forall>i < MAX_TARGET_DISKS. d_fd (bw_disks g ! i) \<ge> 0 \<longrightarrow>
          bw_durable g' (d_fd (bw_disks g ! i)) = bw_files g' (d_fd (bw_disks g ! i)))))"
proof (intro conjI impI)
  show "case block_writer_fsync_all env g of (rc, g') \<Rightarrow> bw_files g' = bw_files g \<and>
      (rc = 0 \<longrightarrow> (\<forall>i < MAX_TARGET_DISKS. d_fd (bw_disks g ! i) \<ge> 0 \<longrightarrow>
         bw_durable g' (d_fd (bw_disks g ! i)) = bw_files g (d_fd (bw_disks g ! i))))"
    by (auto simp: fsync_all_result synced_def)
next
  assume w: "block_writer_write env devno off data len g = Some (rc, g') \<and> bw_blocks_since_fsync g < FSYNC_BLOCK_INTERVAL"
  have step: "bw_blocks_since_fsync (after_write env len h) =
      (if bw_blocks_since_fsync h + 1 < FSYNC_BLOCK_INTERVAL then bw_blocks_since_fsync h + 1 else 0)" for h
    by (auto simp: after_write_def Let_def dest: leD)
  show "bw_blocks_since_fsync g' < FSYNC_BLOCK_INTERVAL"
    using w [THEN conjunct1]
    by (cases rule: block_writer_write_cases) (use w step in \<open>auto simp: FSYNC_BLOCK_INTERVAL_def\<close>)
  have nz: "bw_blocks_since_fsync g + 1 \<noteq> 0"
  proof
    assume "bw_blocks_since_fsync g + 1 = 0"
    then have "bw_blocks_since_fsync g = -1" by (simp add: eq_neg_iff_add_eq_0)
    with w show False by (simp add: FSYNC_BLOCK_INTERVAL_def)
  qed
  assume z: "rc = 0 \<and> bw_blocks_since_fsync g' = 0 \<and> (\<forall>fd. de_fsync_ok env fd)"
  show "\<forall>i < MAX_TARGET_DISKS. d_fd (bw_disks g ! i) \<ge> 0 \<longrightarrow>
          bw_durable g' (d_fd (bw_disks g ! i)) = bw_files g' (d_fd (bw_disks g ! i))"
    using w [THEN conjunct1]
  proof (cases rule: block_writer_write_cases)
    case (written s)
    let ?h = "g\<lparr>bw_files := (bw_files g)(d_fd (bw_disks g ! unat devno) :=
         image_write (unat off) (take (unat len) data) (bw_files g (d_fd (bw_disks g ! unat devno)))), bw_script := s\<rparr>"
    have "FSYNC_BLOCK_INTERVAL \<le> bw_blocks_since_fsync g + 1"
      using z written(6) step [of ?h] nz by (auto split: if_splits simp: not_less)
    then have "bw_durable g' = synced env ?h {..<MAX_TARGET_DISKS}"
      using written(6) by (auto simp: after_write_def Let_def fsync_all_result synced_def fun_eq_iff)
    then show ?thesis using z written(6) by (auto simp: synced_def after_write_frame)
  qed (use z in auto)
qed

theorem flush_durability_witness:
  "bw_durable (snd (block_writer_fsync_all sample_env (sample_writer\<lparr>bw_files := (\<lambda>_ _. 7)\<rparr>))) 3 = (\<lambda>_. 7)"
proof -
  let ?g = "sample_writer\<lparr>bw_files := (\<lambda>_ _. 7)\<rparr>"
  have "fst (block_writer_fsync_all sample_env ?g) = 0"
    by (auto simp: fsync_all_result sample_env_def)
  moreover have "d_fd (bw_disks ?g ! 0) = 3" "0 < MAX_TARGET_DISKS"
    by (simp_all add: sample_writer_def MAX_TARGET_DISKS_def)
  ultimately show ?thesis
    using flush_durability [where env = sample_env and g = ?g, THEN conjunct1] by (auto split: prod.splits)
qed

end
