(* ===== verification/Config.thy ===== *)
theory Config
  imports Block_Writer
begin

text \<open>
  Configuration: the C string functions the program uses, the field readers of the two
  \<^verbatim>\<open>main.c\<close> files (they search the text, they do not parse JSON), the start-up of the receiver
  (\<^verbatim>\<open>server/main.c\<close>, \<open>main\<close>), the command line target and the skip lists of the client
  (\<^verbatim>\<open>client/main.c\<close>).

  A C string is the list of its characters before the terminating NUL; a pointer into a string is
  the suffix it points to, NULL is \<open>None\<close>.  \<open>atoi\<close> returns the integer written in the text; a number
  that does not fit an \<open>int\<close> is undefined behaviour in C and no statement relies on it.
\<close>

section \<open>C strings\<close>

definition QUOTE :: char where "QUOTE = CHR 0x22"
definition TAB :: char where "TAB = CHR 0x09"
definition NEWLINE :: char where "NEWLINE = CHR 0x0A"

definition strchr :: "string \<Rightarrow> char \<Rightarrow> string option" where
  "strchr s c = (case dropWhile (\<lambda>x. x \<noteq> c) s of [] \<Rightarrow> None | p \<Rightarrow> Some p)"

fun strstr :: "string \<Rightarrow> string \<Rightarrow> string option" where
  "strstr s t =
     (if take (length t) s = t then Some s
      else case s of [] \<Rightarrow> None | c # cs \<Rightarrow> strstr cs t)"

declare strstr.simps [simp del]

definition is_digit :: "char \<Rightarrow> bool" where
  "is_digit c \<longleftrightarrow> 48 \<le> (of_char c :: nat) \<and> (of_char c :: nat) \<le> 57"

definition digit_val :: "char \<Rightarrow> nat" where
  "digit_val c = of_char c - 48"

definition is_space :: "char \<Rightarrow> bool" where
  "is_space c \<longleftrightarrow> c = CHR '' '' \<or> (9 \<le> (of_char c :: nat) \<and> (of_char c :: nat) \<le> 13)"

definition digits_val :: "string \<Rightarrow> nat" where
  "digits_val s = fold (\<lambda>c n. 10 * n + digit_val c) s 0"

definition atoi :: "string \<Rightarrow> int" where
  "atoi s =
     (case dropWhile is_space s of
        [] \<Rightarrow> 0
      | c # cs \<Rightarrow>
          if c = CHR ''-'' then - int (digits_val (takeWhile is_digit cs))
          else if c = CHR ''+'' then int (digits_val (takeWhile is_digit cs))
          else int (digits_val (takeWhile is_digit (c # cs))))"

text \<open>The conversion \<open>%d\<close>, and \<open>snprintf\<close> into a buffer of \<open>n\<close> bytes.\<close>

fun dec :: "nat \<Rightarrow> string" where
  "dec n = (if n < 10 then [char_of (48 + n)] else dec (n div 10) @ [char_of (48 + n mod 10)])"

declare dec.simps [simp del]

definition fmt_d :: "int \<Rightarrow> string" where
  "fmt_d i = (if i < 0 then CHR ''-'' # dec (nat (- i)) else dec (nat i))"

definition snprintf :: "nat \<Rightarrow> string \<Rightarrow> string" where
  "snprintf n s = take (n - 1) s"

section \<open>Field readers\<close>

definition JSON_MAX_KEY :: nat where "JSON_MAX_KEY = 64"

definition json_search :: "string \<Rightarrow> string" where
  "json_search key = snprintf (JSON_MAX_KEY + 8) (QUOTE # key @ [QUOTE])"

definition json_sep :: "char \<Rightarrow> bool" where
  "json_sep c \<longleftrightarrow> c = CHR '':'' \<or> c = CHR '' '' \<or> c = TAB \<or> c = NEWLINE"

text \<open>The text after the first \<open>:\<close> that follows \<open>p\<close>, past separators; and a quoted string there.\<close>

definition json_value :: "string \<Rightarrow> string option" where
  "json_value p = map_option (dropWhile json_sep) (strchr p (CHR '':''))"

definition json_quoted :: "string \<Rightarrow> string option" where
  "json_quoted p =
     (case json_value p of
        Some (q # p) \<Rightarrow> if q \<noteq> QUOTE then None
                        else if strchr p QUOTE = None then None
                        else Some (takeWhile (\<lambda>c. c \<noteq> QUOTE) p)
      | _ \<Rightarrow> None)"

definition json_read_int :: "string \<Rightarrow> string \<Rightarrow> int \<Rightarrow> int" where
  "json_read_int json key default_val =
     (let search = json_search key in
      case strstr json search of
        None \<Rightarrow> default_val
      | Some p \<Rightarrow>
          (case json_value (drop (length search) p) of
             None \<Rightarrow> default_val
           | Some v \<Rightarrow> atoi v))"

definition json_read_str :: "string \<Rightarrow> string \<Rightarrow> nat \<Rightarrow> string option" where
  "json_read_str json key out_len =
     (let search = json_search key in
      case strstr json search of
        None \<Rightarrow> None
      | Some p \<Rightarrow> map_option (take (out_len - 1)) (json_quoted (drop (length search) p)))"

text \<open>\<open>json_nav\<close> of the receiver.\<close>

definition server_json_nav :: "string \<Rightarrow> string \<Rightarrow> string option" where
  "server_json_nav json parent =
     (case strstr json (json_search parent) of
        None \<Rightarrow> None
      | Some p \<Rightarrow> strchr (drop (length (json_search parent)) p) (CHR ''{''))"

text \<open>\<open>json_nav\<close> of the client, which looks at the character before the match.\<close>

definition ident_char :: "char \<Rightarrow> bool" where
  "ident_char c \<longleftrightarrow> (97 \<le> (of_char c :: nat) \<and> (of_char c :: nat) \<le> 122) \<or>
     (65 \<le> (of_char c :: nat) \<and> (of_char c :: nat) \<le> 90) \<or> c = CHR ''_''"

fun nav_from :: "string \<Rightarrow> char option \<Rightarrow> string \<Rightarrow> string option" where
  "nav_from search prev p =
     (if take (length search) p = search \<and> (case prev of None \<Rightarrow> True | Some c \<Rightarrow> \<not> ident_char c)
      then strchr (drop (length search) p) (CHR ''{'')
      else case p of [] \<Rightarrow> None | c # cs \<Rightarrow> nav_from search (Some c) cs)"

declare nav_from.simps [simp del]

definition json_nav :: "string \<Rightarrow> string \<Rightarrow> string option" where
  "json_nav json parent = nav_from (json_search parent) None json"

section \<open>Start-up of the receiver\<close>

record server_config_t =
  cfg_address :: string
  cfg_port :: "16 word"
  cfg_max_connections :: int

definition parse_listen :: "string option \<Rightarrow> server_config_t" where
  "parse_listen config_json =
     (let cfg = \<lparr>cfg_address = ''0.0.0.0'', cfg_port = 3389, cfg_max_connections = 7\<rparr> in
      case config_json of
        None \<Rightarrow> cfg
      | Some json \<Rightarrow>
          (case server_json_nav json ''Listen'' of
             None \<Rightarrow> cfg
           | Some sec \<Rightarrow>
               let cfg = (case json_read_str sec ''Address'' 64 of
                            None \<Rightarrow> cfg | Some a \<Rightarrow> cfg\<lparr>cfg_address := snprintf 64 a\<rparr>)
               in cfg\<lparr>cfg_port := of_int (json_read_int sec ''Port'' 3389),
                      cfg_max_connections := json_read_int sec ''MaxConnections'' 7\<rparr>))"

fun register_disks :: "string \<Rightarrow> nat list \<Rightarrow> block_writer \<Rightarrow> block_writer" where
  "register_disks disks_section [] g = g"
| "register_disks disks_section (i # is) g =
     (let key = snprintf 16 (QUOTE # fmt_d (int i) @ [QUOTE]) in
      case strstr disks_section key of
        None \<Rightarrow> g
      | Some p \<Rightarrow>
          (case json_quoted (drop (length key) p) of
             None \<Rightarrow> register_disks disks_section is g
           | Some path \<Rightarrow>
               register_disks disks_section is (snd (block_writer_register (int i) (take 511 path) g))))"

definition setup_disks :: "string option \<Rightarrow> block_writer \<Rightarrow> block_writer" where
  "setup_disks config_json g =
     (let g = snd (block_writer_init g);
          g = (case config_json of
                 None \<Rightarrow> g
               | Some json \<Rightarrow>
                   (case server_json_nav json ''Target'' of
                      None \<Rightarrow> g
                    | Some target \<Rightarrow>
                        (case server_json_nav target ''Disks'' of
                           None \<Rightarrow> g
                         | Some sec \<Rightarrow> register_disks sec [0..<MAX_TARGET_DISKS] g)))
      in if \<not> block_writer_has_registered g
         then snd (block_writer_register 0 ''/tmp/receiver_disk0.img'' g) else g)"

section \<open>The client's target and skip lists\<close>

text \<open>\<open>ip:port\<close>; \<open>main\<close> replaces the port 0 by the default, \<open>cmd_incsync\<close> does not.\<close>

definition parse_target :: "bool \<Rightarrow> string \<Rightarrow> string \<times> 16 word" where
  "parse_target zero_is_default target =
     (let (ip, port) =
        (case strchr target (CHR '':'') of
           Some colon \<Rightarrow> (take 63 (takeWhile (\<lambda>c. c \<noteq> CHR '':'') target), of_int (atoi (tl colon)))
         | None \<Rightarrow> (take 63 target, 3389))
      in (ip, if zero_is_default \<and> port = 0 then 3389 else port))"

definition remote_id_of :: "string \<Rightarrow> 16 word \<Rightarrow> string" where
  "remote_id_of ip port = snprintf 256 (ip @ CHR '':'' # fmt_d (uint port))"

text \<open>The integer array of \<open>SkipDisks\<close>, at most \<open>n\<close> more entries.\<close>

fun skip_disk_list :: "nat \<Rightarrow> string \<Rightarrow> int list" where
  "skip_disk_list 0 sd = []"
| "skip_disk_list (Suc n) sd =
     (case dropWhile (\<lambda>c. c = CHR '' '' \<or> c = CHR '','') sd of
        [] \<Rightarrow> []
      | c # cs \<Rightarrow>
          if c = CHR '']'' then []
          else if \<not> is_digit c then []
          else atoi (c # cs) # skip_disk_list n (dropWhile is_digit (c # cs)))"

definition parse_skip_disks :: "string \<Rightarrow> int list" where
  "parse_skip_disks json =
     (if json_nav json ''Disks'' \<noteq> None then []
      else
        case strstr json (QUOTE # ''SkipDisks'' @ [QUOTE]) of
          None \<Rightarrow> []
        | Some sd \<Rightarrow> (case strchr sd (CHR ''['') of None \<Rightarrow> [] | Some p \<Rightarrow> skip_disk_list 16 (tl p)))"

definition skip_sep :: "char \<Rightarrow> bool" where
  "skip_sep c \<longleftrightarrow> c = CHR '' '' \<or> c = CHR '','' \<or> c = TAB"

lemma skip_loop_shrinks:
  assumes "dropWhile skip_sep p \<noteq> []"
  shows "length (dropWhile (\<lambda>c. \<not> skip_sep c) (dropWhile skip_sep p)) < length p"
proof -
  obtain c cs where s: "dropWhile skip_sep p = c # cs" using assms by (cases "dropWhile skip_sep p") auto
  then have "\<not> skip_sep c" using hd_dropWhile [OF assms] by simp
  then have "length (dropWhile (\<lambda>c. \<not> skip_sep c) (dropWhile skip_sep p)) \<le> length cs"
    using s length_dropWhile_le by simp
  also have "\<dots> < length (dropWhile skip_sep p)" by (simp add: s)
  also have "\<dots> \<le> length p" by (rule length_dropWhile_le)
  finally show ?thesis .
qed

function skip_loop :: "string \<Rightarrow> string \<Rightarrow> bool" where
  "skip_loop target p =
     (let start = dropWhile skip_sep p in
      if start = [] then False
      else
        let tok = takeWhile (\<lambda>c. \<not> skip_sep c) start in
        if 0 < length tok \<and> length tok < 32 \<and> take (length tok) target = tok \<and> length target \<le> length tok
        then True
        else skip_loop target (dropWhile (\<lambda>c. \<not> skip_sep c) start))"
  by pat_completeness auto

termination
  by (relation "measure (\<lambda>(target, p). length p)") (auto intro: skip_loop_shrinks)

declare skip_loop.simps [simp del]

definition partition_is_skipped :: "string option \<Rightarrow> int \<Rightarrow> int \<Rightarrow> bool" where
  "partition_is_skipped skip_str devno part_index =
     (case skip_str of
        None \<Rightarrow> False
      | Some s \<Rightarrow>
          if s = [] then False
          else skip_loop (snprintf 32 (fmt_d devno @ CHR '':'' # fmt_d part_index)) s)"

section \<open>Printing and reading numbers\<close>

lemma of_char_digit [simp]: "k < 10 \<Longrightarrow> (of_char (char_of (48 + k) :: char) :: nat) = 48 + k"
  by simp

lemma digit_char: "k < 10 \<Longrightarrow> is_digit (char_of (48 + k)) \<and> digit_val (char_of (48 + k)) = k"
  by (simp add: is_digit_def digit_val_def)

lemma dec_digits: "(\<forall>c \<in> set (dec n). is_digit c) \<and> dec n \<noteq> []"
proof (induction n rule: dec.induct)
  case (1 n)
  then show ?case using digit_char [of n] digit_char [of "n mod 10"] by (subst (1 2) dec.simps) auto
qed

lemma digits_val_snoc: "digits_val (s @ [c]) = 10 * digits_val s + digit_val c"
  by (simp add: digits_val_def)

lemma digits_val_dec: "digits_val (dec n) = n"
proof (induction n rule: dec.induct)
  case (1 n)
  then show ?case
    using digit_char [of n] digit_char [of "n mod 10"]
    by (subst dec.simps) (auto simp: digits_val_snoc digits_val_def [of "[_]"])
qed

lemma length_dec: "\<lbrakk>n < 10 ^ k; 0 < k\<rbrakk> \<Longrightarrow> length (dec n) \<le> k"
proof (induction n arbitrary: k rule: dec.induct)
  case (1 n)
  show ?case
  proof (cases "n < 10")
    case True
    then show ?thesis using "1.prems" by (subst dec.simps) simp
  next
    case False
    then have "k \<noteq> 1" using "1.prems" by auto
    then obtain j where j: "k = Suc j" "0 < j" using "1.prems"(2) by (cases k) auto
    then have "n div 10 < 10 ^ j" using "1.prems"(1) by (simp add: less_mult_imp_div_less mult.commute)
    then show ?thesis using "1.IH" [OF False _ j(2)] False j(1) by (subst dec.simps) simp
  qed
qed

lemma digit_not_special: "is_digit c \<Longrightarrow> c \<noteq> CHR ''-'' \<and> c \<noteq> CHR ''+'' \<and> c \<noteq> CHR '':'' \<and> \<not> is_space c \<and> \<not> skip_sep c \<and> \<not> json_sep c"
  by (auto simp: is_digit_def is_space_def skip_sep_def json_sep_def TAB_def NEWLINE_def)

lemma takeWhile_stop: "\<lbrakk>\<forall>c \<in> set s. P c; rest = [] \<or> \<not> P (hd rest)\<rbrakk> \<Longrightarrow> takeWhile P (s @ rest) = s \<and> dropWhile P (s @ rest) = rest"
  by (cases rest) (auto simp: takeWhile_append dropWhile_append)

lemma atoi_fmt_d: "rest = [] \<or> \<not> is_digit (hd rest) \<Longrightarrow> atoi (fmt_d i @ rest) = i"
proof -
  assume rest: "rest = [] \<or> \<not> is_digit (hd rest)"
  note tw = takeWhile_stop [OF conjunct1 [OF dec_digits] rest, THEN conjunct1]
  obtain c cs where n: "dec (nat i) = c # cs" "is_digit c"
    using dec_digits [of "nat i"] by (cases "dec (nat i)") auto
  then have c: "\<not> is_space c" "c \<noteq> CHR ''-''" "c \<noteq> CHR ''+''" using digit_not_special by blast+
  show ?thesis
  proof (cases "i < 0")
    case True
    then show ?thesis
      using tw [of "nat (- i)"] by (simp add: atoi_def fmt_d_def digits_val_dec is_space_def [of "CHR ''-''"])
  next
    case False
    have "dropWhile is_space (fmt_d i @ rest) = dec (nat i) @ rest" using False n c by (simp add: fmt_d_def)
    then have "atoi (fmt_d i @ rest) = int (digits_val (takeWhile is_digit (dec (nat i) @ rest)))"
      using n c by (simp add: atoi_def)
    then show ?thesis using False by (simp add: tw digits_val_dec)
  qed
qed

lemma fmt_d_inj: "fmt_d i = fmt_d j \<Longrightarrow> i = j"
  using atoi_fmt_d [of "[]" i] atoi_fmt_d [of "[]" j] by simp

lemma fmt_d_chars: "c \<in> set (fmt_d i) \<Longrightarrow> c \<noteq> CHR '':'' \<and> \<not> skip_sep c"
  using dec_digits digit_not_special by (auto simp: fmt_d_def skip_sep_def TAB_def split: if_splits)

lemma fmt_d_start: "\<exists>c cs. fmt_d i = c # cs \<and> \<not> json_sep c"
proof -
  have "\<exists>c cs. dec n = c # cs \<and> \<not> json_sep c" for n
    using dec_digits [of n] digit_not_special by (cases "dec n") auto
  then show ?thesis by (auto simp: fmt_d_def json_sep_def TAB_def NEWLINE_def)
qed

lemma length_fmt_d:
  assumes "- (2 ^ 31) \<le> i" "i < 2 ^ 31"
  shows "length (fmt_d i) \<le> 11"
proof -
  have "nat i < 10 ^ 10" "nat (- i) < 10 ^ 10" using assms by simp_all
  from length_dec [OF this(1)] length_dec [OF this(2)] show ?thesis by (simp add: fmt_d_def)
qed

section \<open>Reading a field back\<close>

lemma strstr_skip:
  "(\<forall>k < length pre. take (length t) (drop k (pre @ s)) \<noteq> t) \<Longrightarrow> strstr (pre @ s) t = strstr s t"
proof (induction pre)
  case (Cons c pre)
  have "take (length t) (c # pre @ s) \<noteq> t" using Cons.prems by (elim allE [of _ 0]) simp
  then have "strstr (c # pre @ s) t = strstr (pre @ s) t" by (subst strstr.simps) simp
  moreover have "\<forall>k < length pre. take (length t) (drop k (pre @ s)) \<noteq> t"
    using Cons.prems by (metis Suc_less_eq append_Cons drop_Suc_Cons length_Cons)
  ultimately show ?case using Cons.IH by simp
qed simp

lemma strstr_here [simp]: "strstr (t @ s) t = Some (t @ s)"
  by (subst strstr.simps) simp

lemma strchr_here: "c \<notin> set mid \<Longrightarrow> strchr (mid @ c # s) c = Some (c # s)"
  by (simp add: strchr_def dropWhile_append)

lemma json_value_here:
  assumes "CHR '':'' \<notin> set mid" "\<forall>c \<in> set seps. json_sep c" "\<not> json_sep c"
  shows "json_value (mid @ CHR '':'' # seps @ c # s) = Some (c # s)"
  using assms by (simp add: json_value_def strchr_here dropWhile_append json_sep_def [of "CHR '':''"])

text \<open>
  Reading an integer option.  In a text in which the quoted key occurs first after \<open>pre\<close> and is
  followed by a colon, any separators and a printed integer, \<open>json_read_int\<close> returns that integer;
  in a text without the quoted key it returns the default.
\<close>
theorem json_read_int_roundtrip:
  fixes pre mid seps rest :: string and v :: int
  assumes "length key \<le> 69"
  defines "txt \<equiv> pre @ json_search key @ mid @ CHR '':'' # seps @ fmt_d v @ rest"
  assumes "\<forall>k < length pre. take (length key + 2) (drop k txt) \<noteq> QUOTE # key @ [QUOTE]"
    and "CHR '':'' \<notin> set mid" "\<forall>c \<in> set seps. json_sep c" "rest = [] \<or> \<not> is_digit (hd rest)"
  shows "json_read_int txt key dflt = v \<and> (strstr other (json_search key) = None \<longrightarrow> json_read_int other key dflt = dflt)"
proof -
  have js: "json_search key = QUOTE # key @ [QUOTE]"
    using assms(1) by (simp add: json_search_def snprintf_def JSON_MAX_KEY_def)
  have "strstr txt (json_search key) = strstr (drop (length pre) txt) (json_search key)"
    using assms(3) strstr_skip [of pre "json_search key"] unfolding txt_def js by simp
  then have "strstr txt (json_search key) = Some (json_search key @ mid @ CHR '':'' # seps @ fmt_d v @ rest)"
    by (simp add: txt_def)
  moreover obtain c cs where "fmt_d v = c # cs" "\<not> json_sep c" using fmt_d_start by blast
  then have "json_value (mid @ CHR '':'' # seps @ fmt_d v @ rest) = Some (fmt_d v @ rest)"
    using json_value_here [OF assms(4,5)] by simp
  ultimately have "json_read_int txt key dflt = v"
    using atoi_fmt_d [OF assms(6)] by (simp add: json_read_int_def)
  then show ?thesis by (simp add: json_read_int_def)
qed

theorem json_read_int_roundtrip_witness:
  "json_read_int ([CHR 0x7b] @ json_search ''Port'' @ [] @ CHR '':'' # '' '' @ fmt_d 3390 @ [CHR 0x7d]) ''Port'' 1 = 3390"
  by (rule json_read_int_roundtrip [THEN conjunct1])
    (simp_all add: json_search_def snprintf_def JSON_MAX_KEY_def QUOTE_def json_sep_def is_digit_def)

section \<open>Skip lists\<close>

text \<open>The documented format of \<open>SkipPartitions\<close>: \<open>devno:part\<close> pairs separated by commas.\<close>

definition part_token :: "int \<times> int \<Rightarrow> string" where
  "part_token = (\<lambda>(d, p). fmt_d d @ CHR '':'' # fmt_d p)"

fun skip_text :: "(int \<times> int) list \<Rightarrow> string" where
  "skip_text [] = []"
| "skip_text [x] = part_token x"
| "skip_text (x # y # zs) = part_token x @ CHR '','' # skip_text (y # zs)"

definition int32 :: "int \<Rightarrow> bool" where
  "int32 i \<longleftrightarrow> - (2 ^ 31) \<le> i \<and> i < 2 ^ 31"

lemma part_token_inj: "part_token x = part_token y \<Longrightarrow> x = y"
proof -
  assume eq: "part_token x = part_token y"
  obtain d p d' p' where xy: "x = (d, p)" "y = (d', p')" by (cases x, cases y)
  have "\<forall>c \<in> set (fmt_d i). c \<noteq> CHR '':''" for i using fmt_d_chars by blast
  then have "takeWhile (\<lambda>c. c \<noteq> CHR '':'') (fmt_d i @ CHR '':'' # s) = fmt_d i \<and>
      dropWhile (\<lambda>c. c \<noteq> CHR '':'') (fmt_d i @ CHR '':'' # s) = CHR '':'' # s" for i s
    by (intro takeWhile_stop) simp_all
  then have "fmt_d d = fmt_d d'" "CHR '':'' # fmt_d p = CHR '':'' # fmt_d p'"
    using eq unfolding xy part_token_def prod.case by metis+
  then show ?thesis using xy fmt_d_inj by blast
qed

lemma part_token_chars: "(\<forall>c \<in> set (part_token x). \<not> skip_sep c) \<and> part_token x \<noteq> []"
  using fmt_d_chars by (cases x) (auto simp: part_token_def skip_sep_def TAB_def)

lemma length_part_token: "\<lbrakk>int32 (fst x); int32 (snd x)\<rbrakk> \<Longrightarrow> length (part_token x) < 32"
  using length_fmt_d [of "fst x"] length_fmt_d [of "snd x"] by (cases x) (simp add: part_token_def int32_def)

lemma skip_loop_token:
  assumes "\<forall>c \<in> set tok. \<not> skip_sep c" "tok \<noteq> []" "length tok < 32" "rest = [] \<or> skip_sep (hd rest)"
  shows "skip_loop target (tok @ rest) \<longleftrightarrow> target = tok \<or> skip_loop target rest"
proof -
  have "dropWhile skip_sep (tok @ rest) = tok @ rest" using assms(1,2) by (cases tok) auto
  moreover have "takeWhile (\<lambda>c. \<not> skip_sep c) (tok @ rest) = tok \<and> dropWhile (\<lambda>c. \<not> skip_sep c) (tok @ rest) = rest"
    using assms(1,4) by (intro takeWhile_stop) auto
  ultimately show ?thesis
    using assms(2,3) by (subst skip_loop.simps) (auto simp: Let_def)
qed

lemma skip_loop_sep: "skip_sep c \<Longrightarrow> skip_loop target (c # rest) = skip_loop target rest"
  by (subst (1 2) skip_loop.simps) simp

lemma skip_loop_Nil: "\<not> skip_loop target []"
  by (subst skip_loop.simps) simp

lemma skip_loop_text:
  assumes "\<forall>x \<in> set xs. length (part_token x) < 32"
  shows "skip_loop target (skip_text xs) \<longleftrightarrow> target \<in> part_token ` set xs"
  using assms
proof (induction xs rule: skip_text.induct)
  case (2 x)
  then show ?case
    using skip_loop_token [of "part_token x" "[]"] part_token_chars [of x] by (simp add: skip_loop_Nil)
next
  case (3 x y zs)
  have "skip_loop target (skip_text (x # y # zs)) \<longleftrightarrow> target = part_token x \<or> skip_loop target (CHR '','' # skip_text (y # zs))"
    using skip_loop_token [of "part_token x" "CHR '','' # skip_text (y # zs)"] part_token_chars [of x] "3.prems"
    by (simp add: skip_sep_def)
  then show ?case using 3 by (simp add: skip_loop_sep skip_sep_def)
qed (simp add: skip_loop_Nil)

text \<open>
  Skipped partitions.  When \<open>SkipPartitions\<close> is a comma separated list of \<open>devno:part\<close> pairs of
  \<open>int\<close> values, \<open>partition_is_skipped\<close> holds for exactly the listed partitions: a pair that is only
  a prefix or part of another token (0:1 and 0:12, or 1:2 inside 11:2) is not confused with it.
\<close>
theorem partition_is_skipped_exact:
  assumes "\<forall>(d, p) \<in> set xs. int32 d \<and> int32 p" "int32 devno" "int32 part_index"
  shows "partition_is_skipped (Some (skip_text xs)) devno part_index \<longleftrightarrow> (devno, part_index) \<in> set xs"
proof -
  have len: "\<forall>x \<in> set xs. length (part_token x) < 32" using assms(1) by (auto intro!: length_part_token)
  have "length (part_token (devno, part_index)) < 32" using assms(2,3) by (intro length_part_token) simp_all
  then have "snprintf 32 (fmt_d devno @ CHR '':'' # fmt_d part_index) = part_token (devno, part_index)"
    by (simp add: snprintf_def part_token_def)
  moreover have "skip_text xs = [] \<longleftrightarrow> xs = []"
    using part_token_chars by (cases xs rule: skip_text.cases) auto
  moreover have "inj part_token" by (rule injI) (rule part_token_inj)
  then have "part_token (devno, part_index) \<in> part_token ` set xs \<longleftrightarrow> (devno, part_index) \<in> set xs"
    by (rule inj_image_mem_iff)
  ultimately show ?thesis
    using skip_loop_text [OF len, of "part_token (devno, part_index)"] by (auto simp: partition_is_skipped_def)
qed

theorem partition_is_skipped_exact_witness:
  "\<not> partition_is_skipped (Some (skip_text [(0, 12), (11, 2)])) 0 1"
  by (subst partition_is_skipped_exact) (simp_all add: int32_def)

section \<open>Registering the target disks\<close>

lemma register_keeps_length: "length (bw_disks (snd (block_writer_register i p g))) = length (bw_disks g)"
  by (simp add: block_writer_register_def)

text \<open>
  The target disks of the configuration have to be numbered from 0 without a gap.  The
  registration stops at the first number that is missing, so whatever other disks the section
  lists, a section without disk 0 registers none of them and the receiver falls back to the
  default image as disk 0.
\<close>
theorem missing_disk0_ignores_all:
  assumes "server_json_nav json ''Target'' = Some target" "server_json_nav target ''Disks'' = Some sec"
    and "strstr sec [QUOTE, CHR ''0'', QUOTE] = None"
  shows "bw_disks (setup_disks (Some json) g) =
    \<lparr>d_fd = -1, d_path = ''/tmp/receiver_disk0.img'', d_registered = True\<rparr>
      # replicate 15 \<lparr>d_fd = -1, d_path = '''', d_registered = False\<rparr>"
proof -
  have key: "snprintf 16 (QUOTE # fmt_d 0 @ [QUOTE]) = [QUOTE, CHR ''0'', QUOTE]"
    by code_simp
  have r: "[0..<MAX_TARGET_DISKS] = 0 # [1..<MAX_TARGET_DISKS]"
    by (simp add: MAX_TARGET_DISKS_def upt_rec)
  have stop: "register_disks sec [0..<MAX_TARGET_DISKS] h = h" for h
    unfolding r using key assms(3) by (simp add: Let_def)
  let ?h = "snd (block_writer_init g)"
  have "\<not> block_writer_has_registered ?h"
    by (simp add: block_writer_has_registered_def block_writer_init_def list_ex_iff)
  then have "setup_disks (Some json) g = snd (block_writer_register 0 ''/tmp/receiver_disk0.img'' ?h)"
    by (simp add: setup_disks_def assms(1,2) stop Let_def)
  then show ?thesis
    by (simp add: block_writer_register_def block_writer_init_def MAX_TARGET_DISKS_def numeral_eq_Suc)
qed

definition sample_json :: string where
  "sample_json = [CHR 0x7b, QUOTE] @ ''Target'' @ [QUOTE, CHR '':'', CHR 0x7b, QUOTE] @ ''Disks'' @ [QUOTE, CHR '':'', CHR 0x7b, QUOTE]
     @ ''1'' @ [QUOTE, CHR '':'', QUOTE] @ ''/dev/sdb'' @ [QUOTE, CHR 0x7d, CHR 0x7d, CHR 0x7d]"

theorem missing_disk0_ignores_all_witness:
  "d_path (bw_disks (setup_disks (Some sample_json) \<lparr>bw_disks = [], bw_total_blocks = 0, bw_total_bytes = 0,
     bw_blocks_since_fsync = 0, bw_pending_bytes = 0, bw_files = \<lambda>_ _. 0, bw_durable = \<lambda>_ _. 0, bw_script = []\<rparr>) ! 1) = ''''"
proof -
  have 1: "server_json_nav sample_json ''Target'' = Some (drop 10 sample_json)" by code_simp
  have 2: "server_json_nav (drop 10 sample_json) ''Disks'' = Some (drop 19 sample_json)" by code_simp
  have 3: "strstr (drop 19 sample_json) [QUOTE, CHR ''0'', QUOTE] = None" by code_simp
  show ?thesis by (subst missing_disk0_ignores_all [OF 1 2 3]) simp
qed

end
