(* ===== verification/Block_Transfer.thy ===== *)
theory Block_Transfer
  imports "HOL-Library.Multiset" Block_Db Block_Hash Conn_Pool Send_Queue Timer Msgpack_Enc Wire Disk_Io Config
begin

text \<open>
  The client's transfer of blocks, \<^verbatim>\<open>client/main.c\<close>: \<open>process_ack\<close>, \<open>send_block\<close>, \<open>flush_one\<close>,
  \<open>do_retransmit\<close>, \<open>do_reconnect\<close> and \<open>shuffle_blocks\<close>.

  The state \<open>client\<close> is the migration context (\<open>migrate_ctx_t\<close>) extended with its environment.  What
  the outside answers is given by functions of a counter \<open>x_tick\<close> that every question advances: the
  clock, the flag \<open>g_running\<close>, the SQL engine, \<open>malloc\<close>, \<open>connect\<close>, \<open>rand\<close> and the source disks
  (whose contents may thus change from read to read).  \<open>x_socks\<close> and \<open>x_rx\<close> are the two
  directions of every socket.  \<open>ctx->db\<close> and the parameter \<open>db\<close> are the same object in every call, so
  the model has it once; \<open>Sleep\<close> and logging change no state.  A function that can fail to return
  (a send that spins on a full socket, a loop without exit) has an \<open>option\<close> result, \<open>None\<close> for not
  returning; a payload pointer that is NULL when it is sent, and locking the mutex of a pool that was
  not initialised, are crashes and \<open>None\<close> as well.
\<close>

section \<open>State\<close>

record migrate_ctx_t =
  m_server_ip :: string
  m_server_port :: "16 word"
  m_zstd_level :: int
  m_skip_disks :: "int list"
  m_tail_send :: bool
  m_db :: sqlite_db
  m_pool :: socket_pool_t
  m_queue :: send_queue_t
  m_timer :: timer_mgr_t
  m_writer :: msgpack_writer
  m_all_done :: bool
  m_ctl_end_sent :: bool
  m_server_done_rcvd :: bool
  m_inc_round :: int
  m_inc_version :: int
  m_zero_change_rounds :: int
  m_dry_run :: bool
  m_rate_limit_mb :: int
  m_rate_bytes_sent :: u64
  m_rate_window_start :: u64
  m_total_blocks :: u64

record client = migrate_ctx_t +
  x_tick :: nat
  x_clock :: "nat \<Rightarrow> u64"
  x_time :: "nat \<Rightarrow> int"
  x_running :: "nat \<Rightarrow> bool"
  x_sql :: "nat \<Rightarrow> sql_outcome"
  x_alloc :: "nat \<Rightarrow> bool"
  x_net :: "nat \<Rightarrow> int option \<times> connect_outcome"
  x_rand :: "nat \<Rightarrow> nat"
  x_disk :: "nat \<Rightarrow> nat \<Rightarrow> u64 \<Rightarrow> u32 \<Rightarrow> bytes option"
  x_socks :: "int \<Rightarrow> sock"
  x_rx :: "int \<Rightarrow> recv_outcome list"

record reader_entry_t =
  re_reader :: block_reader
  re_live_reader :: "block_reader option"
  re_devno :: u32
  re_partition_offset :: u64
  re_block_count :: u64
  re_is_vss :: bool
  re_name :: string
  re_part_index :: nat
  re_sent_count :: u64

text \<open>Asking the environment one question.\<close>

definition ask :: "(client \<Rightarrow> nat \<Rightarrow> 'a) \<Rightarrow> client \<Rightarrow> 'a \<times> client" where
  "ask f s = (f s (x_tick s), s\<lparr>x_tick := x_tick s + 1\<rparr>)"

definition run_sql :: "(sql_outcome \<Rightarrow> sqlite_db \<Rightarrow> int \<times> sqlite_db) \<Rightarrow> client \<Rightarrow> client" where
  "run_sql stmt s = (let (eng, s) = ask x_sql s in s\<lparr>m_db := snd (stmt eng (m_db s))\<rparr>)"

definition mark_acked :: "u32 \<Rightarrow> u64 \<Rightarrow> client \<Rightarrow> client" where
  "mark_acked devno off = run_sql (\<lambda>eng db. sqlite_block_mark_acked eng db devno off)"

section \<open>Acknowledgements\<close>

text \<open>\<open>queue_ack\<close>, and unless the client is in tail mode the database.\<close>

definition ack_block :: "u32 \<Rightarrow> u64 \<Rightarrow> client \<Rightarrow> client" where
  "ack_block devno off s =
     (let s = s\<lparr>m_queue := queue_ack (m_queue s) devno off\<rparr>
      in if \<not> m_tail_send s then mark_acked devno off s else s)"

definition handle_response :: "server_response_t \<Rightarrow> client \<Rightarrow> client" where
  "handle_response resp s =
     (if r_type resp = RESPONSE_ACK \<or> r_type resp = RESPONSE_ACK_ALT then ack_block (r_devno resp) (r_offset resp) s
      else if r_type resp = RESPONSE_SERVER_DONE then s\<lparr>m_server_done_rcvd := True\<rparr>
      else s)"

fun rx_bytes :: "recv_outcome list \<Rightarrow> nat" where
  "rx_bytes [] = 0"
| "rx_bytes (Avail bs # rx) = length bs + rx_bytes rx"
| "rx_bytes (_ # rx) = rx_bytes rx"

lemma handle_response_rx [simp]: "x_rx (handle_response r s) = x_rx s"
  by (simp add: handle_response_def ack_block_def mark_acked_def run_sql_def ask_def Let_def)

lemma recv_ack_loop_bytes:
  "recv_ack_loop rx buf = (rc, buf', rx') \<Longrightarrow> rx_bytes rx' + length buf' \<le> rx_bytes rx + length buf"
proof (induction rx buf arbitrary: rc buf' rx' rule: recv_ack_loop.induct)
  case (1 rx buf)
  show ?case
  proof (cases "length buf < SERVER_RESPONSE_SIZE \<and> (\<exists>bs rx1. rx = Avail bs # rx1 \<and> bs \<noteq> [])")
    case True
    then obtain bs rx1 where rx: "rx = Avail bs # rx1" "bs \<noteq> []" and b: "length buf < SERVER_RESPONSE_SIZE" by blast
    let ?n = "min (SERVER_RESPONSE_SIZE - length buf) (length bs)"
    have n: "?n \<noteq> 0" "?n \<le> length bs" using rx(2) b by (auto simp: min_def)
    let ?rest = "if ?n < length bs then Avail (drop ?n bs) # rx1 else rx1"
    have "recv_ack_loop ?rest (buf @ take ?n bs) = (rc, buf', rx')"
      using "1.prems" b n(1) unfolding rx(1) by (subst (asm) recv_ack_loop.simps) (simp add: Let_def)
    then have "rx_bytes rx' + length buf' \<le> rx_bytes ?rest + length (buf @ take ?n bs)"
      by (rule "1.IH" [OF b rx(1) refl refl n(1)])
    also have "\<dots> \<le> rx_bytes rx + length buf" using n(2) by (simp add: rx(1))
    finally show ?thesis .
  next
    case False
    then show ?thesis
      using "1.prems" by (subst (asm) recv_ack_loop.simps) (auto split: if_splits list.splits recv_outcome.splits simp: Let_def)
  qed
qed

lemma recv_ack_loop_full: "recv_ack_loop rx buf = (rc, buf', rx') \<Longrightarrow> 0 < rc \<Longrightarrow> SERVER_RESPONSE_SIZE \<le> length buf'"
proof (induction rx buf arbitrary: rc buf' rx' rule: recv_ack_loop.induct)
  case (1 rx buf)
  show ?case
  proof (cases "length buf < SERVER_RESPONSE_SIZE \<and> (\<exists>bs rx1. rx = Avail bs # rx1 \<and> bs \<noteq> [])")
    case True
    then obtain bs rx1 where rx: "rx = Avail bs # rx1" "bs \<noteq> []" and b: "length buf < SERVER_RESPONSE_SIZE" by blast
    let ?n = "min (SERVER_RESPONSE_SIZE - length buf) (length bs)"
    have n: "?n \<noteq> 0" using rx(2) b by (auto simp: min_def)
    have "recv_ack_loop (if ?n < length bs then Avail (drop ?n bs) # rx1 else rx1) (buf @ take ?n bs) = (rc, buf', rx')"
      using "1.prems"(1) b n unfolding rx(1) by (subst (asm) recv_ack_loop.simps) (simp add: Let_def)
    then show ?thesis using "1.prems"(2) by (rule "1.IH" [OF b rx(1) refl refl n])
  next
    case False
    then show ?thesis
      using "1.prems" by (subst (asm) recv_ack_loop.simps) (auto split: if_splits list.splits recv_outcome.splits simp: Let_def)
  qed
qed

lemma pool_recv_ack_consumes:
  assumes "pool_recv_ack rx = (rc, resp, rx')" "0 < rc"
  shows "rx_bytes rx' < rx_bytes rx"
proof -
  obtain buf where "recv_ack_loop rx [] = (rc, buf, rx')"
    using assms(1) by (auto simp: pool_recv_ack_def split: prod.splits)
  from recv_ack_loop_bytes [OF this] recv_ack_loop_full [OF this assms(2)] show ?thesis
    by (simp add: SERVER_RESPONSE_SIZE_def)
qed

text \<open>The inner loop on one connection, until there is no complete response or an error.\<close>

function ack_loop :: "int \<Rightarrow> client \<Rightarrow> client" where
  "ack_loop fd s =
     (case pool_recv_ack (x_rx s fd) of (rc, resp, rx') \<Rightarrow>
        let s = s\<lparr>x_rx := (x_rx s)(fd := rx')\<rparr> in
        if rc \<le> 0 then s
        else case resp of None \<Rightarrow> s | Some r \<Rightarrow> ack_loop fd (handle_response r s))"
  by pat_completeness auto
termination
  by (relation "measure (\<lambda>(fd, s). rx_bytes (x_rx s fd))")
    (auto intro: pool_recv_ack_consumes [OF sym])

declare ack_loop.simps [simp del]

definition process_ack :: "client \<Rightarrow> client" where
  "process_ack s =
     (if m_dry_run s then fold (\<lambda>(devno, off). ack_block devno off) (queue_get_pending (m_queue s) 256) s
      else
        fold (\<lambda>i s. let c = p_conns (m_pool s) ! i in if c_fd c = SOCKET_ERR then s else ack_loop (c_fd c) s)
          [0..<SOCKET_POOL_TARGET] s)"

section \<open>Sending from the queue\<close>

definition acquire :: "client \<Rightarrow> nat option \<times> client" where
  "acquire s =
     (let (net, s) = ask x_net s;
          (now, s) = ask x_time s;
          (conn, p) = pool_acquire net now (m_pool s)
      in (conn, s\<lparr>m_pool := p\<rparr>))"

definition release :: "nat \<Rightarrow> client \<Rightarrow> client" where
  "release i s = s\<lparr>m_pool := pool_release i (m_pool s)\<rparr>"

definition upd_conn :: "nat \<Rightarrow> (pool_conn_t \<Rightarrow> pool_conn_t) \<Rightarrow> client \<Rightarrow> client" where
  "upd_conn i f s = s\<lparr>m_pool := (m_pool s)\<lparr>p_conns := (p_conns (m_pool s))[i := f (p_conns (m_pool s) ! i)]\<rparr>\<rparr>"

text \<open>The accounting of the rate limit; the sleep it computes changes no state.\<close>

definition rate_window :: "nat \<Rightarrow> client \<Rightarrow> client" where
  "rate_window payload_len s =
     (if m_rate_limit_mb s > 0 then
        let s = s\<lparr>m_rate_bytes_sent := m_rate_bytes_sent s + of_nat payload_len\<rparr>;
            (now, s) = ask x_clock s;
            s = (if m_rate_window_start s = 0 then s\<lparr>m_rate_window_start := now\<rparr> else s)
        in if now - m_rate_window_start s > 5000
           then s\<lparr>m_rate_window_start := now, m_rate_bytes_sent := 0\<rparr> else s
      else s)"

text \<open>Sending the popped entry on the connection in slot \<open>i\<close>.\<close>

definition send_entry ::
  "(int \<Rightarrow> bytes \<Rightarrow> u64 \<Rightarrow> bytes option) \<Rightarrow> nat \<Rightarrow> queue_entry_t \<Rightarrow> client \<Rightarrow> (int \<times> client) option" where
  "send_entry zc i entry s =
     (let conn = p_conns (m_pool s) ! i in
      case e_payload entry of
        None \<Rightarrow> None
      | Some payload \<Rightarrow>
          (case wire_send zc (x_socks s (c_fd conn)) (take (e_payload_len entry) payload) (m_zstd_level s)
                  (case c_send_scratch conn of None \<Rightarrow> [] | Some b \<Rightarrow> b) of
             None \<Rightarrow> None
           | Some (rc, scratch, sk) \<Rightarrow>
               (let s = s\<lparr>x_socks := (x_socks s)(c_fd conn := sk)\<rparr>;
                    (now, s) = ask x_time s;
                    s = upd_conn i (\<lambda>c. pool_touch now (c\<lparr>c_send_scratch := map_option (\<lambda>_. scratch) (c_send_scratch c)\<rparr>)) s
                in if rc \<noteq> 0 then Some (-1, release i s)
                   else
                     let s = upd_conn i (\<lambda>c. c\<lparr>c_blocks_sent := c_blocks_sent c + 1,
                               c_bytes_sent := c_bytes_sent c + of_nat (e_payload_len entry)\<rparr>) s
                     in Some (1, rate_window (e_payload_len entry) (release i s)))))"

definition flush_one :: "(int \<Rightarrow> bytes \<Rightarrow> u64 \<Rightarrow> bytes option) \<Rightarrow> client \<Rightarrow> (int \<times> client) option" where
  "flush_one zc s =
     (case queue_pop (m_queue s) zero_entry of (rc, entry, q) \<Rightarrow>
        if rc \<noteq> 0 then Some (0, s)
        else
          let s = s\<lparr>m_queue := q\<rparr> in
          if m_dry_run s then Some (1, ack_block (e_devno entry) (e_offset entry) s)
          else
            (case acquire s of
               (None, s) \<Rightarrow> Some (-1, s)
             | (Some i, s) \<Rightarrow> send_entry zc i entry s))"

lemma ask_simps [simp]:
  "m_queue (snd (ask f s)) = m_queue s" "m_db (snd (ask f s)) = m_db s" "m_pool (snd (ask f s)) = m_pool s"
  "m_tail_send (snd (ask f s)) = m_tail_send s" "m_dry_run (snd (ask f s)) = m_dry_run s"
  by (simp_all add: ask_def)

lemma q_count_ack [simp]: "q_count (queue_ack q d off) = q_count q"
  by (simp add: queue_ack_def)

lemma ack_block_count [simp]: "q_count (m_queue (ack_block d off s)) = q_count (m_queue s)"
  by (simp add: ack_block_def mark_acked_def run_sql_def ask_def Let_def)

lemma handle_response_count [simp]: "q_count (m_queue (handle_response r s)) = q_count (m_queue s)"
  by (simp add: handle_response_def)

lemma ack_loop_count [simp]: "q_count (m_queue (ack_loop fd s)) = q_count (m_queue s)"
  by (induction fd s rule: ack_loop.induct) (subst ack_loop.simps, auto split: prod.split option.split simp: Let_def)

lemma process_ack_count [simp]: "q_count (m_queue (process_ack s)) = q_count (m_queue s)"
proof -
  have "q_count (m_queue (fold (\<lambda>(d, off). ack_block d off) xs s)) = q_count (m_queue s)" for xs s
    by (induction xs arbitrary: s) auto
  moreover have "q_count (m_queue (fold (\<lambda>i s. let c = p_conns (m_pool s) ! i in
      if c_fd c = SOCKET_ERR then s else ack_loop (c_fd c) s) is s)) = q_count (m_queue s)" for "is" s
    by (induction "is" arbitrary: s) (auto simp: Let_def)
  ultimately show ?thesis unfolding process_ack_def by simp
qed

lemma queue_pop_count: "queue_pop q out = (rc, e, q') \<Longrightarrow>
    (q_count q = 0 \<and> rc = -1 \<and> q' = q) \<or> (0 < q_count q \<and> rc = 0 \<and> q_count q' = q_count q - 1)"
  by (auto simp: queue_pop_def Let_def split: if_splits)

lemma acquire_queue [simp]: "m_queue (snd (acquire s)) = m_queue s"
  by (simp add: acquire_def ask_def Let_def split: prod.split)

lemma send_entry_queue: "send_entry zc i e s = Some (rc, s') \<Longrightarrow> m_queue s' = m_queue s \<and> rc \<in> {1, -1}"
  by (auto simp: send_entry_def ask_def upd_conn_def release_def rate_window_def Let_def split: option.splits if_splits prod.splits)

lemma flush_one_count:
  assumes "flush_one zc s = Some (rc, s')"
  shows "(q_count (m_queue s) = 0 \<and> rc = 0 \<and> s' = s) \<or>
    (0 < q_count (m_queue s) \<and> rc \<in> {1, -1} \<and> q_count (m_queue s') = q_count (m_queue s) - 1)"
proof -
  obtain prc e q where p: "queue_pop (m_queue s) zero_entry = (prc, e, q)" by (metis prod_cases3)
  obtain c s1 where a: "acquire (s\<lparr>m_queue := q\<rparr>) = (c, s1)" by (metis surj_pair)
  then have "m_queue s1 = q" using acquire_queue [of "s\<lparr>m_queue := q\<rparr>"] by simp
  then show ?thesis
    using queue_pop_count [OF p] assms
    by (auto simp: flush_one_def p a Let_def split: if_splits option.splits dest!: send_entry_queue)
qed

text \<open>\<open>while (flush_one(ctx) > 0) { }\<close>\<close>

function drain :: "(int \<Rightarrow> bytes \<Rightarrow> u64 \<Rightarrow> bytes option) \<Rightarrow> client \<Rightarrow> client option" where
  "drain zc s =
     (case flush_one zc s of
        None \<Rightarrow> None
      | Some (rc, s') \<Rightarrow> if rc > 0 then drain zc s' else Some s')"
  by pat_completeness auto
termination
  by (relation "measure (\<lambda>(zc, s). q_count (m_queue s))") (auto dest: flush_one_count)

declare drain.simps [simp del]

lemma drain_count:
  "drain zc s = Some s' \<Longrightarrow> q_count (m_queue s') \<le> q_count (m_queue s) - 1"
proof (induction zc s arbitrary: s' rule: drain.induct)
  case (1 zc s)
  then obtain rc s1 where f: "flush_one zc s = Some (rc, s1)"
    by (auto simp: drain.simps [of zc s] split: option.splits)
  show ?case
  proof (cases "rc > 0")
    case True
    then have "q_count (m_queue s') \<le> q_count (m_queue s1) - 1"
      using "1.IH" [OF f refl True] "1.prems" f by (simp add: drain.simps [of zc s])
    then show ?thesis using flush_one_count [OF f] by auto
  next
    case False
    then show ?thesis using "1.prems" f flush_one_count [OF f] by (auto simp: drain.simps [of zc s])
  qed
qed

text \<open>The forced drain: \<open>while (queue_count > 0 && g_running)\<close>.\<close>

function force_drain :: "(int \<Rightarrow> bytes \<Rightarrow> u64 \<Rightarrow> bytes option) \<Rightarrow> client \<Rightarrow> client option" where
  "force_drain zc s =
     (if queue_count (m_queue s) > 0 then
        (let (run, s1) = ask x_running s in
         if \<not> run then Some s1
         else case drain zc s1 of None \<Rightarrow> None | Some s2 \<Rightarrow> force_drain zc (process_ack s2))
      else Some s)"
  by pat_completeness auto
termination
proof (relation "measure (\<lambda>(zc, s). q_count (m_queue s))")
  fix zc s x run s1 s2
  assume a: "0 < queue_count (m_queue s)" "x = ask x_running s" "(run, s1) = x" "drain zc s1 = Some s2"
  then have "m_queue s1 = m_queue s" by (auto simp: ask_def)
  then show "((zc, process_ack s2), zc, s) \<in> measure (\<lambda>(zc, s). q_count (m_queue s))"
    using drain_count [OF a(4)] a(1) by (simp add: queue_count_def)
qed simp

declare force_drain.simps [simp del]

section \<open>Sending a block\<close>

text \<open>
  The loop around \<open>queue_push\<close>: it runs until the code is 0, or until the client is stopped (the flag
  of the result is then false).  \<open>retry\<close> counts the attempts; after 600 the queue is drained by force.
\<close>

partial_function (option) push_retry ::
  "(int \<Rightarrow> bytes \<Rightarrow> u64 \<Rightarrow> bytes option) \<Rightarrow> u32 \<Rightarrow> u64 \<Rightarrow> u64 \<Rightarrow> bytes \<Rightarrow> nat \<Rightarrow> client \<Rightarrow> (bool \<times> client) option" where
  "push_retry zc devno off h payload retry s =
     (let (al, s) = ask x_alloc s;
          (rc, q) = queue_push al (m_queue s) devno off h payload;
          s = s\<lparr>m_queue := q\<rparr>
      in if rc = 0 then Some (True, s)
         else
           let (run, s) = ask x_running s in
           if \<not> run then Some (False, s)
           else if rc = 2 \<or> rc = -1 then
             (case drain zc s of
                None \<Rightarrow> None
              | Some s \<Rightarrow>
                  let s = process_ack s in
                  if retry + 1 > 600 then
                    (case force_drain zc s of
                       None \<Rightarrow> None
                     | Some s \<Rightarrow> push_retry zc devno off h payload 0 s)
                  else push_retry zc devno off h payload (retry + 1) s)
           else push_retry zc devno off h payload retry s)"

definition hash_seed :: "u64 \<Rightarrow> u64" where
  "hash_seed disk_offset = disk_offset AND 0xFFFFFFFF"

text \<open>Encoding, queueing and recording a block that has been read and has to be sent.\<close>

definition queue_block ::
  "(int \<Rightarrow> bytes \<Rightarrow> u64 \<Rightarrow> bytes option) \<Rightarrow> u32 \<Rightarrow> u64 \<Rightarrow> bytes \<Rightarrow> u64 \<Rightarrow> client \<Rightarrow> (int \<times> client) option" where
  "queue_block zc devno disk_offset data h s =
     (let (al, s) = ask x_alloc s in
      case msgpack_encode_block (\<lambda>_. al) (m_writer s) devno disk_offset data (of_nat (length data)) of
        None \<Rightarrow> None
      | Some (rc, w) \<Rightarrow>
          let s = s\<lparr>m_writer := w\<rparr> in
          if rc \<noteq> 0 then Some (-1, s)
          else
            (case push_retry zc devno disk_offset h (w_contents w) 0 s of
               None \<Rightarrow> None
             | Some (ok, s) \<Rightarrow>
                 if \<not> ok then Some (-1, s)
                 else Some (0, run_sql (\<lambda>eng db. sqlite_block_upsert_v eng db devno disk_offset
                                          (of_nat (length data)) h 0 (m_inc_version s)) s)))"

definition send_block ::
  "(int \<Rightarrow> bytes \<Rightarrow> u64 \<Rightarrow> bytes option) \<Rightarrow> block_reader \<Rightarrow> u32 \<Rightarrow> u64 \<Rightarrow> u64 \<Rightarrow> client \<Rightarrow> (int \<times> client) option" where
  "send_block zc reader devno disk_offset reader_offset s =
     (let (pread, s) = ask x_disk s;
          (rc, data) = block_reader_read pread reader reader_offset (of_nat BLOCK_SIZE)
      in if rc \<noteq> 0 then Some (-1, s)
         else if data = [] then Some (0, s)
         else
           let (eng, s) = ask x_sql s in
           if sqlite_block_acked eng (m_db s) devno disk_offset = 1 then Some (0, s)
           else
             let h = hash_block data (length data) (hash_seed disk_offset) in
             if m_tail_send s then
               let (eng, s) = ask x_sql s in
               if sqlite_block_lookup eng (m_db s) devno disk_offset = (0, Some h) then Some (0, s)
               else queue_block zc devno disk_offset data h s
             else queue_block zc devno disk_offset data h s)"

section \<open>Retransmission and reconnection\<close>

definition covers :: "u32 \<Rightarrow> u64 \<Rightarrow> reader_entry_t \<Rightarrow> bool" where
  "covers devno disk_offset r \<longleftrightarrow> re_devno r = devno \<and> disk_offset \<ge> re_partition_offset r \<and>
     disk_offset < re_partition_offset r + block_reader_size (re_reader r)"

fun retransmit_loop ::
  "(int \<Rightarrow> bytes \<Rightarrow> u64 \<Rightarrow> bytes option) \<Rightarrow> reader_entry_t list \<Rightarrow> (u32 \<times> u64) list \<Rightarrow> client \<Rightarrow> client option" where
  "retransmit_loop zc readers [] s = Some s"
| "retransmit_loop zc readers ((devno, disk_offset) # xs) s =
     (let (run, s) = ask x_running s in
      if \<not> run then Some s
      else
        case find (covers devno disk_offset) readers of
          None \<Rightarrow> retransmit_loop zc readers xs s
        | Some entry \<Rightarrow>
            let reader_offset = (if re_is_vss entry then disk_offset - re_partition_offset entry else disk_offset)
            in case send_block zc (re_reader entry) devno disk_offset reader_offset s of
                 None \<Rightarrow> None
               | Some (rc, s) \<Rightarrow> retransmit_loop zc readers xs s)"

definition do_retransmit ::
  "(int \<Rightarrow> bytes \<Rightarrow> u64 \<Rightarrow> bytes option) \<Rightarrow> reader_entry_t list \<Rightarrow> client \<Rightarrow> client option" where
  "do_retransmit zc readers s =
     (let (eng, s) = ask x_sql s;
          (count, keys) = sqlite_get_unacked eng (m_db s) 256 (Some '''')
      in retransmit_loop zc readers (take (nat count) keys) s)"

partial_function (option) reconnect_loop :: "client \<Rightarrow> client option" where
  "reconnect_loop s =
     (if pool_count (m_pool s) < int SOCKET_POOL_TARGET then
        (case acquire s of
           (None, s') \<Rightarrow> Some s'
         | (Some i, s') \<Rightarrow> reconnect_loop (release i s'))
      else Some s)"

text \<open>Reaping locks the mutex of the pool, which is NULL when the pool was never initialised.\<close>

definition do_reconnect :: "client \<Rightarrow> client option" where
  "do_reconnect s =
     (if \<not> p_mutex (m_pool s) then None
      else
        let (now, s) = ask x_time s;
            (stale, p) = pool_reap_stale now (m_pool s)
        in reconnect_loop (s\<lparr>m_pool := p\<rparr>))"

section \<open>Shuffling\<close>

type_synonym block_arrays = "u32 list \<times> u64 list \<times> u64 list \<times> u64 list"

definition swap :: "nat \<Rightarrow> nat \<Rightarrow> 'a list \<Rightarrow> 'a list" where
  "swap i j xs = xs[i := xs ! j, j := xs ! i]"

fun shuffle_from :: "nat \<Rightarrow> block_arrays \<Rightarrow> client \<Rightarrow> block_arrays \<times> client" where
  "shuffle_from 0 arrays s = (arrays, s)"
| "shuffle_from (Suc i) (devnos, offsets, hashes, last_sents) s =
     (let (r, s) = ask x_rand s;
          j = r mod (Suc i + 1)
      in shuffle_from i (swap (Suc i) j devnos, swap (Suc i) j offsets, swap (Suc i) j hashes,
                         swap (Suc i) j last_sents) s)"

definition shuffle_blocks :: "block_arrays \<Rightarrow> nat \<Rightarrow> client \<Rightarrow> block_arrays \<times> client" where
  "shuffle_blocks arrays n s = shuffle_from (n - 1) arrays s"

section \<open>Acknowledgement bookkeeping\<close>

definition is_ack :: "server_response_t \<Rightarrow> bool" where
  "is_ack r \<longleftrightarrow> r_type r = RESPONSE_ACK \<or> r_type r = RESPONSE_ACK_ALT"

definition resp_key :: "server_response_t \<Rightarrow> u32 \<times> u64" where
  "resp_key r = (r_devno r, r_offset r)"

text \<open>The map of block states after the keys \<open>K\<close> have been acknowledged.\<close>

definition acked_on :: "(u32 \<times> u64) set \<Rightarrow> (u32 \<times> u64 \<Rightarrow> (u64 \<times> bool) option) \<Rightarrow> u32 \<times> u64 \<Rightarrow> (u64 \<times> bool) option" where
  "acked_on K m = (\<lambda>k. if k \<in> K then map_option (\<lambda>(h, a). (h, True)) (m k) else m k)"

text \<open>What a socket delivers when these responses have arrived.\<close>

definition rx_of :: "server_response_t list \<Rightarrow> recv_outcome list" where
  "rx_of rs = (if rs = [] then [] else [Avail (concat (map response_bytes rs))])"

definition sent_keys :: "client \<Rightarrow> server_response_t list \<Rightarrow> (u32 \<times> u64) set" where
  "sent_keys s rs = (if m_tail_send s then {} else resp_key ` {r \<in> set rs. is_ack r})"

lemma acked_on_simps [simp]: "acked_on {} m = m" "acked_on K (acked_on L m) = acked_on (K \<union> L) m"
proof -
  show "acked_on {} m = m" by (simp add: acked_on_def)
  have "map_option (\<lambda>(h, a). (h, True)) (map_option (\<lambda>(h, a). (h, True)) y) = map_option (\<lambda>(h, a). (h, True)) y"
    for y :: "(u64 \<times> bool) option" by (cases y) auto
  then show "acked_on K (acked_on L m) = acked_on (K \<union> L) m" by (auto simp: acked_on_def fun_eq_iff)
qed

lemma view_mark_acked:
  assumes "\<forall>t. x_sql s t = Runs"
  shows "view (m_db (mark_acked d off s)) = acked_on {(d, off)} (view (m_db s))"
  using assms exec_view [of "MarkAcked Runs d off" "m_db s"]
  by (auto simp: mark_acked_def run_sql_def ask_def acked_on_def)

lemma pool_recv_ack_rx_of: "pool_recv_ack (rx_of (r # rs)) = (1, Some r, rx_of rs)"
proof -
  have len: "length (response_bytes x) = SERVER_RESPONSE_SIZE" for x by (rule resp.enc_width)
  have dec: "response_of_bytes (response_bytes r) = r" using resp.dec_enc [of r "[]"] by simp
  show ?thesis
  proof (cases rs)
    case Nil
    have "response_bytes r \<noteq> []" using len [of r] by (auto simp: proto_consts)
    then show ?thesis
      using recv_ack_loop_burst [of "[response_bytes r]" "[]" "[]"] len [of r] dec Nil
      by (simp add: rx_of_def pool_recv_ack_def)
  next
    case (Cons r' rs')
    then have "SERVER_RESPONSE_SIZE < length (concat (map response_bytes (r # rs)))"
      using len by (simp add: SERVER_RESPONSE_SIZE_def)
    then show ?thesis
      using recv_ack_loop_step(6) [of "[]" "concat (map response_bytes (r # rs))" "[]"] len [of r] dec Cons
      by (simp add: rx_of_def pool_recv_ack_def SERVER_RESPONSE_SIZE_def)
  qed
qed

lemma handle_response_frame [simp]:
  "handle_response r (s\<lparr>x_rx := f\<rparr>) = (handle_response r s)\<lparr>x_rx := f\<rparr>"
  "m_tail_send (handle_response r s) = m_tail_send s" "m_pool (handle_response r s) = m_pool s"
  "x_sql (handle_response r s) = x_sql s" "m_dry_run (handle_response r s) = m_dry_run s"
  by (simp_all add: handle_response_def ack_block_def mark_acked_def run_sql_def ask_def Let_def)

lemma handle_response_view:
  "\<forall>t. x_sql s t = Runs \<Longrightarrow>
    view (m_db (handle_response r s)) = acked_on (sent_keys s [r]) (view (m_db s)) \<and>
    m_server_done_rcvd (handle_response r s) = (m_server_done_rcvd s \<or> r_type r = RESPONSE_SERVER_DONE)"
proof -
  assume run: "\<forall>t. x_sql s t = Runs"
  have d: "m_server_done_rcvd (ack_block d off s) = m_server_done_rcvd s" for d off
    by (simp add: ack_block_def mark_acked_def run_sql_def ask_def Let_def)
  have v: "view (m_db (ack_block d off s)) = acked_on (if m_tail_send s then {} else {(d, off)}) (view (m_db s))" for d off
    using run by (simp add: ack_block_def view_mark_acked Let_def)
  have k: "sent_keys s [r] = (if \<not> m_tail_send s \<and> is_ack r then {(r_devno r, r_offset r)} else {})"
    by (auto simp: sent_keys_def resp_key_def)
  show ?thesis
    unfolding k by (auto simp: handle_response_def d v is_ack_def proto_consts)
qed

lemma ack_loop_rx_of:
  "x_rx s fd = rx_of rs \<Longrightarrow> ack_loop fd s = (fold handle_response rs s)\<lparr>x_rx := (x_rx s)(fd := [])\<rparr>"
proof (induction rs arbitrary: s)
  case Nil
  then show ?case
    by (subst ack_loop.simps) (simp add: rx_of_def pool_recv_ack_def recv_ack_loop_step(1) SERVER_RESPONSE_SIZE_def)
next
  case (Cons r rs)
  let ?s = "handle_response r s\<lparr>x_rx := (x_rx s)(fd := rx_of rs)\<rparr>"
  have "ack_loop fd s = ack_loop fd ?s"
    using Cons.prems by (subst ack_loop.simps) (simp add: pool_recv_ack_rx_of)
  also have "\<dots> = (fold handle_response rs ?s)\<lparr>x_rx := (x_rx s)(fd := [])\<rparr>"
    using Cons.IH [of ?s] by (simp add: fun_upd_def cong: if_cong)
  also have "fold handle_response rs (t\<lparr>x_rx := f\<rparr>) = (fold handle_response rs t)\<lparr>x_rx := f\<rparr>" for t f
    by (induction rs arbitrary: t) simp_all
  finally show ?case by simp
qed

lemma fold_handle_response:
  fixes rs :: "server_response_t list"
  assumes "\<forall>t. x_sql s t = Runs"
  defines "s' \<equiv> fold handle_response rs s"
  shows "view (m_db s') = acked_on (sent_keys s rs) (view (m_db s)) \<and>
    (m_server_done_rcvd s' \<longleftrightarrow> m_server_done_rcvd s \<or> (\<exists>r \<in> set rs. r_type r = RESPONSE_SERVER_DONE)) \<and>
    m_tail_send s' = m_tail_send s \<and> m_pool s' = m_pool s \<and> x_sql s' = x_sql s \<and> x_rx s' = x_rx s"
  using assms(1) unfolding s'_def
proof (induction rs arbitrary: s)
  case (Cons r rs)
  have "sent_keys (handle_response r s) rs \<union> sent_keys s [r] = sent_keys s (r # rs)"
    by (auto simp: sent_keys_def)
  then show ?case
    using Cons.IH [of "handle_response r s"] Cons.prems handle_response_view [OF Cons.prems, of r] by auto
qed (simp add: sent_keys_def)

definition open_fds :: "socket_pool_t \<Rightarrow> nat list \<Rightarrow> int set" where
  "open_fds p is = {c_fd (p_conns p ! i) | i. i \<in> set is \<and> c_fd (p_conns p ! i) \<noteq> SOCKET_ERR}"

lemma ack_slots:
  fixes rsp :: "int \<Rightarrow> server_response_t list" and "is" :: "nat list"
  assumes "\<forall>t. x_sql s t = Runs" "\<forall>fd. x_rx s fd = (if fd \<in> D then [] else rx_of (rsp fd))"
  defines "s' \<equiv> fold (\<lambda>i s. let c = p_conns (m_pool s) ! i in if c_fd c = SOCKET_ERR then s else ack_loop (c_fd c) s) is s"
    and "F \<equiv> open_fds (m_pool s) is - D"
  shows "view (m_db s') = acked_on (\<Union>fd \<in> F. sent_keys s (rsp fd)) (view (m_db s)) \<and>
    (m_server_done_rcvd s' \<longleftrightarrow> m_server_done_rcvd s \<or> (\<exists>fd \<in> F. \<exists>r \<in> set (rsp fd). r_type r = RESPONSE_SERVER_DONE))"
  using assms(1,2) unfolding s'_def F_def
proof (induction "is" arbitrary: s D)
  case (Cons i "is")
  define fd where "fd = c_fd (p_conns (m_pool s) ! i)"
  show ?case
  proof (cases "fd = SOCKET_ERR")
    case True
    then have "open_fds (m_pool s) (i # is) = open_fds (m_pool s) is" by (auto simp: open_fds_def fd_def)
    then show ?thesis using Cons.IH [OF Cons.prems] True by (simp add: fd_def Let_def)
  next
    case False
    define rs where "rs = (if fd \<in> D then [] else rsp fd)"
    define t where "t = ack_loop fd s"
    have rx: "x_rx s fd = rx_of rs" using Cons.prems(2) by (simp add: rs_def rx_of_def)
    note t = ack_loop_rx_of [OF rx, folded t_def]
    note f = fold_handle_response [OF Cons.prems(1), of rs]
    have tp: "m_pool t = m_pool s" "m_tail_send t = m_tail_send s" "\<forall>k. x_sql t k = Runs"
      "\<forall>x. x_rx t x = (if x \<in> insert fd D then [] else rx_of (rsp x))"
      "view (m_db t) = acked_on (sent_keys s rs) (view (m_db s))"
      "m_server_done_rcvd t \<longleftrightarrow> m_server_done_rcvd s \<or> (\<exists>r \<in> set rs. r_type r = RESPONSE_SERVER_DONE)"
      using t f Cons.prems by simp_all
    have F: "open_fds (m_pool s) (i # is) - D = (if fd \<in> D then {} else {fd}) \<union> (open_fds (m_pool s) is - insert fd D)"
      using False by (auto simp: open_fds_def fd_def)
    have sk: "sent_keys t = sent_keys s" by (simp add: sent_keys_def tp(2) fun_eq_iff)
    have nil: "sent_keys s [] = {}" by (simp add: sent_keys_def)
    show ?thesis
      using Cons.IH [OF tp(3,4)] False tp(1,5,6)
      by (simp add: F sk nil rs_def fd_def [symmetric] t_def [symmetric] Let_def Un_commute split: if_splits)
  qed
qed (simp add: open_fds_def)

text \<open>
  C11: Processing acknowledgements.  When responses have arrived on the connections, one call of
  \<open>process_ack\<close> handles every response of every open connection: in full mode exactly the blocks
  named by an ACK become acknowledged in the tracking database (with their hash kept, and no row
  created for a block that is not recorded), in tail mode the database does not change, and the
  end of the migration is recorded exactly when SERVER_DONE is among the responses.
\<close>
theorem process_ack_effect:
  fixes rsp :: "int \<Rightarrow> server_response_t list"
  assumes "\<not> m_dry_run s" "\<forall>t. x_sql s t = Runs" "\<forall>fd. x_rx s fd = rx_of (rsp fd)"
  defines "rs \<equiv> \<Union>fd \<in> open_fds (m_pool s) [0..<SOCKET_POOL_TARGET]. set (rsp fd)"
  shows "view (m_db (process_ack s)) =
      (if m_tail_send s then view (m_db s) else acked_on (resp_key ` {r \<in> rs. is_ack r}) (view (m_db s)))
    \<and> (m_server_done_rcvd (process_ack s) \<longleftrightarrow> m_server_done_rcvd s \<or> (\<exists>r \<in> rs. r_type r = RESPONSE_SERVER_DONE))"
proof -
  let ?F = "open_fds (m_pool s) [0..<SOCKET_POOL_TARGET]"
  have k: "(\<Union>fd \<in> ?F - {}. sent_keys s (rsp fd)) = (if m_tail_send s then {} else resp_key ` {r \<in> rs. is_ack r})"
    by (auto simp: sent_keys_def rs_def)
  show ?thesis
    using ack_slots [OF assms(2), of "{}" rsp "[0..<SOCKET_POOL_TARGET]"] assms(1,3)
    unfolding k by (auto simp: process_ack_def rs_def)
qed

definition sample_client :: "socket_pool_t \<Rightarrow> sqlite_db \<Rightarrow> client" where
  "sample_client p db = \<lparr>m_server_ip = ''10.0.0.2'', m_server_port = 3389, m_zstd_level = 1, m_skip_disks = [],
     m_tail_send = False, m_db = db, m_pool = p, m_queue = snd (queue_init True),
     m_timer = \<lparr>last_fire = \<lambda>_. 0, interval = \<lambda>_. 0\<rparr>, m_writer = msgpack_writer_init (\<lambda>_. True),
     m_all_done = False, m_ctl_end_sent = False, m_server_done_rcvd = False, m_inc_round = 0, m_inc_version = 0,
     m_zero_change_rounds = 0, m_dry_run = False, m_rate_limit_mb = 0, m_rate_bytes_sent = 0,
     m_rate_window_start = 0, m_total_blocks = 0, x_tick = 0, x_clock = \<lambda>_. 0, x_time = \<lambda>_. 0,
     x_running = \<lambda>_. True, x_sql = \<lambda>_. Runs, x_alloc = \<lambda>_. True, x_net = \<lambda>_. (None, Refused),
     x_rand = \<lambda>t. t, x_disk = \<lambda>_ _ _ _. Some [1, 2, 3], x_socks = \<lambda>_. \<lparr>sk_out = [], sk_script = []\<rparr>,
     x_rx = \<lambda>_. []\<rparr>"

definition one_row :: "u64 \<Rightarrow> int \<Rightarrow> sqlite_db" where
  "one_row h a = \<lparr>db_blocks = [\<lparr>b_devno = 1, b_offset = 0, b_size = 8, b_hash = h, b_ack = a, b_last_sent = 0,
     b_version = 0, b_remote_id = ''10.0.0.2:3389''\<rparr>], db_versions = [], db_remote_id = ''10.0.0.2:3389''\<rparr>"

definition lone_pool :: socket_pool_t where
  "lone_pool = \<lparr>p_conns = replicate 6 (zero_conn\<lparr>c_fd := SOCKET_ERR\<rparr>) @ [zero_conn\<lparr>c_fd := 9\<rparr>], p_count = 1,
     p_next_index = 0, p_mutex = True\<rparr>"

theorem process_ack_effect_witness:
  "view (m_db (process_ack ((sample_client lone_pool (one_row 77 0))\<lparr>x_rx :=
     \<lambda>fd. rx_of (if fd = 9 then [\<lparr>r_type = 0, r_devno = 1, r_size = 8, r_offset = 0\<rparr>] else [])\<rparr>))) (1, 0) = Some (77, True)"
proof -
  let ?r = "\<lparr>r_type = 0, r_devno = 1, r_size = 8, r_offset = 0\<rparr> :: server_response_t"
  let ?rsp = "\<lambda>fd :: int. if fd = 9 then [?r] else []"
  let ?s = "(sample_client lone_pool (one_row 77 0))\<lparr>x_rx := \<lambda>fd. rx_of (?rsp fd)\<rparr>"
  have "9 \<in> open_fds lone_pool [0..<SOCKET_POOL_TARGET]"
    unfolding open_fds_def by (rule CollectI, rule exI [of _ 6]) (simp add: lone_pool_def proto_consts SOCKET_ERR_def nth_append)
  then have "(1, 0) \<in> resp_key ` {r \<in> (\<Union>fd \<in> open_fds lone_pool [0..<SOCKET_POOL_TARGET]. set (?rsp fd)). is_ack r}"
    by (intro image_eqI [of _ _ ?r]) (auto simp: resp_key_def is_ack_def proto_consts intro!: bexI [of _ 9])
  moreover have "view (one_row 77 0) (1, 0) = Some (77, False)"
    by (simp add: view_def row_of_def one_row_def has_key_def)
  ultimately show ?thesis
    using process_ack_effect [of ?s ?rsp, THEN conjunct1]
    by (simp add: sample_client_def acked_on_def)
qed

section \<open>Reconnection\<close>

definition has_idle :: "socket_pool_t \<Rightarrow> bool" where
  "has_idle p \<longleftrightarrow> (\<exists>i < SOCKET_POOL_TARGET. c_fd (p_conns p ! i) \<noteq> SOCKET_ERR \<and> \<not> c_in_use (p_conns p ! i))"

lemma acquire_idle:
  assumes "has_idle p" "pool_acquire net now p = (r, p')"
  shows "\<exists>i. r = Some i \<and> p_count (pool_release i p') = p_count p \<and> has_idle (pool_release i p')"
proof -
  from assms(1) obtain i where i: "scan_idle (p_conns p) (p_next_index p) [0..<SOCKET_POOL_TARGET] = Some i"
    using scan_idle_None [of "p_conns p" "p_next_index p"] unfolding has_idle_def
    by (cases "scan_idle (p_conns p) (p_next_index p) [0..<SOCKET_POOL_TARGET]") auto
  let ?c = "p_conns p ! i"
  have "p_conns (pool_release i p') = p_conns p"
  proof (cases "i < length (p_conns p)")
    case True
    then have "p_conns (pool_release i p') = (p_conns p)[i := ?c\<lparr>c_in_use := False\<rparr>]"
      using assms(2) i by (auto simp: pool_acquire_def pool_release_def)
    also have "?c\<lparr>c_in_use := False\<rparr> = ?c" using scan_idle_Some(3) [OF i] by simp
    finally show ?thesis by simp
  next
    case False
    then show ?thesis using assms(2) i by (auto simp: pool_acquire_def pool_release_def list_update_beyond)
  qed
  then have "has_idle (pool_release i p')" using assms(1) by (simp add: has_idle_def)
  moreover have "r = Some i" "p_count (pool_release i p') = p_count p"
    using assms(2) i by (auto simp: pool_acquire_def pool_release_def)
  ultimately show ?thesis by blast
qed

lemma reconnect_loop_never_returns:
  assumes "reconnect_loop s = Some s'"
  shows "\<not> (has_idle (m_pool s) \<and> p_count (m_pool s) < int SOCKET_POOL_TARGET)"
proof (rule reconnect_loop.raw_induct [OF _ assms])
  fix f s s'
  assume IH: "\<And>s s'. f s = Some s' \<Longrightarrow> \<not> (has_idle (m_pool s) \<and> p_count (m_pool s) < int SOCKET_POOL_TARGET)"
    and body: "(if pool_count (m_pool s) < int SOCKET_POOL_TARGET then
        (case acquire s of (None, s') \<Rightarrow> Some s' | (Some i, s') \<Rightarrow> f (release i s')) else Some s) = Some s'"
  show "\<not> (has_idle (m_pool s) \<and> p_count (m_pool s) < int SOCKET_POOL_TARGET)"
  proof
    assume a: "has_idle (m_pool s) \<and> p_count (m_pool s) < int SOCKET_POOL_TARGET"
    obtain r p' where p: "pool_acquire (x_net s (x_tick s)) (x_time s (x_tick s + 1)) (m_pool s) = (r, p')"
      by (metis surj_pair)
    from acquire_idle [OF conjunct1 [OF a] p] obtain i where
      i: "r = Some i" "p_count (pool_release i p') = p_count (m_pool s)" "has_idle (pool_release i p')" by blast
    define t where "t = s\<lparr>x_tick := x_tick s + 1 + 1, m_pool := pool_release i p'\<rparr>"
    have "f t = Some s'"
      using body a p i(1) by (simp add: pool_count_def acquire_def ask_def release_def t_def)
    from IH [OF this] show False using i(2,3) a by (simp add: t_def)
  qed
qed

lemma reaped_free:
  assumes "pool_ok p" "\<forall>c \<in> set (p_conns p). \<not> c_in_use c" "i < SOCKET_POOL_TARGET"
  shows "\<not> c_in_use (p_conns (snd (pool_reap_stale now p)) ! i)"
proof -
  obtain n p' where r: "reap_loop now [0..<SOCKET_POOL_TARGET] 0 p = (n, p')" by (metis surj_pair)
  have len: "length (p_conns p) = SOCKET_POOL_TARGET" using assms(1) by (simp add: pool_ok_def)
  have "p_conns p' ! i = (if stale now (p_conns p ! i) then (p_conns p ! i)\<lparr>c_fd := SOCKET_ERR\<rparr> else p_conns p ! i)"
    using reap_loop_result [OF _ _ r] len assms(3) by (auto simp: atLeast0LessThan)
  then show ?thesis using assms(2,3) len r by (auto simp: pool_reap_stale_def)
qed

lemma acquire_leaves_idle:
  assumes "pool_ok p" "\<And>i. i < SOCKET_POOL_TARGET \<Longrightarrow> \<not> c_in_use (p_conns p ! i)"
    and "pool_acquire net now p = (Some i, p')" "p_count p < int SOCKET_POOL_TARGET"
  shows "has_idle (pool_release i p') \<and> p_count (pool_release i p') < int SOCKET_POOL_TARGET"
proof (cases "has_idle p")
  case True
  then show ?thesis using acquire_idle [OF True assms(3)] assms(4) by auto
next
  case False
  have len: "length (p_conns p) = SOCKET_POOL_TARGET" using assms(1) by (simp add: pool_ok_def)
  have "\<forall>c \<in> set (p_conns p). c_fd c = SOCKET_ERR"
    using False assms(2) len by (auto simp: has_idle_def in_set_conv_nth)
  then have "p_count p = 0" using assms(1) by (simp add: pool_ok_def open_slots_def)
  moreover have "scan_idle (p_conns p) (p_next_index p) [0..<SOCKET_POOL_TARGET] = None"
    using False by (auto simp: scan_idle_None has_idle_def)
  ultimately have sc: "scan_closed (p_conns p) [0..<SOCKET_POOL_TARGET] = Some i"
    and c: "p_count p' = 1" "c_fd (p_conns p' ! i) \<noteq> SOCKET_ERR"
    using assms(3) len scan_closed_Some(1)
    by (auto simp: pool_acquire_def Let_def split: option.splits if_splits)
  have "i < SOCKET_POOL_TARGET" by (rule scan_closed_Some(1) [OF sc])
  moreover have "length (p_conns p') = SOCKET_POOL_TARGET"
    using acquire_ok [OF assms(1), of net now] assms(3) by (simp add: pool_ok_def)
  ultimately show ?thesis
    using c by (auto simp: has_idle_def pool_release_def SOCKET_POOL_TARGET_def)
qed

text \<open>
  C28: Reconnecting hangs the client.  \<open>do_reconnect\<close> reaps the stale connections and then loops while
  fewer than seven are open, expecting every acquired connection to be a new one; but \<open>pool_acquire\<close>
  hands out an idle open connection first, so once one connection is open the loop makes no
  progress.  With no connection in use it returns exactly when all seven are open after the
  reaping or the first attempt gets no connection; in every other case it never returns.
\<close>
theorem do_reconnect_returns_iff:
  assumes "pool_ok (m_pool s)" "\<forall>c \<in> set (p_conns (m_pool s)). \<not> c_in_use c" "p_mutex (m_pool s)"
  defines "p \<equiv> snd (pool_reap_stale (x_time s (x_tick s)) (m_pool s))"
  shows "(\<exists>s'. do_reconnect s = Some s') \<longleftrightarrow>
    p_count p = int SOCKET_POOL_TARGET \<or>
    fst (pool_acquire (x_net s (x_tick s + 1)) (x_time s (x_tick s + 2)) p) = None"
proof -
  let ?net = "x_net s (x_tick s + 1)" and ?now = "x_time s (x_tick s + 2)"
  have ok: "pool_ok p" unfolding p_def by (rule pool_step_ok [OF pool_step.reap assms(1)])
  have free: "\<not> c_in_use (p_conns p ! i)" if "i < SOCKET_POOL_TARGET" for i
    using reaped_free [OF assms(1,2) that, of "x_time s (x_tick s)"] by (simp add: p_def)
  define t where "t = s\<lparr>x_tick := x_tick s + 1, m_pool := p\<rparr>"
  have dr: "do_reconnect s = reconnect_loop t"
    using assms(3) by (simp add: do_reconnect_def ask_def t_def p_def split: prod.split)
  have le: "p_count p \<le> int SOCKET_POOL_TARGET"
    using ok by (auto simp: pool_ok_def open_slots_def intro: length_filter_le [THEN order_trans])
  obtain r p' where a: "pool_acquire ?net ?now p = (r, p')" by (metis surj_pair)
  define u where "u = t\<lparr>x_tick := x_tick s + 3, m_pool := p'\<rparr>"
  have aq: "acquire t = (r, u)" using a by (simp add: acquire_def ask_def t_def u_def)
  show ?thesis
  proof (cases "p_count p = int SOCKET_POOL_TARGET")
    case True
    then have "reconnect_loop t = Some t" by (subst reconnect_loop.simps) (simp add: t_def pool_count_def)
    then show ?thesis using True dr by simp
  next
    case less: False
    then have step: "reconnect_loop t = (case r of None \<Rightarrow> Some u | Some i \<Rightarrow> reconnect_loop (release i u))"
      using le aq by (subst reconnect_loop.simps) (simp add: t_def pool_count_def split: option.split)
    show ?thesis
    proof (cases r)
      case None
      then show ?thesis using step dr a by simp
    next
      case (Some i)
      have "has_idle (pool_release i p') \<and> p_count (pool_release i p') < int SOCKET_POOL_TARGET"
        using acquire_leaves_idle [OF ok free a [unfolded Some]] less le by simp
      then have "reconnect_loop (release i u) = None"
        using reconnect_loop_never_returns [of "release i u"] by (cases "reconnect_loop (release i u)") (auto simp: release_def u_def)
      then show ?thesis using step dr a Some less by simp
    qed
  qed
qed

theorem do_reconnect_returns_iff_witness: "do_reconnect (sample_client lone_pool (one_row 77 0)) = None"
proof -
  have ok: "pool_ok lone_pool"
    by (simp add: pool_ok_def lone_pool_def open_slots_def proto_consts zero_conn_def SOCKET_ERR_def numeral_eq_Suc)
  have reap: "snd (pool_reap_stale 0 lone_pool) = lone_pool" by code_simp
  have "pool_acquire (None, Refused) 0 lone_pool = (Some 6, snd (pool_acquire (None, Refused) 0 lone_pool))"
    by code_simp
  then have "fst (pool_acquire (None, Refused) 0 lone_pool) \<noteq> None" by (metis fst_conv option.distinct(1))
  then have "\<not> (\<exists>s'. do_reconnect (sample_client lone_pool (one_row 77 0)) = Some s')"
    by (subst do_reconnect_returns_iff)
      (use ok reap in \<open>auto simp: sample_client_def lone_pool_def proto_consts zero_conn_def\<close>)
  then show ?thesis by auto
qed

section \<open>Retransmission\<close>

lemma do_retransmit_named:
  assumes "\<forall>r \<in> set (db_blocks (m_db s)). b_remote_id r \<noteq> ''''"
  shows "do_retransmit zc readers s = Some (s\<lparr>x_tick := x_tick s + 1\<rparr>)"
proof -
  have "filter (unacked '''') (db_blocks (m_db s)) = []"
    using assms by (auto simp: filter_empty_conv unacked_def)
  then have "snd (sqlite_get_unacked eng (m_db s) 256 (Some '''')) = []" for eng
    by (cases eng) (simp_all add: sqlite_get_unacked_def rid_of_def)
  note none = this
  obtain n ks where g: "sqlite_get_unacked (x_sql s (x_tick s)) (m_db s) 256 (Some '''') = (n, ks)" by (metis surj_pair)
  then have "ks = []" using none [of "x_sql s (x_tick s)"] by simp
  then show ?thesis using g by (simp add: do_retransmit_def ask_def)
qed

text \<open>
  C36: The retransmission timer resends nothing.  \<open>do_retransmit\<close> asks for the unacknowledged blocks of
  the remote host with the empty name, while every row the client writes carries the name
  \<open>ip:port\<close>; so on a table whose rows have a nonempty remote name it neither sends nor queues
  anything, whatever is unacknowledged and whatever the engine answers.
\<close>
theorem retransmit_finds_nothing:
  assumes "\<forall>r \<in> set (db_blocks (m_db s)). b_remote_id r \<noteq> ''''"
  shows "do_retransmit zc readers s = Some (s\<lparr>x_tick := x_tick s + 1\<rparr>)"
  using assms by (rule do_retransmit_named)

theorem retransmit_finds_nothing_witness:
  "do_retransmit (\<lambda>_ _ _. None) [] (sample_client lone_pool (one_row 77 0)) =
    Some ((sample_client lone_pool (one_row 77 0))\<lparr>x_tick := 1\<rparr>)"
  by (subst retransmit_finds_nothing) (simp_all add: sample_client_def one_row_def)

section \<open>Shuffling\<close>

definition zip4 :: "block_arrays \<Rightarrow> (u32 \<times> u64 \<times> u64 \<times> u64) list" where
  "zip4 = (\<lambda>(a, b, c, d). zip a (zip b (zip c d)))"

definition same_length :: "block_arrays \<Rightarrow> nat \<Rightarrow> bool" where
  "same_length = (\<lambda>(a, b, c, d) n. length a = n \<and> length b = n \<and> length c = n \<and> length d = n)"

lemma length_swap [simp]: "length (swap i j xs) = length xs"
  by (simp add: swap_def)

lemma nth_swap: "\<lbrakk>i < length xs; j < length xs; k < length xs\<rbrakk> \<Longrightarrow>
    swap i j xs ! k = xs ! (if k = i then j else if k = j then i else k)"
  by (auto simp: swap_def nth_list_update)

lemma swap_zip:
  assumes "i < length xs" "j < length xs" "length ys = length xs"
  shows "zip (swap i j xs) (swap i j ys) = swap i j (zip xs ys)"
  using assms by (intro nth_equalityI) (simp_all add: nth_swap)

lemma mset_swap_list: "\<lbrakk>i < length xs; j < length xs\<rbrakk> \<Longrightarrow> mset (swap i j xs) = mset xs"
  unfolding swap_def by (rule mset_swap)

lemma shuffle_from_perm:
  assumes "same_length (a, b, c, d) n" "i < n \<or> n = 0 \<and> i = 0"
  shows "\<exists>ar t. shuffle_from i (a, b, c, d) s = (ar, s\<lparr>x_tick := t\<rparr>) \<and> same_length ar n \<and>
    mset (zip4 ar) = mset (zip4 (a, b, c, d))"
  using assms
proof (induction i arbitrary: a b c d s)
  case 0
  then show ?case by (auto intro!: exI [of _ "x_tick s"])
next
  case (Suc i)
  let ?j = "x_rand s (x_tick s) mod (Suc i + 1)"
  let ?sw = "\<lambda>xs. swap (Suc i) ?j xs"
  have lt: "Suc i < n" using Suc.prems(2) by auto
  have "?j < Suc i + 1" by (rule mod_less_divisor) simp
  with lt have lt: "Suc i < n" "?j < n" by linarith+
  have len: "length a = n" "length b = n" "length c = n" "length d = n" using Suc.prems(1) by (auto simp: same_length_def)
  have z: "zip4 (?sw a, ?sw b, ?sw c, ?sw d) = swap (Suc i) ?j (zip4 (a, b, c, d))"
    using lt len by (simp add: zip4_def swap_zip)
  have "same_length (?sw a, ?sw b, ?sw c, ?sw d) n" "i < n \<or> n = 0 \<and> i = 0" using len lt by (auto simp: same_length_def)
  from Suc.IH [OF this, of "s\<lparr>x_tick := x_tick s + 1\<rparr>"] obtain ar t where
    ar: "shuffle_from i (?sw a, ?sw b, ?sw c, ?sw d) (s\<lparr>x_tick := x_tick s + 1\<rparr>) = (ar, s\<lparr>x_tick := x_tick s + 1\<rparr>\<lparr>x_tick := t\<rparr>)"
      "same_length ar n" "mset (zip4 ar) = mset (zip4 (?sw a, ?sw b, ?sw c, ?sw d))" by blast
  have "mset (zip4 ar) = mset (zip4 (a, b, c, d))"
    using ar(3) z lt len by (simp add: mset_swap_list zip4_def)
  moreover have "shuffle_from (Suc i) (a, b, c, d) s = (ar, s\<lparr>x_tick := t\<rparr>)"
    using ar(1) by (simp add: ask_def Let_def)
  ultimately show ?case using ar(2) by blast
qed

lemma shuffle_blocks_perm:
  assumes "same_length ar n"
  shows "\<exists>ar' t. shuffle_blocks ar n s = (ar', s\<lparr>x_tick := t\<rparr>) \<and> same_length ar' n \<and> mset (zip4 ar') = mset (zip4 ar)"
proof -
  obtain a b c d where "ar = (a, b, c, d)" by (metis prod_cases4)
  moreover have "n - 1 < n \<or> n = 0 \<and> n - 1 = 0" by auto
  ultimately show ?thesis
    using shuffle_from_perm [of a b c d n "n - 1" s] assms unfolding shuffle_blocks_def by blast
qed

text \<open>
  C35: The shuffle keeps the rows together.  Whatever the random numbers, shuffling the four parallel
  arrays permutes the rows (device, offset, hash, send time): none is lost, doubled or mixed with
  another, and nothing else of the client changes but the random source.
\<close>
theorem shuffle_blocks_permutes:
  assumes "same_length ar n"
  shows "\<exists>ar' t. shuffle_blocks ar n s = (ar', s\<lparr>x_tick := t\<rparr>) \<and> same_length ar' n \<and> mset (zip4 ar') = mset (zip4 ar)"
  using assms by (rule shuffle_blocks_perm)

theorem shuffle_blocks_permutes_witness:
  "\<exists>ar' t. shuffle_blocks ([1, 2], [10, 20], [100, 200], [5, 6]) 2 (sample_client lone_pool (one_row 77 0)) =
      (ar', (sample_client lone_pool (one_row 77 0))\<lparr>x_tick := t\<rparr>) \<and> same_length ar' 2 \<and>
    mset (zip4 ar') = {#(1, 10, 100, 5), (2, 20, 200, 6)#}"
  using shuffle_blocks_permutes [of "([1, 2], [10, 20], [100, 200], [5, 6])" 2 "sample_client lone_pool (one_row 77 0)"]
  by (simp add: same_length_def zip4_def)

section \<open>Losing a block\<close>

text \<open>
  C37: A block is lost when there is no connection.  When \<open>pool_acquire\<close> yields no connection, \<open>flush_one\<close>
  has already taken the oldest entry from the queue: it reports -1, the entry is gone from the
  queue, no byte has been written to any socket, and the tracking database still shows the block
  as it was.
\<close>
theorem flush_one_drops_block:
  assumes "\<not> m_dry_run s" "queue_ok (m_queue s)" "q_count (m_queue s) > 0"
    and "fst (pool_acquire (x_net s (x_tick s)) (x_time s (x_tick s + 1)) (m_pool s)) = None"
  shows "\<exists>s' e. flush_one zc s = Some (-1, s') \<and> q_list (m_queue s) = e # q_list (m_queue s') \<and>
    x_socks s' = x_socks s \<and> m_db s' = m_db s"
proof -
  obtain rc e q where p: "queue_pop (m_queue s) zero_entry = (rc, e, q)" by (metis prod_cases3)
  have r: "rc = 0" "q_list (m_queue s) = e # q_list q" using pop_ok [OF assms(2) p] assms(3) by auto
  obtain p' where a: "pool_acquire (x_net s (x_tick s)) (x_time s (x_tick s + 1)) (m_pool s) = (None, p')"
    using assms(4) by (metis prod.collapse)
  have "flush_one zc s = Some (-1, s\<lparr>m_queue := q, x_tick := x_tick s + 2, m_pool := p'\<rparr>)"
    using assms(1) a by (simp add: flush_one_def p r(1) acquire_def ask_def Let_def)
  then show ?thesis using r(2) by simp
qed

definition one_entry :: send_queue_t where
  "one_entry = snd (queue_push True (snd (queue_init True)) 1 0 7 [1])"

lemma one_entry_ok: "queue_ok one_entry \<and> q_count one_entry = 1"
proof -
  have c: "q_count one_entry = 1" by (simp add: one_entry_def queue_push_def queue_init_def QUEUE_ENTRY_MAX_PAYLOAD_def QUEUE_CAPACITY_def Let_def)
  obtain rc where r: "queue_push True (snd (queue_init True)) 1 0 7 [1] = (rc, one_entry)"
    by (metis one_entry_def prod.collapse)
  have "rc \<noteq> -1"
  proof
    assume "rc = -1"
    then have "one_entry = snd (queue_init True)" using r by (auto simp: queue_push_def Let_def split: if_splits)
    moreover have "q_count (snd (queue_init True)) = 0" by (simp add: queue_init_def)
    ultimately show False using c by (metis zero_neq_one)
  qed
  then show ?thesis using push_ok(1) [OF queue_init_ok(1) r] c by simp
qed

definition dead_pool :: socket_pool_t where
  "dead_pool = \<lparr>p_conns = replicate 7 (zero_conn\<lparr>c_fd := SOCKET_ERR\<rparr>), p_count = 0, p_next_index = 0, p_mutex = True\<rparr>"

theorem flush_one_drops_block_witness:
  "\<exists>s' e. flush_one (\<lambda>_ _ _. None) ((sample_client dead_pool (one_row 77 0))\<lparr>m_queue := one_entry\<rparr>) = Some (-1, s') \<and>
     q_list one_entry = e # q_list (m_queue s') \<and> x_socks s' = (\<lambda>_. \<lparr>sk_out = [], sk_script = []\<rparr>)"
proof -
  let ?s = "(sample_client dead_pool (one_row 77 0))\<lparr>m_queue := one_entry\<rparr>"
  have "pool_acquire (None, Refused) 0 dead_pool = (None, dead_pool)" by code_simp
  then have "fst (pool_acquire (x_net ?s (x_tick ?s)) (x_time ?s (x_tick ?s + 1)) (m_pool ?s)) = None"
    by (simp add: sample_client_def)
  then show ?thesis
    using flush_one_drops_block [of ?s "\<lambda>_ _ _. None"] one_entry_ok by (simp add: sample_client_def) blast
qed

lemma ack_entries_first:
  "\<lbrakk>t < length es; e_pending (es ! t); e_devno (es ! t) = d; e_offset (es ! t) = off;
    \<forall>j < t. \<not> (e_pending (es ! j) \<and> e_devno (es ! j) = d \<and> e_offset (es ! j) = off)\<rbrakk> \<Longrightarrow>
    ack_entries d off es = es[t := (es ! t)\<lparr>e_pending := False, e_payload := None\<rparr>]"
proof (induction es arbitrary: t)
  case (Cons e es)
  show ?case
  proof (cases t)
    case (Suc n)
    have "\<not> (e_pending e \<and> e_devno e = d \<and> e_offset e = off)" using Cons.prems(5) Suc by fastforce
    moreover have "\<forall>j < n. \<not> (e_pending (es ! j) \<and> e_devno (es ! j) = d \<and> e_offset (es ! j) = off)"
      using Cons.prems(5) Suc by (metis Suc_mono nth_Cons_Suc)
    ultimately show ?thesis using Cons.IH [of n] Cons.prems(1-4) Suc by auto
  qed (use Cons.prems in simp)
qed simp

text \<open>
  A crash.  \<open>queue_ack\<close> frees the first entry, in the order of the slots, that is waiting for an
  acknowledgement of the block; nothing keeps it from being an entry that is still in the queue.  If
  the head of the queue is such an entry (a second copy of the block, as \<open>queue_push\<close> makes under
  backpressure, where the ring has wrapped around between the copies), the acknowledgement of the first
  copy frees its payload, and the next \<open>flush_one\<close> with a connection at hand passes a null pointer to
  the compressor.
\<close>
theorem queued_duplicate_crash:
  assumes "\<not> m_dry_run s" "queue_ok (m_queue s)" "0 < q_count (m_queue s)" "has_idle (m_pool s)"
    and "is_ack r" "e = q_entries (m_queue s) ! q_tail (m_queue s)" "e_pending e" "resp_key r = (e_devno e, e_offset e)"
    and "\<forall>j < q_tail (m_queue s). let x = q_entries (m_queue s) ! j in \<not> (e_pending x \<and> (e_devno x, e_offset x) = resp_key r)"
  shows "flush_one zc (handle_response r s) = None"
proof -
  let ?q = "m_queue s" and ?s = "handle_response r s"
  let ?t = "q_tail ?q"
  have t: "?t < length (q_entries ?q)" using assms(2) by (simp add: queue_ok_def)
  have "ack_entries (r_devno r) (r_offset r) (q_entries ?q) = (q_entries ?q)[?t := e\<lparr>e_pending := False, e_payload := None\<rparr>]"
    using ack_entries_first [OF t] assms(6-9) by (simp add: resp_key_def Let_def)
  then have q: "m_queue ?s = ?q\<lparr>q_entries := (q_entries ?q)[?t := e\<lparr>e_pending := False, e_payload := None\<rparr>]\<rparr>"
    using assms(5) by (simp add: handle_response_def is_ack_def ack_block_def mark_acked_def run_sql_def ask_def queue_ack_def Let_def)
  obtain q' where pop: "queue_pop (m_queue ?s) zero_entry = (0, e\<lparr>e_pending := False, e_payload := None\<rparr>, q')"
    using assms(3) t by (simp add: q queue_pop_def Let_def)
  have "has_idle (m_pool (?s\<lparr>m_queue := q'\<rparr>))" using assms(4) by simp
  then obtain i u where "acquire (?s\<lparr>m_queue := q'\<rparr>) = (Some i, u)"
    using acquire_idle [OF _ prod.collapse [symmetric]] by (fastforce simp: acquire_def ask_def split_beta)
  then show ?thesis using pop assms(1) by (simp add: flush_one_def send_entry_def)
qed

text \<open>The last slot of the ring holds the copy that has been sent, the first slot the copy that is queued.\<close>

definition wrapped_queue :: send_queue_t where
  "wrapped_queue =
     (let q = (snd (queue_init True))\<lparr>q_head := 255, q_tail := 255\<rparr>;
          q = snd (queue_push True q 1 0 7 [1]);
          (_, _, q) = queue_pop q zero_entry
      in snd (queue_push True q 1 0 7 [1]))"

theorem queued_duplicate_crash_witness:
  "flush_one (\<lambda>_ _ _. None) (handle_response \<lparr>r_type = RESPONSE_ACK, r_devno = 1, r_size = 1, r_offset = 0\<rparr>
     ((sample_client lone_pool (one_row 77 0))\<lparr>m_queue := wrapped_queue\<rparr>)) = None"
proof -
  let ?r = "\<lparr>r_type = RESPONSE_ACK, r_devno = 1, r_size = 1, r_offset = 0\<rparr>" and ?s = "(sample_client lone_pool (one_row 77 0))\<lparr>m_queue := wrapped_queue\<rparr>"
  let ?e = "\<lparr>e_devno = 1, e_offset = 0, e_hash = 7, e_payload = Some [1], e_payload_len = 1, e_pending = True\<rparr>"
  have w: "wrapped_queue = \<lparr>q_entries = (replicate QUEUE_CAPACITY zero_entry)[255 := ?e, 0 := ?e], q_head = 1, q_tail = 0, q_count = 1,
      q_backpressure = False, q_mutex = True\<rparr>"
    by (simp add: wrapped_queue_def queue_init_def queue_push_def queue_pop_def Let_def QUEUE_CAPACITY_def QUEUE_ENTRY_MAX_PAYLOAD_def
        BACKPRESSURE_QUEUE_DEPTH_def)
  have q: "queue_ok (m_queue ?s)" "0 < q_count (m_queue ?s)" "q_tail (m_queue ?s) = 0" "q_entries (m_queue ?s) ! 0 = ?e"
    by (simp_all add: w queue_ok_def QUEUE_CAPACITY_def BACKPRESSURE_QUEUE_DEPTH_def)
  have a: "has_idle (m_pool ?s)" unfolding has_idle_def
    by (rule exI [of _ 6]) (simp add: sample_client_def lone_pool_def proto_consts SOCKET_ERR_def zero_conn_def nth_append)
  show ?thesis
    using queued_duplicate_crash [of ?s ?r ?e "\<lambda>_ _ _. None"] q a by (simp add: is_ack_def resp_key_def proto_consts sample_client_def)
qed

section \<open>Sending one block\<close>

lemma queue_push_free:
  assumes "queue_ok q" "q_count q + 1 < BACKPRESSURE_QUEUE_DEPTH" "length payload \<le> QUEUE_ENTRY_MAX_PAYLOAD"
  shows "\<exists>q'. queue_push True q devno off h payload = (0, q') \<and> queue_ok q' \<and>
    q_list q' = q_list q @ [\<lparr>e_devno = devno, e_offset = off, e_hash = h, e_payload = Some payload,
      e_payload_len = length payload, e_pending = True\<rparr>]"
proof -
  obtain rc q' where p: "queue_push True q devno off h payload = (rc, q')" by (metis surj_pair)
  have lt: "q_count q < QUEUE_CAPACITY"
    using assms(2) by (simp add: QUEUE_CAPACITY_def BACKPRESSURE_QUEUE_DEPTH_def)
  have cnt: "q_count q' = q_count q + 1 \<and> rc \<noteq> -1"
    using p lt assms(3) by (auto simp: queue_push_def Let_def split: if_splits)
  then have "rc = 0" using push_ok(2) [OF assms(1) p] assms(2) by simp
  then show ?thesis using p push_ok(1) [OF assms(1) p] cnt by auto
qed

text \<open>Encoding a block with memory to spare, and the size of the result.\<close>

lemma encode_block_free:
  assumes "writer_ok w" "length data \<le> BLOCK_SIZE"
  shows "\<exists>w'. msgpack_encode_block (\<lambda>_. True) w devno off data (of_nat (length data)) = Some (0, w') \<and>
    w_contents w' = block_encoding devno off data \<and> writer_ok w'"
proof -
  have len: "unat (of_nat (length data) :: u32) = length data"
    using assms(2) by (simp add: unat_of_nat BLOCK_SIZE_def take_bit_nat_eq_self)
  show ?thesis
    using msgpack_encode_block_appends [OF assms(1), of "of_nat (length data)" data "\<lambda>_. True" devno off]
    by (auto simp: len appends_def w_contents_def split: option.splits)
qed

lemma encoding_fits: "length data \<le> BLOCK_SIZE \<Longrightarrow> length (block_encoding devno off data) \<le> QUEUE_ENTRY_MAX_PAYLOAD"
  using length_block_encoding [of devno off data] by (simp add: QUEUE_ENTRY_MAX_PAYLOAD_def BLOCK_SIZE_def)

lemma view_upsert:
  "view (snd (sqlite_block_upsert_v Runs db devno off sz h 0 v)) = (view db)((devno, off) \<mapsto> (h, False))"
  using exec_view [of "Upsert Runs devno off sz h 0 v" db] by simp

lemma push_retry_free:
  assumes "queue_ok (m_queue s)" "q_count (m_queue s) + 1 < BACKPRESSURE_QUEUE_DEPTH" "\<forall>t. x_alloc s t"
    and "length payload \<le> QUEUE_ENTRY_MAX_PAYLOAD"
  shows "\<exists>q. push_retry zc devno off h payload retry s = Some (True, s\<lparr>m_queue := q, x_tick := x_tick s + 1\<rparr>) \<and>
    queue_ok q \<and> q_list q = q_list (m_queue s) @ [\<lparr>e_devno = devno, e_offset = off, e_hash = h, e_payload = Some payload,
      e_payload_len = length payload, e_pending = True\<rparr>]"
proof -
  obtain q where q: "queue_push True (m_queue s) devno off h payload = (0, q)" "queue_ok q"
    "q_list q = q_list (m_queue s) @ [\<lparr>e_devno = devno, e_offset = off, e_hash = h, e_payload = Some payload,
      e_payload_len = length payload, e_pending = True\<rparr>]"
    using queue_push_free [OF assms(1,2,4)] by blast
  then have "push_retry zc devno off h payload retry s = Some (True, s\<lparr>m_queue := q, x_tick := x_tick s + 1\<rparr>)"
    using assms(3) by (subst push_retry.simps) (simp add: ask_def)
  then show ?thesis using q(2,3) by blast
qed

text \<open>The block is encoded, queued and recorded as unacknowledged.\<close>

lemma queue_block_free:
  assumes "writer_ok (m_writer s)" "queue_ok (m_queue s)" "q_count (m_queue s) + 1 < BACKPRESSURE_QUEUE_DEPTH"
    and "\<forall>t. x_alloc s t" "\<forall>t. x_sql s t = Runs" "length data \<le> BLOCK_SIZE"
  shows "\<exists>s'. queue_block zc devno off data h s = Some (0, s') \<and>
    q_list (m_queue s') = q_list (m_queue s) @ [\<lparr>e_devno = devno, e_offset = off, e_hash = h,
      e_payload = Some (block_encoding devno off data), e_payload_len = length (block_encoding devno off data), e_pending = True\<rparr>] \<and>
    view (m_db s') = (view (m_db s))((devno, off) \<mapsto> (h, False)) \<and> x_socks s' = x_socks s"
proof -
  define t where "t = s\<lparr>x_tick := x_tick s + 1\<rparr>"
  obtain w where w: "msgpack_encode_block (\<lambda>_. True) (m_writer s) devno off data (of_nat (length data)) = Some (0, w)"
    "w_contents w = block_encoding devno off data"
    using encode_block_free [OF assms(1,6)] by blast
  have pl: "length (block_encoding devno off data) \<le> QUEUE_ENTRY_MAX_PAYLOAD" using encoding_fits [OF assms(6)] .
  obtain q where q: "push_retry zc devno off h (w_contents w) 0 (t\<lparr>m_writer := w\<rparr>) =
      Some (True, t\<lparr>m_writer := w, m_queue := q, x_tick := x_tick t + 1\<rparr>)"
    "q_list q = q_list (m_queue s) @ [\<lparr>e_devno = devno, e_offset = off, e_hash = h,
      e_payload = Some (block_encoding devno off data), e_payload_len = length (block_encoding devno off data), e_pending = True\<rparr>]"
    using push_retry_free [of "t\<lparr>m_writer := w\<rparr>" "w_contents w" zc devno off h 0] assms(2,3,4) pl w(2)
    by (auto simp: t_def)
  then show ?thesis
    using w assms(4,5) by (simp add: queue_block_def ask_def run_sql_def t_def view_upsert)
qed

text \<open>
  C10: Sending a block, branch by branch, when the queue is below the backpressure limit.  A read error
  is reported as -1 and an empty read as 0, with queue and database untouched.  A block that is
  already acknowledged, and in tail mode a block whose recorded hash equals the hash of the data
  just read, is skipped.  In every other case the encoded block is appended to the send queue with
  its device, offset and hash, and the database records the new hash as unacknowledged; no byte is
  sent yet.
\<close>
theorem send_block_outcome:
  assumes "writer_ok (m_writer s)" "queue_ok (m_queue s)" "q_count (m_queue s) + 1 < BACKPRESSURE_QUEUE_DEPTH"
    and "\<forall>t. x_alloc s t" "\<forall>t. x_sql s t = Runs"
    and "block_reader_read (x_disk s (x_tick s)) reader reader_offset (of_nat BLOCK_SIZE) = (rc, data)"
    and "length data \<le> BLOCK_SIZE"
  shows "\<exists>s'. send_block zc reader devno off reader_offset s = Some (if rc \<noteq> 0 then -1 else 0, s') \<and> x_socks s' = x_socks s \<and>
    (let h = hash_block data (length data) (hash_seed off) in
     if rc \<noteq> 0 \<or> data = [] \<or> sqlite_block_acked Runs (m_db s) devno off = 1 \<or>
        (m_tail_send s \<and> sqlite_block_lookup Runs (m_db s) devno off = (0, Some h))
     then m_queue s' = m_queue s \<and> m_db s' = m_db s
     else q_list (m_queue s') = q_list (m_queue s) @ [\<lparr>e_devno = devno, e_offset = off, e_hash = h,
            e_payload = Some (block_encoding devno off data), e_payload_len = length (block_encoding devno off data),
            e_pending = True\<rparr>] \<and>
          view (m_db s') = (view (m_db s))((devno, off) \<mapsto> (h, False)))"
proof -
  let ?h = "hash_block data (length data) (hash_seed off)"
  let ?t = "\<lambda>n. s\<lparr>x_tick := x_tick s + n\<rparr>"
  have qb: "\<exists>s'. queue_block zc devno off data ?h (?t n) = Some (0, s') \<and> x_socks s' = x_socks s \<and>
      q_list (m_queue s') = q_list (m_queue s) @ [\<lparr>e_devno = devno, e_offset = off, e_hash = ?h,
        e_payload = Some (block_encoding devno off data), e_payload_len = length (block_encoding devno off data), e_pending = True\<rparr>] \<and>
      view (m_db s') = (view (m_db s))((devno, off) \<mapsto> (?h, False))" for n
    using queue_block_free [of "?t n" data zc devno off ?h] assms by simp blast
  have sb: "send_block zc reader devno off reader_offset s =
     (if rc \<noteq> 0 then Some (-1, ?t 1) else if data = [] then Some (0, ?t 1)
      else if sqlite_block_acked Runs (m_db s) devno off = 1 then Some (0, ?t 2)
      else if m_tail_send s then
        if sqlite_block_lookup Runs (m_db s) devno off = (0, Some ?h) then Some (0, ?t 3)
        else queue_block zc devno off data ?h (?t 3)
      else queue_block zc devno off data ?h (?t 2))"
    using assms(5,6) by (simp add: send_block_def ask_def Let_def numeral_eq_Suc)
  show ?thesis
    unfolding sb using qb [of 3] qb [of 2] by (simp add: Let_def)
qed

definition empty_db :: sqlite_db where
  "empty_db = \<lparr>db_blocks = [], db_versions = [], db_remote_id = ''10.0.0.2:3389''\<rparr>"

theorem send_block_outcome_witness:
  "\<exists>s'. send_block (\<lambda>_ _ _. None) \<lparr>br_handle = 0, br_total_bytes = 3\<rparr> 1 0 0 (sample_client lone_pool empty_db) = Some (0, s') \<and>
     view (m_db s') (1, 0) = Some (hash_block [1, 2, 3] 3 (hash_seed 0), False)"
proof -
  let ?s = "sample_client lone_pool empty_db"
  have "writer_ok (m_writer ?s)" by (simp add: sample_client_def msgpack_writer_init_def writer_ok_def)
  moreover have "queue_ok (m_queue ?s)" using queue_init_ok(1) by (simp add: sample_client_def)
  moreover have "q_count (m_queue ?s) + 1 < BACKPRESSURE_QUEUE_DEPTH" by (simp add: sample_client_def queue_init_def BACKPRESSURE_QUEUE_DEPTH_def)
  moreover have "\<forall>t. x_alloc ?s t" "\<forall>t. x_sql ?s t = Runs" by (simp_all add: sample_client_def)
  moreover have "block_reader_read (x_disk ?s (x_tick ?s)) \<lparr>br_handle = 0, br_total_bytes = 3\<rparr> 0 (of_nat BLOCK_SIZE) = (0, [1, 2, 3])"
    by (simp add: sample_client_def block_reader_read_def)
  moreover have "length [1 :: byte, 2, 3] \<le> BLOCK_SIZE" by (simp add: BLOCK_SIZE_def)
  moreover have "sqlite_block_acked Runs (m_db ?s) 1 0 \<noteq> 1" "\<not> m_tail_send ?s"
    by (simp_all add: sample_client_def empty_db_def sqlite_block_acked_def)
  ultimately show ?thesis
    using send_block_outcome [of ?s "\<lparr>br_handle = 0, br_total_bytes = 3\<rparr>" 0 0 "[1, 2, 3]" "\<lambda>_ _ _. None" 1 0]
    by (auto simp: Let_def numeral_3_eq_3)
qed

text \<open>An acknowledgement that arrives on an open connection of a client in full mode.\<close>

lemma process_ack_one:
  fixes s :: client and r :: server_response_t
  assumes "\<not> m_dry_run s" "\<not> m_tail_send s" "\<forall>t. x_sql s t = Runs" "fd \<in> open_fds (m_pool s) [0..<SOCKET_POOL_TARGET]"
    and "is_ack r" "view (m_db s) (resp_key r) = Some (h, a)"
  shows "view (m_db (process_ack (s\<lparr>x_rx := \<lambda>f. if f = fd then [Avail (response_bytes r)] else []\<rparr>))) (resp_key r) = Some (h, True)"
proof -
  let ?t = "s\<lparr>x_rx := \<lambda>f. if f = fd then [Avail (response_bytes r)] else []\<rparr>" and ?rsp = "\<lambda>f. if f = fd then [r] else []"
  have rx: "\<forall>f. x_rx ?t f = (if f \<in> {} then [] else rx_of (?rsp f))" by (simp add: rx_of_def)
  have run: "process_ack ?t = fold (\<lambda>i s. let c = p_conns (m_pool s) ! i in if c_fd c = SOCKET_ERR then s else ack_loop (c_fd c) s)
      [0..<SOCKET_POOL_TARGET] ?t" using assms(1) by (simp add: process_ack_def)
  have "\<forall>k. x_sql ?t k = Runs" using assms(3) by simp
  then have "view (m_db (process_ack ?t)) =
      acked_on (\<Union>f \<in> open_fds (m_pool ?t) [0..<SOCKET_POOL_TARGET] - {}. sent_keys ?t (?rsp f)) (view (m_db ?t))"
    unfolding run by (rule ack_slots [OF _ rx, THEN conjunct1])
  moreover have "resp_key r \<in> (\<Union>f \<in> open_fds (m_pool ?t) [0..<SOCKET_POOL_TARGET] - {}. sent_keys ?t (?rsp f))"
    using assms(2,4,5) by (auto simp: sent_keys_def intro!: bexI [of _ fd])
  ultimately show ?thesis using assms(6) by (simp add: acked_on_def)
qed

section \<open>Sending the head of the queue\<close>

text \<open>With a connection at hand, one block leaves the queue and its frame is sent as far as the socket takes it.\<close>

lemma flush_one_attempt:
  fixes s :: client and zc :: "int \<Rightarrow> bytes \<Rightarrow> u64 \<Rightarrow> bytes option"
  assumes "\<not> m_dry_run s" "queue_ok (m_queue s)" "q_list (m_queue s) = e # rest"
    and "e_payload e = Some msg" "e_payload_len e = length msg" "msg = block_encoding devno off data" "length data \<le> BLOCK_SIZE_MAX"
    and "zstd_fits zc" "zc (m_zstd_level s) msg (ZSTD_COMPRESS_BOUND (of_nat (length msg))) = Some c"
    and "pool_ok (m_pool s)" "pool_acquire (x_net s (x_tick s)) (x_time s (x_tick s + 1)) (m_pool s) = (Some i, p)"
    and "c_send_scratch (p_conns p ! i) = Some scratch" "length scratch = SEND_SCRATCH_SIZE" "fd = c_fd (p_conns p ! i)"
    and "send_all (x_socks s fd) (data_frame c) = Some (rc, sk)"
  shows "\<exists>s'. flush_one zc s = Some (if rc = 0 then 1 else -1, s') \<and> x_socks s' = (x_socks s)(fd := sk) \<and> q_list (m_queue s') = rest \<and>
    m_db s' = m_db s \<and> \<not> m_dry_run s' \<and> m_tail_send s' = m_tail_send s \<and> x_sql s' = x_sql s \<and> x_rx s' = x_rx s \<and>
    i < SOCKET_POOL_TARGET \<and> c_fd (p_conns (m_pool s') ! i) = fd \<and> fd \<noteq> SOCKET_ERR \<and> \<not> c_in_use (p_conns (m_pool s') ! i)"
proof -
  note slot = acquire_slot [OF assms(10,11)]
  obtain prc e' q where pop: "queue_pop (m_queue s) zero_entry = (prc, e', q)" by (metis prod_cases3)
  have q: "prc = 0" "e' = e" "q_list q = rest"
    using pop_ok [OF assms(2) pop] assms(3) by (auto split: if_splits)
  have len: "length msg < 2 ^ 40" "length scratch < 2 ^ 40" "length msg + length msg div 8 + 71 \<le> length scratch"
    using assms(6,7,13) length_block_encoding [of devno off data] by (simp_all add: SEND_SCRATCH_SIZE_def proto_consts)
  obtain scratch' where w: "wire_send zc (x_socks s fd) msg (m_zstd_level s) scratch =
      map_option (\<lambda>(rc, fd'). (rc, scratch', fd')) (send_all (x_socks s fd) (data_frame c))"
    using wire_send_frame [OF assms(8) len assms(9)] by blast
  let ?t = "s\<lparr>m_queue := q, m_pool := p, x_tick := x_tick s + 2\<rparr>"
  have aq: "acquire (s\<lparr>m_queue := q\<rparr>) = (Some i, ?t)" using assms(11) by (simp add: acquire_def ask_def)
  have "i < length (p_conns p)" "c_fd (p_conns p ! i) = fd" using slot assms(14) by simp_all
  then have "\<exists>s'. send_entry zc i e ?t = Some (if rc = 0 then 1 else -1, s') \<and> x_socks s' = (x_socks s)(fd := sk) \<and> m_queue s' = q \<and>
      m_db s' = m_db s \<and> m_dry_run s' = m_dry_run s \<and> m_tail_send s' = m_tail_send s \<and> x_sql s' = x_sql s \<and> x_rx s' = x_rx s \<and>
      c_fd (p_conns (m_pool s') ! i) = fd \<and> \<not> c_in_use (p_conns (m_pool s') ! i)"
    using w assms(4,5,12,15)
    by (simp add: send_entry_def ask_def release_def upd_conn_def pool_release_def pool_touch_def rate_window_def Let_def)
  then show ?thesis using pop q aq assms(1) slot assms(14) by (auto simp: flush_one_def)
qed

lemma flush_one_sends:
  fixes s :: client and zc :: "int \<Rightarrow> bytes \<Rightarrow> u64 \<Rightarrow> bytes option"
  assumes "\<not> m_dry_run s" "queue_ok (m_queue s)" "q_list (m_queue s) = e # rest"
    and "e_payload e = Some msg" "e_payload_len e = length msg" "msg = block_encoding devno off data" "length data \<le> BLOCK_SIZE_MAX"
    and "zstd_fits zc" "zc (m_zstd_level s) msg (ZSTD_COMPRESS_BOUND (of_nat (length msg))) = Some c"
    and "pool_ok (m_pool s)" "pool_acquire (x_net s (x_tick s)) (x_time s (x_tick s + 1)) (m_pool s) = (Some i, p)"
    and "c_send_scratch (p_conns p ! i) = Some scratch" "length scratch = SEND_SCRATCH_SIZE" "fd = c_fd (p_conns p ! i)"
    and "takes (sk_script (x_socks s fd)) (length (data_frame c))"
  shows "\<exists>s'. flush_one zc s = Some (1, s') \<and> sk_out (x_socks s' fd) = sk_out (x_socks s fd) @ data_frame c \<and>
    q_list (m_queue s') = rest \<and> m_db s' = m_db s \<and> \<not> m_dry_run s' \<and> m_tail_send s' = m_tail_send s \<and> x_sql s' = x_sql s \<and>
    x_rx s' = x_rx s \<and> fd \<in> open_fds (m_pool s') [0..<SOCKET_POOL_TARGET]"
proof -
  obtain sk where sk: "send_all (x_socks s fd) (data_frame c) = Some (0, sk)" using assms(15) send_all_takes by blast
  then have out: "sk_out sk = sk_out (x_socks s fd) @ data_frame c" using send_all_result [OF sk] by auto
  from flush_one_attempt [OF assms(1-14) sk] obtain s' where s': "flush_one zc s = Some (1, s')" "x_socks s' = (x_socks s)(fd := sk)"
    "q_list (m_queue s') = rest" "m_db s' = m_db s" "\<not> m_dry_run s'" "m_tail_send s' = m_tail_send s" "x_sql s' = x_sql s" "x_rx s' = x_rx s"
    "i < SOCKET_POOL_TARGET" "c_fd (p_conns (m_pool s') ! i) = fd" "fd \<noteq> SOCKET_ERR" by auto
  moreover have "fd \<in> open_fds (m_pool s') [0..<SOCKET_POOL_TARGET]"
    unfolding open_fds_def using s'(9-11) by (intro CollectI exI [of _ i]) simp
  ultimately show ?thesis using out by auto
qed

text \<open>
  A torn frame.  When the socket fails in the middle of a frame (an interrupted \<open>send\<close>, say), \<open>flush_one\<close>
  reports -1, the block has left the queue, and the connection goes back to the pool as it is: open,
  idle, with a part of a frame behind it.  The next frame sent on it is what the receiver takes for
  the missing part.
\<close>
theorem torn_frame_connection_reused:
  fixes s :: client and zc :: "int \<Rightarrow> bytes \<Rightarrow> u64 \<Rightarrow> bytes option"
  assumes "\<not> m_dry_run s" "queue_ok (m_queue s)" "q_list (m_queue s) = e # rest"
    and "e_payload e = Some msg" "e_payload_len e = length msg" "msg = block_encoding devno off data" "length data \<le> BLOCK_SIZE_MAX"
    and "zstd_fits zc" "zc (m_zstd_level s) msg (ZSTD_COMPRESS_BOUND (of_nat (length msg))) = Some c"
    and "pool_ok (m_pool s)" "pool_acquire (x_net s (x_tick s)) (x_time s (x_tick s + 1)) (m_pool s) = (Some i, p)"
    and "c_send_scratch (p_conns p ! i) = Some scratch" "length scratch = SEND_SCRATCH_SIZE" "fd = c_fd (p_conns p ! i)"
    and "send_all (x_socks s fd) (data_frame c) = Some (-1, sk)"
  shows "\<exists>s' n. flush_one zc s = Some (-1, s') \<and> n < length (data_frame c) \<and> q_list (m_queue s') = rest \<and>
    sk_out (x_socks s' fd) = sk_out (x_socks s fd) @ take n (data_frame c) \<and>
    c_fd (p_conns (m_pool s') ! i) = fd \<and> fd \<noteq> SOCKET_ERR \<and> \<not> c_in_use (p_conns (m_pool s') ! i)"
  using flush_one_attempt [OF assms] send_all_result [OF assms(15)] by auto

end
