(* ===== verification/Incremental.thy ===== *)
theory Incremental
  imports Block_Transfer
begin

text \<open>
  The incremental synchronisation of \<^verbatim>\<open>client/main.c\<close>: \<open>do_incremental_round\<close> re-reads the
  unacknowledged blocks from the live disk, confirms those whose hash still equals the recorded one
  and sends the changed ones again; \<open>should_finish\<close> decides when the rounds end, \<open>timer_cb_real\<close> ends
  the session.

  The loop around \<open>queue_push\<close> of a round gives up after 301 attempts, so it is a structural
  recursion; its result code is 0 for queued, 1 for given up and 2 for a stopped client.
\<close>

section \<open>One round\<close>

fun inc_push ::
  "(int \<Rightarrow> bytes \<Rightarrow> u64 \<Rightarrow> bytes option) \<Rightarrow> u32 \<Rightarrow> u64 \<Rightarrow> u64 \<Rightarrow> bytes \<Rightarrow> nat \<Rightarrow> client \<Rightarrow> (nat \<times> client) option" where
  "inc_push zc devno off h payload 0 s = Some (1, s)"
| "inc_push zc devno off h payload (Suc n) s =
     (let (al, s) = ask x_alloc s;
          (rc, q) = queue_push al (m_queue s) devno off h payload;
          s = s\<lparr>m_queue := q\<rparr>
      in if rc = 0 then Some (0, s)
         else
           let (run, s) = ask x_running s in
           if \<not> run then Some (2, s)
           else
             case drain zc s of
               None \<Rightarrow> None
             | Some s \<Rightarrow> inc_push zc devno off h payload n (process_ack s))"

definition update_last_sent :: "u32 \<Rightarrow> u64 \<Rightarrow> u64 \<Rightarrow> client \<Rightarrow> client" where
  "update_last_sent devno off t = run_sql (\<lambda>eng db. sqlite_update_last_sent eng db devno off t)"

definition mark_stable :: "int \<Rightarrow> u32 \<Rightarrow> u64 \<Rightarrow> client \<Rightarrow> client" where
  "mark_stable version devno off =
     (if version > 0 then run_sql (\<lambda>eng db. sqlite_block_mark_verified eng db devno off version)
      else mark_acked devno off)"

text \<open>A changed block: the flag tells that it was queued, the code 2 that the client stops.\<close>

definition resend_block ::
  "(int \<Rightarrow> bytes \<Rightarrow> u64 \<Rightarrow> bytes option) \<Rightarrow> int \<Rightarrow> u64 \<Rightarrow> u32 \<Rightarrow> u64 \<Rightarrow> bytes \<Rightarrow> u64 \<Rightarrow> client \<Rightarrow> (nat \<times> client) option" where
  "resend_block zc version now_ms devno off data new_hash s =
     (let s = update_last_sent devno off now_ms s;
          (al, s) = ask x_alloc s
      in case msgpack_encode_block (\<lambda>_. al) (m_writer s) devno off data (of_nat (length data)) of
           None \<Rightarrow> None
         | Some (rc, w) \<Rightarrow>
             let s = s\<lparr>m_writer := w\<rparr> in
             if rc \<noteq> 0 then Some (1, s)
             else
               case inc_push zc devno off new_hash (w_contents w) 301 s of
                 None \<Rightarrow> None
               | Some (code, s) \<Rightarrow>
                   if code = 0 then
                     let s = run_sql (\<lambda>eng db. sqlite_block_upsert_v eng db devno off (of_nat (length data)) new_hash 0 version) s;
                         (t, s) = ask x_clock s
                     in Some (0, update_last_sent devno off t s)
                   else Some (code, s))"

definition live_of :: "reader_entry_t \<Rightarrow> block_reader" where
  "live_of e = (case re_live_reader e of Some r \<Rightarrow> r | None \<Rightarrow> re_reader e)"

definition cooling :: "u64 \<Rightarrow> u64 \<Rightarrow> bool" where
  "cooling now_ms last_sent \<longleftrightarrow>
     sint last_sent > 0 \<and> sint (now_ms - last_sent) < RETRANSMIT_MIN_INTERVAL_SEC * 1000"

fun inc_loop ::
  "(int \<Rightarrow> bytes \<Rightarrow> u64 \<Rightarrow> bytes option) \<Rightarrow> reader_entry_t list \<Rightarrow> reader_entry_t list \<Rightarrow> int \<Rightarrow> u64 \<Rightarrow>
   (u32 \<times> u64 \<times> u64 \<times> u64) list \<Rightarrow> int \<Rightarrow> client \<Rightarrow> (int \<times> client) option" where
  "inc_loop zc live_readers vss_readers version now_ms [] requeued s = Some (requeued, s)"
| "inc_loop zc live_readers vss_readers version now_ms ((devno, off, old_hash, last_sent) # rows) requeued s =
     (let (run, s) = ask x_running s in
      if \<not> run then Some (requeued, s)
      else if cooling now_ms last_sent then inc_loop zc live_readers vss_readers version now_ms rows requeued s
      else if queue_count (m_queue s) > 9 then Some (requeued, s)
      else
        case find (\<lambda>(v, l). covers devno off v) (zip vss_readers live_readers) of
          None \<Rightarrow> inc_loop zc live_readers vss_readers version now_ms rows requeued s
        | Some (v, entry) \<Rightarrow>
            let (pread, s) = ask x_disk s;
                (rc, data) = block_reader_read pread (live_of entry) off (of_nat BLOCK_SIZE)
            in if rc \<noteq> 0 then inc_loop zc live_readers vss_readers version now_ms rows requeued s
               else if data = [] then inc_loop zc live_readers vss_readers version now_ms rows requeued s
               else
                 let new_hash = hash_block data (length data) (hash_seed off) in
                 if new_hash = old_hash then
                   inc_loop zc live_readers vss_readers version now_ms rows requeued
                     (update_last_sent devno off now_ms (mark_stable version devno off s))
                 else
                   case resend_block zc version now_ms devno off data new_hash s of
                     None \<Rightarrow> None
                   | Some (code, s) \<Rightarrow>
                       if code = 2 then Some (requeued, s)
                       else inc_loop zc live_readers vss_readers version now_ms rows
                              (if code = 0 then requeued + 1 else requeued) s)"

definition do_incremental_round ::
  "(int \<Rightarrow> bytes \<Rightarrow> u64 \<Rightarrow> bytes option) \<Rightarrow> reader_entry_t list \<Rightarrow> reader_entry_t list \<Rightarrow> int \<Rightarrow> client \<Rightarrow> (int \<times> client) option" where
  "do_incremental_round zc live_readers vss_readers version s =
     (let (eng, s) = ask x_sql s;
          (count, rows) = sqlite_get_unacked_with_hash eng (m_db s) 4096
            (Some (remote_id_of (m_server_ip s) (m_server_port s)))
      in if count \<le> 0 then Some (0, s)
         else
           let arrays = (map fst rows, map (fst \<circ> snd) rows, map (fst \<circ> snd \<circ> snd) rows, map (snd \<circ> snd \<circ> snd) rows);
               (arrays, s) = shuffle_blocks arrays (nat count) s;
               (now_ms, s) = ask x_clock s
           in inc_loop zc live_readers vss_readers version now_ms (zip4 arrays) 0 s)"

section \<open>The end of the rounds\<close>

definition should_finish :: "int \<Rightarrow> int \<Rightarrow> client \<Rightarrow> bool \<times> client" where
  "should_finish requeued current_version s =
     (let remote_id = remote_id_of (m_server_ip s) (m_server_port s);
          (eng, s) = ask x_sql s;
          unacked = (if current_version > 0 then sqlite_count_unacked_v eng (m_db s) (Some remote_id) current_version
                     else sqlite_count_unacked eng (m_db s) (Some remote_id));
          (eng, s) = ask x_sql s;
          total = sqlite_count_blocks eng (m_db s) (-1) (-1)
      in if unacked = 0 then (True, s)
         else
           let (stable, s) =
             (if requeued = 0 then
                let s = s\<lparr>m_zero_change_rounds := m_zero_change_rounds s + 1\<rparr> in
                (m_zero_change_rounds s \<ge> CONVERGENCE_ZERO_ROUNDS \<and> unacked \<le> max (total div 20) 512, s)
              else (False, s\<lparr>m_zero_change_rounds := 0\<rparr>))
           in if stable then (True, s)
              else if m_inc_round s \<ge> MAX_INCREMENTAL_ROUNDS then (True, s)
              else (False, s))"

text \<open>The wait for \<open>SERVER_DONE\<close>, at most \<open>n\<close> rounds of polling.\<close>

fun wait_done :: "(int \<Rightarrow> bytes \<Rightarrow> u64 \<Rightarrow> bytes option) \<Rightarrow> nat \<Rightarrow> client \<Rightarrow> client option" where
  "wait_done zc 0 s = Some s"
| "wait_done zc (Suc n) s =
     (let (run, s) = ask x_running s in
      if run \<and> \<not> m_server_done_rcvd s then
        (case drain zc (process_ack s) of None \<Rightarrow> None | Some s \<Rightarrow> wait_done zc n s)
      else Some s)"

definition send_control :: "nat \<Rightarrow> bytes \<Rightarrow> nat \<Rightarrow> client \<Rightarrow> client option" where
  "send_control i msg len s =
     (let fd = c_fd (p_conns (m_pool s) ! i) in
      case wire_send_control (x_socks s fd) msg len of
        None \<Rightarrow> None
      | Some (rc, sk) \<Rightarrow> Some (s\<lparr>x_socks := (x_socks s)(fd := sk)\<rparr>))"

text \<open>\<open>ctlEndIncremental\<close> on an acquired connection; false when there is none.\<close>

definition send_ctl_end :: "client \<Rightarrow> (bool \<times> client) option" where
  "send_ctl_end s =
     (if m_ctl_end_sent s then Some (True, s)
      else
        case acquire s of
          (None, s) \<Rightarrow> Some (False, s)
        | (Some i, s) \<Rightarrow>
            (case send_control i CTL_END_INCREMENTAL CTL_END_INCREMENTAL_LEN s of
               None \<Rightarrow> None
             | Some s \<Rightarrow>
                 let (now, s) = ask x_time s
                 in Some (True, (release i (upd_conn i (pool_touch now) s))\<lparr>m_ctl_end_sent := True\<rparr>)))"

definition timer_cb_real :: "(int \<Rightarrow> bytes \<Rightarrow> u64 \<Rightarrow> bytes option) \<Rightarrow> client \<Rightarrow> (int \<times> client) option" where
  "timer_cb_real zc s =
     (case force_drain zc s of
        None \<Rightarrow> None
      | Some s \<Rightarrow>
          if m_dry_run s then Some (1, s\<lparr>m_all_done := True\<rparr>)
          else
            case send_ctl_end s of
              None \<Rightarrow> None
            | Some (sent, s) \<Rightarrow>
                if \<not> sent then Some (0, s)
                else
                  case wait_done zc 3000 (s\<lparr>m_server_done_rcvd := False\<rparr>) of
                    None \<Rightarrow> None
                  | Some s \<Rightarrow> Some (1, s\<lparr>m_all_done := True\<rparr>))"

section \<open>What the helpers keep\<close>

text \<open>The disks and the mode are kept, and in tail mode the tracking database.\<close>

definition keeps :: "client \<Rightarrow> client \<Rightarrow> bool" where
  "keeps s s' \<longleftrightarrow> x_disk s' = x_disk s \<and> m_tail_send s' = m_tail_send s \<and> (m_tail_send s \<longrightarrow> m_db s' = m_db s)"

lemma keeps_refl: "keeps s s"
  by (simp add: keeps_def)

lemma keeps_trans: "keeps s t \<Longrightarrow> keeps t u \<Longrightarrow> keeps s u"
  by (simp add: keeps_def)

lemma keeps_ack_block: "keeps s (ack_block d off s)"
  by (simp add: keeps_def ack_block_def mark_acked_def run_sql_def ask_def Let_def)

lemma keeps_handle_response: "keeps s (handle_response r s)"
  using keeps_ack_block by (simp add: handle_response_def keeps_def)

lemma keeps_ack_loop: "keeps s (ack_loop fd s)"
proof (induction fd s rule: ack_loop.induct)
  case (1 fd s)
  obtain rc resp rx' where p: "pool_recv_ack (x_rx s fd) = (rc, resp, rx')" by (metis prod_cases3)
  define t where "t = s\<lparr>x_rx := (x_rx s)(fd := rx')\<rparr>"
  have t: "keeps s t" by (simp add: keeps_def t_def)
  show ?case
  proof (cases "rc \<le> 0 \<or> resp = None")
    case True
    then have "ack_loop fd s = t" using p by (subst ack_loop.simps) (auto simp: t_def Let_def)
    then show ?thesis using t by simp
  next
    case False
    then obtain r where r: "resp = Some r" "\<not> rc \<le> 0" by auto
    then have "ack_loop fd s = ack_loop fd (handle_response r t)"
      using p by (subst ack_loop.simps) (simp add: t_def)
    moreover have "keeps (handle_response r t) (ack_loop fd (handle_response r t))"
      using "1.IH" [OF p [symmetric] refl t_def r(2) r(1)] .
    ultimately show ?thesis using t keeps_handle_response keeps_trans by metis
  qed
qed

lemma keeps_fold: "(\<And>x s. keeps s (f x s)) \<Longrightarrow> keeps s (fold f xs s)"
  by (induction xs arbitrary: s) (auto intro: keeps_refl keeps_trans)

lemma keeps_process_ack: "keeps s (process_ack s)"
  unfolding process_ack_def Let_def
  by (auto intro!: keeps_fold keeps_ack_block keeps_ack_loop keeps_refl)

lemma keeps_acquire: "acquire s = (c, s') \<Longrightarrow> keeps s s'"
  by (auto simp: acquire_def ask_def keeps_def split: prod.splits)

lemma keeps_send_entry: "send_entry zc i e s = Some (rc, s') \<Longrightarrow> keeps s s'"
  by (auto simp: send_entry_def keeps_def ask_def upd_conn_def release_def rate_window_def Let_def
      split: option.splits if_splits prod.splits)

lemma keeps_flush_one:
  assumes "flush_one zc s = Some (rc, s')"
  shows "keeps s s'"
proof -
  obtain prc e q where p: "queue_pop (m_queue s) zero_entry = (prc, e, q)" by (metis prod_cases3)
  let ?t = "s\<lparr>m_queue := q\<rparr>"
  obtain c s1 where a: "acquire ?t = (c, s1)" by (metis surj_pair)
  have "keeps s ?t" "keeps ?t s1" "\<And>d off. keeps ?t (ack_block d off ?t)"
    using keeps_acquire [OF a] keeps_ack_block by (simp_all add: keeps_def)
  then have "keeps s ?t" "keeps s s1" "\<And>d off. keeps s (ack_block d off ?t)"
    using keeps_trans by blast+
  then show ?thesis
    using assms a keeps_refl
    by (auto simp: flush_one_def p Let_def split: if_splits option.splits dest!: keeps_send_entry intro: keeps_trans)
qed

lemma keeps_drain: "drain zc s = Some s' \<Longrightarrow> keeps s s'"
proof (induction zc s arbitrary: s' rule: drain.induct)
  case (1 zc s)
  then obtain rc s1 where f: "flush_one zc s = Some (rc, s1)"
    by (auto simp: drain.simps [of zc s] split: option.splits)
  then show ?case
    using "1.prems" "1.IH" [OF f refl] keeps_flush_one [OF f]
    by (auto simp: drain.simps [of zc s] split: if_splits intro: keeps_trans)
qed

lemma keeps_inc_push: "inc_push zc d off h payload n s = Some (code, s') \<Longrightarrow> keeps s s'"
proof (induction n arbitrary: s)
  case (Suc n)
  obtain rc q where p: "queue_push (x_alloc s (x_tick s)) (m_queue s) d off h payload = (rc, q)" by (metis surj_pair)
  let ?t = "s\<lparr>x_tick := x_tick s + 1, m_queue := q\<rparr>" and ?u = "s\<lparr>m_queue := q, x_tick := x_tick s + 2\<rparr>"
  have k: "keeps s ?t" "keeps s ?u" by (simp_all add: keeps_def)
  have "inc_push zc d off h payload (Suc n) s =
      (if rc = 0 then Some (0, ?t) else if \<not> x_running s (x_tick s + 1) then Some (2, ?u)
       else case drain zc ?u of None \<Rightarrow> None | Some v \<Rightarrow> inc_push zc d off h payload n (process_ack v))"
    by (simp add: ask_def p Let_def)
  then show ?case
    using Suc.prems k Suc.IH keeps_process_ack
    by (auto split: if_splits option.splits dest!: keeps_drain) (meson keeps_trans)+
qed (simp add: keeps_refl)

section \<open>What a round confirms\<close>

text \<open>A view of the live disk, through one of the readers, has this hash at the block.\<close>

definition live_match :: "(nat \<Rightarrow> nat \<Rightarrow> u64 \<Rightarrow> u32 \<Rightarrow> bytes option) \<Rightarrow> reader_entry_t list \<Rightarrow> u32 \<times> u64 \<Rightarrow> u64 \<Rightarrow> bool" where
  "live_match disk readers k h \<longleftrightarrow> (\<exists>t. \<exists>e \<in> set readers. \<exists>data.
     block_reader_read (disk t) (live_of e) (snd k) (of_nat BLOCK_SIZE) = (0, data) \<and> data \<noteq> [] \<and>
     hash_block data (length data) (hash_seed (snd k)) = h)"

lemma view_run_sql:
  assumes "\<And>eng db. snd (f eng db) = exec_stmt (c eng) db"
  shows "view (m_db (run_sql f s)) =
      (case stmt_op (c (x_sql s (x_tick s))) of None \<Rightarrow> view (m_db s) | Some sop \<Rightarrow> spec_op sop (view (m_db s)))
    \<and> x_disk (run_sql f s) = x_disk s \<and> m_tail_send (run_sql f s) = m_tail_send s"
  by (simp add: run_sql_def ask_def assms exec_view)

lemma update_last_sent_view [simp]:
  "view (m_db (update_last_sent d off t s)) = view (m_db s)"
  "x_disk (update_last_sent d off t s) = x_disk s" "m_tail_send (update_last_sent d off t s) = m_tail_send s"
  using view_run_sql [of "\<lambda>eng db. sqlite_update_last_sent eng db d off t" "\<lambda>eng. LastSent eng d off t" s]
  by (auto simp: update_last_sent_def split: if_splits)

lemma upsert_view:
  fixes sz d :: u32 and off h :: u64 and v :: int and s :: client
  defines "s' \<equiv> run_sql (\<lambda>eng db. sqlite_block_upsert_v eng db d off sz h 0 v) s"
  shows "(view (m_db s') = view (m_db s) \<or> view (m_db s') = (view (m_db s))((d, off) \<mapsto> (h, False)))
    \<and> x_disk s' = x_disk s \<and> m_tail_send s' = m_tail_send s"
  using view_run_sql [of "\<lambda>eng db. sqlite_block_upsert_v eng db d off sz h 0 v" "\<lambda>eng. Upsert eng d off sz h 0 v" s]
  unfolding s'_def by (auto split: if_splits)

lemma mark_stable_view:
  fixes d :: u32 and off :: u64 and v :: int and s :: client
  defines "s' \<equiv> mark_stable v d off s"
  shows "(view (m_db s') = view (m_db s) \<or> view (m_db s') = acked_on {(d, off)} (view (m_db s)))
    \<and> x_disk s' = x_disk s \<and> m_tail_send s' = m_tail_send s"
proof -
  have a: "m((d, off) := map_option (\<lambda>(h, a). (h, True)) (m (d, off))) = acked_on {(d, off)} m" for m
    by (auto simp: acked_on_def)
  show ?thesis
    using view_run_sql [of "\<lambda>eng db. sqlite_block_mark_verified eng db d off v" "\<lambda>eng. MarkVerified eng d off v" s]
      view_run_sql [of "\<lambda>eng db. sqlite_block_mark_acked eng db d off" "\<lambda>eng. MarkAcked eng d off" s]
    unfolding s'_def mark_stable_def mark_acked_def by (auto simp: a split: if_splits)
qed

lemma resend_block_view:
  assumes "resend_block zc v now d off data nh s = Some (code, s')" "m_tail_send s"
  shows "(view (m_db s') = view (m_db s) \<or> view (m_db s') = (view (m_db s))((d, off) \<mapsto> (nh, False)))
    \<and> x_disk s' = x_disk s \<and> m_tail_send s'"
proof -
  let ?s1 = "update_last_sent d off now s"
  let ?s2 = "?s1\<lparr>x_tick := x_tick ?s1 + 1\<rparr>"
  obtain rc w where w: "msgpack_encode_block (\<lambda>_. x_alloc ?s1 (x_tick ?s1)) (m_writer ?s2) d off data (of_nat (length data)) = Some (rc, w)"
    using assms(1) by (auto simp: resend_block_def ask_def Let_def split: option.splits)
  show ?thesis
  proof (cases "rc = 0")
    case False
    then show ?thesis using assms w by (auto simp: resend_block_def ask_def Let_def)
  next
    case True
    let ?s3 = "?s2\<lparr>m_writer := w\<rparr>"
    obtain c s4 where p: "inc_push zc d off nh (w_contents w) 301 ?s3 = Some (c, s4)"
      using assms(1) w True by (auto simp: resend_block_def ask_def Let_def split: option.splits)
    have k: "view (m_db s4) = view (m_db s)" "x_disk s4 = x_disk s" "m_tail_send s4"
      using keeps_inc_push [OF p] assms(2) by (auto simp: keeps_def)
    show ?thesis
    proof (cases "c = 0")
      case False
      then show ?thesis using assms w True p k by (auto simp: resend_block_def ask_def Let_def)
    next
      case c0: True
      let ?s5 = "run_sql (\<lambda>eng db. sqlite_block_upsert_v eng db d off (of_nat (length data)) nh 0 v) s4"
      have "s' = update_last_sent d off (x_clock ?s5 (x_tick ?s5)) (?s5\<lparr>x_tick := x_tick ?s5 + 1\<rparr>)"
        using assms(1) w True p c0 by (simp add: resend_block_def ask_def Let_def)
      then show ?thesis using upsert_view [of d off "of_nat (length data)" nh v s4] k by simp
    qed
  qed
qed

text \<open>The rows still to be looked at agree with the table and have different keys.\<close>

definition rows_ok :: "(u32 \<times> u64 \<times> u64 \<times> u64) list \<Rightarrow> client \<Rightarrow> bool" where
  "rows_ok rows s \<longleftrightarrow> distinct (map (\<lambda>(d, off, _). (d, off)) rows) \<and>
     (\<forall>(d, off, h, _) \<in> set rows. \<exists>a. view (m_db s) (d, off) = Some (h, a))"

definition confirmed_ok :: "reader_entry_t list \<Rightarrow> client \<Rightarrow> client \<Rightarrow> bool" where
  "confirmed_ok readers s s' \<longleftrightarrow> (\<forall>k h. view (m_db s') k = Some (h, True) \<longrightarrow>
     view (m_db s) k = Some (h, True) \<or> live_match (x_disk s) readers k h)"

text \<open>Reading ahead: a step that changes at most the entry of the first row's block.\<close>

lemma rows_ok_tl:
  assumes "rows_ok ((d, off, h, l) # rows) s" "\<And>k. k \<noteq> (d, off) \<Longrightarrow> view (m_db s') k = view (m_db s) k"
  shows "rows_ok rows s'"
proof -
  have "(d', off') \<noteq> (d, off)" if "(d', off', h', l') \<in> set rows" for d' off' h' l'
    using that assms(1) by (force simp: rows_ok_def)
  then have "\<exists>a. view (m_db s') (d', off') = Some (h', a)" if "(d', off', h', l') \<in> set rows" for d' off' h' l'
    using that assms(1) assms(2) [of "(d', off')"] by (auto simp: rows_ok_def)
  then show ?thesis using assms(1) by (auto simp: rows_ok_def)
qed

lemma confirmed_step:
  assumes "confirmed_ok readers t s'" "x_disk t = x_disk s"
    and "\<And>k h. view (m_db t) k = Some (h, True) \<Longrightarrow> view (m_db s) k = Some (h, True) \<or> live_match (x_disk s) readers k h"
  shows "confirmed_ok readers s s'"
  using assms unfolding confirmed_ok_def by metis

lemma confirmed_refl: "view (m_db s') = view (m_db s) \<Longrightarrow> confirmed_ok readers s s'"
  by (simp add: confirmed_ok_def)

lemma inc_loop_confirmed:
  assumes "inc_loop zc live vss v now rows n s = Some (n', s')" "m_tail_send s" "rows_ok rows s"
  shows "confirmed_ok live s s'"
  using assms
proof (induction rows arbitrary: n s)
  case Nil
  then show ?case by (simp add: confirmed_refl)
next
  case (Cons row rows)
  obtain d off h l where row: "row = (d, off, h, l)" by (metis prod_cases4)
  note prems = Cons.prems [unfolded row]
  let ?s1 = "s\<lparr>x_tick := x_tick s + 1\<rparr>" and ?s2 = "s\<lparr>x_tick := x_tick s + 2\<rparr>"
  text \<open>Every way to go on with the rest of the rows.\<close>
  have rest: "confirmed_ok live s s'"
    if "inc_loop zc live vss v now rows m t = Some (n', s')" "m_tail_send t" "x_disk t = x_disk s"
      "\<And>k. k \<noteq> (d, off) \<Longrightarrow> view (m_db t) k = view (m_db s) k"
      "\<And>k x. view (m_db t) k = Some (x, True) \<Longrightarrow> view (m_db s) k = Some (x, True) \<or> live_match (x_disk s) live k x"
    for m t
    by (rule confirmed_step [OF Cons.IH [OF that(1,2) rows_ok_tl [OF prems(3) that(4)]] that(3,5)])
  have skip: "confirmed_ok live s s'"
    if "inc_loop zc live vss v now rows m t = Some (n', s')" "t = s\<lparr>x_tick := i\<rparr>" for m t i
    by (rule rest [OF that(1)]) (use prems(2) that(2) in simp_all)
  let ?find = "find (\<lambda>(v, l). covers d off v) (zip vss live)"
  consider (stop) "\<not> x_running s (x_tick s)" | (cool) "x_running s (x_tick s)" "cooling now l"
    | (full) "x_running s (x_tick s)" "\<not> cooling now l" "queue_count (m_queue s) > 9"
    | (none) "x_running s (x_tick s)" "\<not> cooling now l" "\<not> queue_count (m_queue s) > 9" "?find = None"
    | (go) "\<not> (\<not> x_running s (x_tick s) \<or> cooling now l \<or> queue_count (m_queue s) > 9 \<or> ?find = None)"
    by argo
  then show ?case
  proof cases
    case stop
    then have "s' = ?s1" using prems(1) by (simp add: ask_def Let_def)
    then show ?thesis by (simp add: confirmed_refl)
  next
    case cool
    then have "inc_loop zc live vss v now rows n ?s1 = Some (n', s')" using prems(1) by (simp add: ask_def Let_def)
    then show ?thesis by (rule skip) simp
  next
    case full
    then have "s' = ?s1" using prems(1) by (simp add: ask_def Let_def)
    then show ?thesis by (simp add: confirmed_refl)
  next
    case none
    then have "inc_loop zc live vss v now rows n ?s1 = Some (n', s')" using prems(1) by (simp add: ask_def Let_def)
    then show ?thesis by (rule skip) simp
  next
    case False: go
    then obtain ve e where e: "find (\<lambda>(v, l). covers d off v) (zip vss live) = Some (ve, e)" by auto
    then have elive: "e \<in> set live" by (auto simp: find_Some_iff set_zip dest: nth_mem)
    obtain rc data where rd: "block_reader_read (x_disk s (x_tick s + 1)) (live_of e) off (of_nat BLOCK_SIZE) = (rc, data)"
      by (metis surj_pair)
    show ?thesis
    proof (cases "rc \<noteq> 0 \<or> data = []")
      case True
      then have "inc_loop zc live vss v now rows n ?s2 = Some (n', s')"
        using prems(1) False e rd by (auto simp: ask_def Let_def split: if_splits)
      then show ?thesis by (rule skip) simp
    next
      case ok: False
      let ?nh = "hash_block data (length data) (hash_seed off)"
      show ?thesis
      proof (cases "?nh = h")
        case True
        let ?t = "update_last_sent d off now (mark_stable v d off ?s2)"
        have run: "inc_loop zc live vss v now rows n ?t = Some (n', s')"
          using prems(1) False e rd ok True by (simp add: ask_def Let_def)
        have m: "live_match (x_disk s) live (d, off) h"
          using elive rd ok True unfolding live_match_def by (intro exI [of _ "x_tick s + 1"] bexI [of _ e]) auto
        obtain a where a: "view (m_db s) (d, off) = Some (h, a)" using prems(3) by (auto simp: rows_ok_def)
        show ?thesis
          by (rule rest [OF run]) (use mark_stable_view [of v d off ?s2] prems(2) m a in \<open>auto simp: acked_on_def split: if_splits\<close>)
      next
        case changed: False
        obtain code t where t: "resend_block zc v now d off data ?nh ?s2 = Some (code, t)"
          using prems(1) False e rd ok changed by (auto simp: ask_def Let_def split: option.splits)
        note tv = resend_block_view [OF t]
        show ?thesis
        proof (cases "code = 2")
          case True
          then have "s' = t" using prems(1) False e rd ok changed t by (simp add: ask_def Let_def)
          then show ?thesis using tv prems(2) by (auto simp: confirmed_ok_def split: if_splits)
        next
          case go: False
          have run: "inc_loop zc live vss v now rows (if code = 0 then n + 1 else n) t = Some (n', s')"
            using prems(1) False e rd ok changed t go by (simp add: ask_def Let_def)
          show ?thesis by (rule rest [OF run]) (use tv prems(2) in \<open>auto split: if_splits\<close>)
        qed
      qed
    qed
  qed
qed

lemma zip4_maps:
  "zip4 (map fst rows, map (fst \<circ> snd) rows, map (fst \<circ> snd \<circ> snd) rows, map (snd \<circ> snd \<circ> snd) rows) = rows"
  unfolding zip4_def by (induction rows) auto

lemma row_of_mem: "\<lbrakk>db_inv db; r \<in> set (db_blocks db)\<rbrakk> \<Longrightarrow> row_of db (b_devno r, b_offset r) = Some r"
proof -
  assume a: "db_inv db" "r \<in> set (db_blocks db)"
  then obtain x where x: "row_of db (b_devno r, b_offset r) = Some x"
    by (cases "row_of db (b_devno r, b_offset r)") (auto simp: row_of_def find_None_iff has_key_def)
  then have "x \<in> set (db_blocks db)" "row_key x = row_key r"
    by (auto simp: row_of_def find_Some_iff has_key_def row_key_def)
  then have "x = r" using a by (auto simp: db_inv_def distinct_map dest: inj_onD)
  then show ?thesis using x by simp
qed

lemma get_unacked_rows_ok:
  assumes "db_inv db" "sqlite_get_unacked_with_hash eng db n rid = (cnt, rows)"
  shows "distinct (map (\<lambda>(d, off, _). (d, off)) rows) \<and> cnt \<le> int (length rows) \<and>
    (0 < cnt \<longrightarrow> nat cnt = length rows) \<and>
    (\<forall>(d, off, h, _) \<in> set rows. view db (d, off) = Some (h, False))"
proof (cases eng)
  case Runs
  let ?rs = "take (nat n) (sort_key age_key (filter (unacked (rid_of db rid)) (db_blocks db)))"
  have rows: "rows = map (\<lambda>r. (b_devno r, b_offset r, b_hash r, b_last_sent r)) ?rs" "cnt = int (length ?rs)"
    using assms(2) by (auto simp: Runs sqlite_get_unacked_with_hash_def Let_def)
  have "distinct (map row_key (filter (unacked (rid_of db rid)) (db_blocks db)))"
    using assms(1) by (simp add: db_inv_def distinct_map_filter)
  then have "distinct (map row_key (sort_key age_key (filter (unacked (rid_of db rid)) (db_blocks db))))"
    by (simp add: distinct_map)
  then have "distinct (map row_key ?rs)" by (simp only: take_map [symmetric] distinct_take)
  moreover have "map (\<lambda>(d, off, _). (d, off)) rows = map row_key ?rs" by (simp add: rows(1) row_key_def)
  moreover have "view db (b_devno r, b_offset r) = Some (b_hash r, False)" if "r \<in> set ?rs" for r
    using in_set_takeD [OF that] row_of_mem [OF assms(1), of r] by (auto simp: view_def unacked_def)
  moreover from this have "\<forall>(d, off, h, _) \<in> set rows. view db (d, off) = Some (h, False)"
    unfolding rows(1) by auto
  moreover have "cnt = int (length rows)" by (simp add: rows)
  ultimately show ?thesis by simp
qed (use assms(2) in \<open>auto simp: sqlite_get_unacked_with_hash_def\<close>)


definition sample_entry :: reader_entry_t where
  "sample_entry = \<lparr>re_reader = \<lparr>br_handle = 0, br_total_bytes = 3\<rparr>, re_live_reader = None, re_devno = 1,
     re_partition_offset = 0, re_block_count = 1, re_is_vss = False, re_name = ''C:'', re_part_index = 1, re_sent_count = 0\<rparr>"

definition tail_client :: "sqlite_db \<Rightarrow> client" where
  "tail_client db = (sample_client lone_pool db)\<lparr>m_tail_send := True\<rparr>"


section \<open>When the rounds end\<close>

text \<open>
  C32: The decision to finish.  With a working engine \<open>should_finish\<close> says yes exactly when no counted
  block is unacknowledged, or the last three rounds (this one included) resent nothing and at most
  512 blocks or five per cent of the table are unacknowledged, or sixty rounds have been done; a
  round that resent something sets the stable rounds back to zero.
\<close>
theorem should_finish_iff:
  assumes "\<forall>t. x_sql s t = Runs" "should_finish requeued v s = (fin, s')"
  defines "rid \<equiv> Some (remote_id_of (m_server_ip s) (m_server_port s))"
  defines "un \<equiv> if v > 0 then sqlite_count_unacked_v Runs (m_db s) rid v else sqlite_count_unacked Runs (m_db s) rid"
    and "all \<equiv> sqlite_count_blocks Runs (m_db s) (-1) (-1)"
  shows "(fin \<longleftrightarrow> un = 0 \<or> (requeued = 0 \<and> m_zero_change_rounds s + 1 \<ge> 3 \<and> (un \<le> 512 \<or> un \<le> all div 20)) \<or> m_inc_round s \<ge> 60)
    \<and> (un \<noteq> 0 \<longrightarrow> m_zero_change_rounds s' = (if requeued = 0 then m_zero_change_rounds s + 1 else 0))
    \<and> m_db s' = m_db s \<and> m_queue s' = m_queue s"
proof -
  let ?u = "s\<lparr>x_tick := x_tick s + 2\<rparr>"
  have "should_finish requeued v s =
    (if un = 0 then (True, ?u)
     else if requeued = 0 then
       (m_zero_change_rounds s + 1 \<ge> 3 \<and> un \<le> max (all div 20) 512 \<or> m_inc_round s \<ge> 60,
        ?u\<lparr>m_zero_change_rounds := m_zero_change_rounds s + 1\<rparr>)
     else (m_inc_round s \<ge> 60, ?u\<lparr>m_zero_change_rounds := 0\<rparr>))"
    using assms(1) unfolding un_def all_def rid_def
    by (simp add: should_finish_def ask_def Let_def proto_consts)
  then show ?thesis using assms(2) by (auto simp: max_def split: if_splits)
qed

theorem should_finish_iff_witness:
  "fst (should_finish 1 1 ((sample_client lone_pool (one_row 7 0))\<lparr>m_inc_round := 60\<rparr>))"
proof -
  let ?s = "(sample_client lone_pool (one_row 7 0))\<lparr>m_inc_round := 60\<rparr>"
  obtain fin s' where r: "should_finish 1 1 ?s = (fin, s')" by (metis surj_pair)
  have "fin" using should_finish_iff [OF _ r] by (simp add: sample_client_def)
  then show ?thesis using r by simp
qed

text \<open>
  Changed blocks do not keep the rounds going.  When every unacknowledged row of the remote host
  carries the number of the current round, as the blocks that this round has just resent do,
  \<open>should_finish\<close> reports perfect convergence, however many blocks were resent and although none of
  them has been acknowledged or verified.
\<close>
theorem finish_ignores_current_round:
  assumes "\<forall>t. x_sql s t = Runs" "0 < v"
    and "\<forall>r \<in> set (db_blocks (m_db s)). unacked (remote_id_of (m_server_ip s) (m_server_port s)) r \<longrightarrow> b_version r = v"
  shows "fst (should_finish requeued v s)"
proof -
  have "filter (\<lambda>r. unacked (remote_id_of (m_server_ip s) (m_server_port s)) r \<and> b_version r < v) (db_blocks (m_db s)) = []"
    using assms(3) by (auto simp: filter_empty_conv)
  then show ?thesis
    using assms(1,2) by (simp add: should_finish_def ask_def Let_def sqlite_count_unacked_v_def count_where_def rid_of_def)
qed

definition resent_row :: sqlite_db where
  "resent_row = snd (sqlite_block_upsert_v Runs (one_row 7 0) 1 0 8 9 0 1)"

theorem finish_ignores_current_round_witness:
  "fst (should_finish 1 1 (sample_client lone_pool resent_row)) \<and>
   sqlite_count_unacked Runs resent_row (Some ''10.0.0.2:3389'') = 1"
proof
  show "fst (should_finish 1 1 (sample_client lone_pool resent_row))"
    by (rule finish_ignores_current_round)
      (simp_all add: sample_client_def resent_row_def one_row_def sqlite_block_upsert_v_def has_key_def)
  show "sqlite_count_unacked Runs resent_row (Some ''10.0.0.2:3389'') = 1"
    by (simp add: resent_row_def one_row_def sqlite_block_upsert_v_def has_key_def sqlite_count_unacked_def
        count_where_def rid_of_def unacked_def)
qed

end
