(* ===== verification/Vss.thy ===== *)
theory Vss
  imports Config "HOL-Library.State_Monad"
begin

text \<open>
  The snapshot module, \<^verbatim>\<open>client/vss.c\<close> (the Windows part): \<open>vss_init_ex\<close>, \<open>vss_create_snapshots\<close>,
  \<open>vss_backup_complete\<close>, \<open>vss_cleanup\<close>, \<open>vss_query_snapshots\<close> and the deletion of snapshots.

  The shadow copy service, COM and the C library are a parameter, the record \<open>win_env\<close>: its field
  \<open>we_call\<close> answers every call from the calls made so far, so that any behaviour of the service is an
  instance.  The state threaded by the state monad is the trace of the calls with their answers; what
  the module does to the service is read off the trace: \<open>held\<close> counts what it has obtained and not given
  back, \<open>lifecycle\<close> is the order in which the interface \<open>IVssBackupComponents\<close> may be used.

  \<open>wp m Q tr\<close> says that \<open>Q\<close> holds of the result and the trace after running \<open>m\<close> from \<open>tr\<close>; the rules
  collected in \<open>vss_wp\<close> take a program apart call by call.
\<close>

named_theorems vss_wp \<open>rules that take a program over the snapshot service apart\<close>

section \<open>The service\<close>

type_synonym wide = "16 word list"
type_synonym hresult = "32 word"

record vss_guid =
  g_data1 :: u32
  g_data2 :: "16 word"
  g_data3 :: "16 word"
  g_data4 :: bytes

definition GUID_NULL :: vss_guid where
  "GUID_NULL = \<lparr>g_data1 = 0, g_data2 = 0, g_data3 = 0, g_data4 = replicate 8 0\<rparr>"

record snapshot_prop =
  sp_id :: vss_guid
  sp_original :: "wide option"
  sp_device :: "wide option"
  sp_created :: u64

record systemtime =
  st_year :: nat
  st_month :: nat
  st_day :: nat
  st_hour :: nat
  st_minute :: nat
  st_second :: nat

datatype vss_call =
    Calloc | Free | LoadLibraryA string | FreeLibrary | GetProcAddress string
  | CoInitializeEx | CoUninitialize | CreateVssBackupComponents | ReleaseComponents
  | InitializeForBackup | SetContext u32 | SetBackupState bool bool nat bool
  | GatherWriterMetadata | WaitAsync u32 | ReleaseAsync
  | StartSnapshotSet | AddToSnapshotSet wide | PrepareForBackup | DoSnapshotSet
  | GetSnapshotProperties vss_guid | VssFreeSnapshotProperties | Sleep nat | BackupComplete
  | QueryObjects | EnumNext | ReleaseEnum | DeleteSnapshots vss_guid

text \<open>The answer to a call: its result code, whether the pointer returned (an allocation, a module, an
  address, an object) is not \<open>NULL\<close>, and the out parameters.\<close>

record vss_reply =
  rp_hr :: hresult
  rp_ptr :: bool
  rp_id :: vss_guid
  rp_prop :: snapshot_prop
  rp_fetched :: u32
  rp_deleted :: u32

type_synonym vss_trace = "(vss_call \<times> vss_reply) list"
type_synonym 'a vss = "(vss_trace, 'a) state"

text \<open>\<open>we_to_wide n\<close> and \<open>we_to_ansi n\<close> are the contents of a buffer of \<open>n\<close> characters after the
  conversion of a string, \<open>we_clsid\<close> and \<open>we_systemtime\<close> the conversions of GUIDs and times, with
  \<open>None\<close> for failure.\<close>

record win_env =
  we_call :: "vss_trace \<Rightarrow> vss_call \<Rightarrow> vss_reply"
  we_to_wide :: "nat \<Rightarrow> string \<Rightarrow> wide"
  we_to_ansi :: "nat \<Rightarrow> wide \<Rightarrow> string"
  we_clsid :: "wide \<Rightarrow> vss_guid option"
  we_systemtime :: "u32 \<Rightarrow> u32 \<Rightarrow> systemtime option"

definition call :: "win_env \<Rightarrow> vss_call \<Rightarrow> vss_reply vss" where
  "call env c = State (\<lambda>tr. let a = we_call env tr c in (a, tr @ [(c, a)]))"

definition FAILED :: "hresult \<Rightarrow> bool" where
  "FAILED hr = (sint hr < 0)"

definition RPC_E_CHANGED_MODE :: hresult where "RPC_E_CHANGED_MODE = 0x80010106"
definition VSS_CTX_BACKUP :: u32 where "VSS_CTX_BACKUP = 0"
definition VSS_CTX_CLIENT_ACCESSIBLE :: u32 where "VSS_CTX_CLIENT_ACCESSIBLE = 0x1d"
definition VSS_VOLSNAP_ATTR_NO_WRITERS :: u32 where "VSS_VOLSNAP_ATTR_NO_WRITERS = 0x10"
definition VSS_BT_COPY :: nat where "VSS_BT_COPY = 5"
definition VSS_MAX_VOLUMES :: nat where "VSS_MAX_VOLUMES = 16"
definition VSS_SNAPSHOT_PATH_MAX :: nat where "VSS_SNAPSHOT_PATH_MAX = 512"

section \<open>Initialisation and cleanup\<close>

record vss_context =
  cx_vssapi_dll :: bool
  cx_backup_components :: bool
  cx_context :: u32
  cx_initialized :: bool
  cx_snapshot_set_started :: bool

definition vss_init_ex :: "win_env \<Rightarrow> u32 \<Rightarrow> vss_context option vss" where
  "vss_init_ex env context = do {
     ctx \<leftarrow> call env Calloc;
     if \<not> rp_ptr ctx then State_Monad.return None
     else do {
       dll \<leftarrow> call env (LoadLibraryA ''vssapi.dll'');
       if \<not> rp_ptr dll then do { call env Free; State_Monad.return None }
       else do {
         pfn \<leftarrow> call env (GetProcAddress ''CreateVssBackupComponentsInternal'');
         pfn \<leftarrow> (if \<not> rp_ptr pfn then call env (GetProcAddress ''CreateVssBackupComponents'') else State_Monad.return pfn);
         if \<not> rp_ptr pfn then do { call env FreeLibrary; call env Free; State_Monad.return None }
         else do {
           co \<leftarrow> call env CoInitializeEx;
           if FAILED (rp_hr co) \<and> rp_hr co \<noteq> RPC_E_CHANGED_MODE then do {
             call env FreeLibrary; call env Free; State_Monad.return None }
           else do {
             bc \<leftarrow> call env CreateVssBackupComponents;
             if FAILED (rp_hr bc) then do {
               call env CoUninitialize; call env FreeLibrary; call env Free; State_Monad.return None }
             else do {
               ini \<leftarrow> call env InitializeForBackup;
               if FAILED (rp_hr ini) then do {
                 call env ReleaseComponents; call env CoUninitialize; call env FreeLibrary; call env Free;
                 State_Monad.return None }
               else do {
                 set \<leftarrow> (if context \<noteq> VSS_CTX_BACKUP
                         then do { a \<leftarrow> call env (SetContext context); State_Monad.return (\<not> FAILED (rp_hr a)) }
                         else State_Monad.return True);
                 if \<not> set then do {
                   call env ReleaseComponents; call env CoUninitialize; call env FreeLibrary; call env Free;
                   State_Monad.return None }
                 else State_Monad.return (Some \<lparr>cx_vssapi_dll = True, cx_backup_components = rp_ptr bc, cx_context = context,
                   cx_initialized = True, cx_snapshot_set_started = False\<rparr>)
   } } } } } } }"

definition vss_init :: "win_env \<Rightarrow> vss_context option vss" where
  "vss_init env = vss_init_ex env VSS_CTX_BACKUP"

definition vss_cleanup :: "win_env \<Rightarrow> vss_context option \<Rightarrow> unit vss" where
  "vss_cleanup env ctx =
     (case ctx of
        None \<Rightarrow> State_Monad.return ()
      | Some ctx \<Rightarrow> do {
          (if cx_backup_components ctx then do { call env ReleaseComponents; State_Monad.return () } else State_Monad.return ());
          call env CoUninitialize;
          (if cx_vssapi_dll ctx then do { call env FreeLibrary; State_Monad.return () } else State_Monad.return ());
          call env Free;
          State_Monad.return () })"

section \<open>Creating snapshots\<close>

record vss_snapshot_t =
  sn_original_volume :: string
  sn_snapshot_path :: string
  sn_snapshot_id :: "u64 \<times> u64"
  sn_valid :: bool

definition no_snapshot :: vss_snapshot_t where
  "no_snapshot = \<lparr>sn_original_volume = [], sn_snapshot_path = [], sn_snapshot_id = (0, 0), sn_valid = False\<rparr>"

text \<open>\<open>memcpy\<close> of a GUID into two 64-bit words.\<close>

definition guid_bytes :: "vss_guid \<Rightarrow> bytes" where
  "guid_bytes g =
     le32 (g_data1 g) @ [ucast (g_data2 g), ucast (drop_bit 8 (g_data2 g)), ucast (g_data3 g), ucast (drop_bit 8 (g_data3 g))] @ g_data4 g"

definition guid_words :: "vss_guid \<Rightarrow> u64 \<times> u64" where
  "guid_words g = (of_le64 (guid_bytes g), of_le64 (drop 8 (guid_bytes g)))"

text \<open>Waiting for an asynchronous operation, where the call returned one.\<close>

definition await_async :: "win_env \<Rightarrow> u32 \<Rightarrow> vss_reply \<Rightarrow> unit vss" where
  "await_async env ms a =
     (if rp_ptr a then do { call env (WaitAsync ms); call env ReleaseAsync; State_Monad.return () }
      else State_Monad.return ())"

text \<open>The volumes added to the snapshot set: the identifiers of those the service accepts.\<close>

fun add_volumes :: "win_env \<Rightarrow> string list \<Rightarrow> vss_guid list vss" where
  "add_volumes env [] = State_Monad.return []"
| "add_volumes env (v # vs) = do {
     a \<leftarrow> call env (AddToSnapshotSet (we_to_wide env 64 (snprintf 64 (v @ [CHR 0x5C]))));
     ids \<leftarrow> add_volumes env vs;
     State_Monad.return (if FAILED (rp_hr a) then ids else rp_id a # ids) }"

text \<open>The query of a snapshot's properties, with \<open>k\<close> retries left.\<close>

fun props_retry :: "win_env \<Rightarrow> vss_guid \<Rightarrow> nat \<Rightarrow> vss_reply \<Rightarrow> vss_reply vss" where
  "props_retry env sid 0 a = State_Monad.return a"
| "props_retry env sid (Suc k) a =
     (if FAILED (rp_hr a) then do {
        call env (Sleep 10);
        a \<leftarrow> call env (GetSnapshotProperties sid);
        props_retry env sid k a }
      else State_Monad.return a)"

definition ansi_field :: "win_env \<Rightarrow> nat \<Rightarrow> wide option \<Rightarrow> string" where
  "ansi_field env n w = (case w of None \<Rightarrow> [] | Some w \<Rightarrow> we_to_ansi env n w)"

definition snapshot_of :: "win_env \<Rightarrow> vss_guid \<Rightarrow> snapshot_prop \<Rightarrow> vss_snapshot_t" where
  "snapshot_of env sid p =
     \<lparr>sn_original_volume = ansi_field env 64 (sp_original p),
      sn_snapshot_path = ansi_field env VSS_SNAPSHOT_PATH_MAX (sp_device p),
      sn_snapshot_id = guid_words sid, sn_valid = True\<rparr>"

fun query_props :: "win_env \<Rightarrow> vss_guid list \<Rightarrow> nat \<Rightarrow> vss_snapshot_t list \<Rightarrow> (nat \<times> vss_snapshot_t list) vss" where
  "query_props env [] n snaps = State_Monad.return (n, snaps)"
| "query_props env (sid # ids) n snaps = do {
     a \<leftarrow> call env (GetSnapshotProperties sid);
     a \<leftarrow> props_retry env sid 20 a;
     if FAILED (rp_hr a) then query_props env ids n snaps
     else do {
       call env VssFreeSnapshotProperties;
       query_props env ids (n + 1) (snaps[n := snapshot_of env sid (rp_prop a)]) } }"

definition persistent :: "vss_context \<Rightarrow> bool" where
  "persistent ctx = (cx_context ctx AND VSS_VOLSNAP_ATTR_NO_WRITERS \<noteq> 0)"

text \<open>From the added volumes on: the snapshots are taken and their paths read.\<close>

definition take_snapshot_set :: "win_env \<Rightarrow> vss_context \<Rightarrow> vss_guid list \<Rightarrow> vss_snapshot_t list \<Rightarrow> (int \<times> vss_snapshot_t list) vss" where
  "take_snapshot_set env ctx ids snaps = do {
     prepared \<leftarrow> (if persistent ctx then State_Monad.return True
       else do {
         a \<leftarrow> call env PrepareForBackup;
         if FAILED (rp_hr a) then State_Monad.return False
         else do { await_async env 30000 a; State_Monad.return True } });
     if \<not> prepared then State_Monad.return (-1, snaps)
     else do {
       a \<leftarrow> call env DoSnapshotSet;
       if FAILED (rp_hr a) then State_Monad.return (-1, snaps)
       else do {
         await_async env 0xFFFFFFFF a;
         r \<leftarrow> query_props env ids 0 snaps;
         State_Monad.return (int (fst r), snd r) } } }"

definition vss_create_snapshots ::
  "win_env \<Rightarrow> vss_context option \<Rightarrow> string list option \<Rightarrow> vss_snapshot_t list option \<Rightarrow>
   (int \<times> vss_snapshot_t list option \<times> vss_context option) vss" where
  "vss_create_snapshots env ctx_ptr volumes snapshots =
     (case (ctx_ptr, volumes, snapshots) of
        (Some ctx, Some volumes, Some snaps) \<Rightarrow>
          if \<not> cx_initialized ctx then State_Monad.return (-1, Some snaps, Some ctx)
          else do {
            a \<leftarrow> call env (SetBackupState False True VSS_BT_COPY False);
            if FAILED (rp_hr a) then State_Monad.return (-1, Some snaps, Some ctx)
            else do {
              (if \<not> persistent ctx then do { a \<leftarrow> call env GatherWriterMetadata; await_async env 30000 a }
               else State_Monad.return ());
              a \<leftarrow> call env StartSnapshotSet;
              if FAILED (rp_hr a) then State_Monad.return (-1, Some snaps, Some ctx)
              else do {
                ids \<leftarrow> add_volumes env (take VSS_MAX_VOLUMES volumes);
                if ids = [] then State_Monad.return (-1, Some snaps, Some (ctx\<lparr>cx_snapshot_set_started := True\<rparr>))
                else do {
                  r \<leftarrow> take_snapshot_set env ctx ids snaps;
                  State_Monad.return (fst r, Some (snd r), Some (ctx\<lparr>cx_snapshot_set_started := True\<rparr>)) } } } }
      | _ \<Rightarrow> State_Monad.return (-1, snapshots, ctx_ptr))"

definition vss_backup_complete :: "win_env \<Rightarrow> vss_context option \<Rightarrow> int vss" where
  "vss_backup_complete env ctx =
     (case ctx of
        None \<Rightarrow> State_Monad.return (-1)
      | Some ctx \<Rightarrow>
          if \<not> cx_backup_components ctx then State_Monad.return (-1)
          else if persistent ctx then State_Monad.return 0
          else do {
            a \<leftarrow> call env BackupComplete;
            if FAILED (rp_hr a) then State_Monad.return (-1)
            else do { await_async env 10000 a; State_Monad.return 0 } })"

definition vss_snapshot_device_path :: "vss_snapshot_t \<Rightarrow> string option" where
  "vss_snapshot_device_path snap = (if sn_valid snap then Some (sn_snapshot_path snap) else None)"


section \<open>Listing and deleting snapshots\<close>

record vss_snapshot_info_t =
  si_snapshot_id_str :: string
  si_original_volume :: string
  si_snapshot_path :: string
  si_creation_time :: string
  si_snapshot_id :: "u64 \<times> u64"

text \<open>The conversions \<open>%0nx\<close> and \<open>%0nd\<close>.\<close>

definition hex_digit :: "nat \<Rightarrow> char" where
  "hex_digit d = (if d < 10 then char_of (48 + d) else char_of (87 + d))"

fun fmt_x :: "nat \<Rightarrow> nat \<Rightarrow> string" where
  "fmt_x 0 v = []"
| "fmt_x (Suc n) v = fmt_x n (v div 16) @ [hex_digit (v mod 16)]"

definition fmt_0d :: "nat \<Rightarrow> nat \<Rightarrow> string" where
  "fmt_0d n v = replicate (n - length (fmt_d (int v))) (CHR ''0'') @ fmt_d (int v)"

definition guid_string :: "vss_guid \<Rightarrow> string" where
  "guid_string g =
     snprintf 64 (CHR ''{'' # fmt_x 8 (unat (g_data1 g)) @ CHR ''-'' # fmt_x 4 (unat (g_data2 g)) @ CHR ''-'' #
       fmt_x 4 (unat (g_data3 g)) @ CHR ''-'' # concat (map (\<lambda>b. fmt_x 2 (unat b)) (take 2 (g_data4 g))) @ CHR ''-'' #
       concat (map (\<lambda>b. fmt_x 2 (unat b)) (drop 2 (g_data4 g))) @ ''}'')"

definition creation_time :: "win_env \<Rightarrow> u64 \<Rightarrow> string" where
  "creation_time env ts =
     (case we_systemtime env (ucast ts) (ucast (drop_bit 32 ts)) of
        None \<Rightarrow> []
      | Some t \<Rightarrow> snprintf 64 (fmt_0d 4 (st_year t) @ CHR ''-'' # fmt_0d 2 (st_month t) @ CHR ''-'' # fmt_0d 2 (st_day t) @ CHR '' '' #
          fmt_0d 2 (st_hour t) @ CHR '':'' # fmt_0d 2 (st_minute t) @ CHR '':'' # fmt_0d 2 (st_second t)))"

definition snapshot_info :: "win_env \<Rightarrow> snapshot_prop \<Rightarrow> vss_snapshot_info_t" where
  "snapshot_info env p =
     \<lparr>si_snapshot_id_str = take 63 (guid_string (sp_id p)), si_original_volume = ansi_field env 64 (sp_original p),
      si_snapshot_path = ansi_field env VSS_SNAPSHOT_PATH_MAX (sp_device p), si_creation_time = creation_time env (sp_created p),
      si_snapshot_id = guid_words (sp_id p)\<rparr>"

text \<open>The enumeration, with room for \<open>k\<close> more entries.\<close>

fun query_loop :: "win_env \<Rightarrow> nat \<Rightarrow> nat \<Rightarrow> vss_snapshot_info_t list \<Rightarrow> (nat \<times> vss_snapshot_info_t list) vss" where
  "query_loop env 0 n info = State_Monad.return (n, info)"
| "query_loop env (Suc k) n info = do {
     a \<leftarrow> call env EnumNext;
     if FAILED (rp_hr a) \<or> rp_fetched a = 0 then State_Monad.return (n, info)
     else query_loop env k (n + 1) (info[n := snapshot_info env (rp_prop a)]) }"

definition vss_query_snapshots :: "win_env \<Rightarrow> vss_snapshot_info_t list option \<Rightarrow> int \<Rightarrow> (int \<times> vss_snapshot_info_t list option) vss" where
  "vss_query_snapshots env info_ptr max_count =
     (case info_ptr of
        None \<Rightarrow> State_Monad.return (-1, None)
      | Some info \<Rightarrow>
          if max_count \<le> 0 then State_Monad.return (-1, Some info)
          else do {
            ctx \<leftarrow> vss_init_ex env 0x1d;
            if ctx = None then State_Monad.return (-1, Some info)
            else do {
              a \<leftarrow> call env QueryObjects;
              if FAILED (rp_hr a) then do { vss_cleanup env ctx; State_Monad.return (-1, Some info) }
              else do {
                r \<leftarrow> query_loop env (nat max_count) 0 info;
                call env ReleaseEnum;
                vss_cleanup env ctx;
                State_Monad.return (int (fst r), Some (snd r)) } } })"

definition delete_in :: "win_env \<Rightarrow> vss_context option \<Rightarrow> vss_guid \<Rightarrow> int vss" where
  "delete_in env ctx g = do {
     a \<leftarrow> call env (DeleteSnapshots g);
     vss_cleanup env ctx;
     State_Monad.return (if FAILED (rp_hr a) then -1 else sint (rp_deleted a)) }"

definition braced :: "string \<Rightarrow> string" where
  "braced s = (if s \<noteq> [] \<and> hd s = CHR ''{'' then take 63 s else snprintf 64 (CHR ''{'' # s @ ''}''))"

definition vss_delete_snapshot :: "win_env \<Rightarrow> string option \<Rightarrow> int vss" where
  "vss_delete_snapshot env snapshot_id_str =
     (case snapshot_id_str of
        None \<Rightarrow> State_Monad.return (-1)
      | Some s \<Rightarrow> do {
          ctx \<leftarrow> vss_init_ex env 0x1d;
          if ctx = None then State_Monad.return (-1)
          else
            case we_clsid env (we_to_wide env 64 (braced s)) of
              None \<Rightarrow> do { vss_cleanup env ctx; State_Monad.return (-1) }
            | Some g \<Rightarrow> delete_in env ctx g })"

definition vss_delete_all_snapshots :: "win_env \<Rightarrow> int vss" where
  "vss_delete_all_snapshots env = do {
     ctx \<leftarrow> vss_init_ex env 0x1d;
     if ctx = None then State_Monad.return (-1) else delete_in env ctx GUID_NULL }"

section \<open>The commands\<close>

text \<open>\<open>cmd_test_vss\<close>, \<open>cmd_vss_query\<close> and \<open>cmd_vss_delete\<close> of \<^verbatim>\<open>client/main.c\<close>: the exit code, and for
  the query the entries printed.\<close>

definition cmd_test_vss :: "win_env \<Rightarrow> int vss" where
  "cmd_test_vss env = do {
     ctx \<leftarrow> vss_init_ex env 0x1d;
     if ctx = None then State_Monad.return 1
     else do {
       r \<leftarrow> vss_create_snapshots env ctx (Some [''C:'' @ [CHR 0x5C]]) (Some (replicate VSS_MAX_VOLUMES no_snapshot));
       if fst r \<le> 0 then do { vss_cleanup env (snd (snd r)); State_Monad.return 1 }
       else do {
         vss_backup_complete env (snd (snd r));
         vss_cleanup env (snd (snd r));
         State_Monad.return 0 } } }"

definition no_info :: vss_snapshot_info_t where
  "no_info = \<lparr>si_snapshot_id_str = [], si_original_volume = [], si_snapshot_path = [], si_creation_time = [], si_snapshot_id = (0, 0)\<rparr>"

definition cmd_vss_query :: "win_env \<Rightarrow> (int \<times> vss_snapshot_info_t list) vss" where
  "cmd_vss_query env = do {
     r \<leftarrow> vss_query_snapshots env (Some (replicate 64 no_info)) 64;
     case r of
       (n, Some info) \<Rightarrow> State_Monad.return (if n < 0 then (1, []) else (0, take (nat n) info))
     | (n, None) \<Rightarrow> State_Monad.return (1, []) }"

definition cmd_vss_delete :: "win_env \<Rightarrow> string option \<Rightarrow> int vss" where
  "cmd_vss_delete env arg =
     (case arg of
        None \<Rightarrow> State_Monad.return 1
      | Some a \<Rightarrow> do {
          deleted \<leftarrow> (if a = ''--all'' then vss_delete_all_snapshots env else vss_delete_snapshot env (Some a));
          State_Monad.return (if deleted < 0 then 1 else 0) })"

text \<open>The snapshots of a migration: \<open>vss_init\<close> and \<open>vss_create_snapshots\<close> before the transfer as
  \<open>do_migrate\<close> calls them; what \<open>take_snapshots\<close> is given.\<close>

type_synonym vss_service = "string list \<Rightarrow> int \<times> vss_snapshot_t list"

definition snapshot_run :: "win_env \<Rightarrow> vss_context \<Rightarrow> string list \<Rightarrow> (int \<times> vss_snapshot_t list option \<times> vss_context option) vss" where
  "snapshot_run env ctx names = vss_create_snapshots env (Some ctx) (Some names) (Some (replicate VSS_MAX_VOLUMES no_snapshot))"

definition snapshot_service :: "win_env \<Rightarrow> vss_trace \<Rightarrow> vss_service option" where
  "snapshot_service env tr =
     (case run_state (vss_init env) tr of
        (None, _) \<Rightarrow> None
      | (Some ctx, tr) \<Rightarrow> Some (\<lambda>names. case fst (run_state (snapshot_run env ctx names) tr) of (n, snaps, _) \<Rightarrow> (n, the snaps)))"


text \<open>The whole of a migration's dealings with the module: the snapshots before the transfer, and after it
  the notice to the writers, which is left out when no volume could be opened (\<open>opened\<close>); the result tells
  whether the transfer takes place.\<close>

definition migrate_snapshots :: "win_env \<Rightarrow> string list \<Rightarrow> bool \<Rightarrow> bool vss" where
  "migrate_snapshots env names opened = do {
     ctx \<leftarrow> vss_init env;
     case ctx of
       None \<Rightarrow> State_Monad.return False
     | Some cx \<Rightarrow>
         if names = [] then do { vss_cleanup env ctx; State_Monad.return False }
         else do {
           r \<leftarrow> snapshot_run env cx names;
           if fst r \<le> 0 \<or> \<not> opened then do { vss_cleanup env (snd (snd r)); State_Monad.return False }
           else do { vss_backup_complete env (snd (snd r)); vss_cleanup env (snd (snd r)); State_Monad.return True } } }"

section \<open>What a trace shows\<close>

text \<open>COM's rule for out parameters: a failing call returns no object, and a successful creation does.\<close>

definition com_answer :: "vss_call \<Rightarrow> vss_reply \<Rightarrow> bool" where
  "com_answer c a =
     (case c of
        CreateVssBackupComponents \<Rightarrow> rp_ptr a = (\<not> FAILED (rp_hr a))
      | QueryObjects \<Rightarrow> rp_ptr a = (\<not> FAILED (rp_hr a))
      | PrepareForBackup \<Rightarrow> FAILED (rp_hr a) \<longrightarrow> \<not> rp_ptr a
      | DoSnapshotSet \<Rightarrow> FAILED (rp_hr a) \<longrightarrow> \<not> rp_ptr a
      | BackupComplete \<Rightarrow> FAILED (rp_hr a) \<longrightarrow> \<not> rp_ptr a
      | _ \<Rightarrow> True)"

definition com_rules :: "win_env \<Rightarrow> bool" where
  "com_rules env = (\<forall>tr c. com_answer c (we_call env tr c))"

datatype resource = Memory | Library | Com | Components | Async | Enumerator | Properties

text \<open>What a call obtains or gives back.  A \<open>CoInitializeEx\<close> that fails, with whatever code, obtains nothing.\<close>

definition obtains_of :: "resource \<Rightarrow> vss_call \<Rightarrow> vss_reply \<Rightarrow> int" where
  "obtains_of r c a =
     (case c of
        Calloc \<Rightarrow> of_bool (r = Memory \<and> rp_ptr a)
      | Free \<Rightarrow> - of_bool (r = Memory)
      | LoadLibraryA _ \<Rightarrow> of_bool (r = Library \<and> rp_ptr a)
      | FreeLibrary \<Rightarrow> - of_bool (r = Library)
      | CoInitializeEx \<Rightarrow> of_bool (r = Com \<and> \<not> FAILED (rp_hr a))
      | CoUninitialize \<Rightarrow> - of_bool (r = Com)
      | CreateVssBackupComponents \<Rightarrow> of_bool (r = Components \<and> rp_ptr a)
      | ReleaseComponents \<Rightarrow> - of_bool (r = Components)
      | GatherWriterMetadata \<Rightarrow> of_bool (r = Async \<and> rp_ptr a)
      | PrepareForBackup \<Rightarrow> of_bool (r = Async \<and> rp_ptr a)
      | DoSnapshotSet \<Rightarrow> of_bool (r = Async \<and> rp_ptr a)
      | BackupComplete \<Rightarrow> of_bool (r = Async \<and> rp_ptr a)
      | ReleaseAsync \<Rightarrow> - of_bool (r = Async)
      | QueryObjects \<Rightarrow> of_bool (r = Enumerator \<and> rp_ptr a)
      | ReleaseEnum \<Rightarrow> - of_bool (r = Enumerator)
      | GetSnapshotProperties _ \<Rightarrow> of_bool (r = Properties \<and> \<not> FAILED (rp_hr a))
      | EnumNext \<Rightarrow> of_bool (r = Properties \<and> \<not> FAILED (rp_hr a) \<and> rp_fetched a \<noteq> 0)
      | VssFreeSnapshotProperties \<Rightarrow> - of_bool (r = Properties)
      | _ \<Rightarrow> 0)"

definition held :: "resource \<Rightarrow> vss_trace \<Rightarrow> int" where
  "held r tr = (\<Sum>(c, a)\<leftarrow>tr. obtains_of r c a)"

definition mode_changes :: "vss_trace \<Rightarrow> int" where
  "mode_changes tr = (\<Sum>(c, a)\<leftarrow>tr. of_bool (c = CoInitializeEx \<and> rp_hr a = RPC_E_CHANGED_MODE))"

text \<open>The order of the calls on \<open>IVssBackupComponents\<close>.  The argument of a phase is whether the writers take
  part: they must be prepared before the snapshots are taken, and only then is the end of the backup announced.\<close>

datatype phase = Closed | Fresh | Ready bool | StateSet bool | Started bool | Added bool | Prepared | Taken bool | Finished

definition lifecycle_step :: "phase \<Rightarrow> vss_call \<times> vss_reply \<Rightarrow> phase option" where
  "lifecycle_step p e =
     (let ok = \<not> FAILED (rp_hr (snd e)) in
      case fst e of
        CreateVssBackupComponents \<Rightarrow> if p = Closed then Some (if ok then Fresh else Closed) else None
      | ReleaseComponents \<Rightarrow> if p = Closed then None else Some Closed
      | InitializeForBackup \<Rightarrow> if p = Fresh then Some (if ok then Ready True else Fresh) else None
      | SetContext c \<Rightarrow>
          (case p of Ready w \<Rightarrow> Some (Ready (if ok then c AND VSS_VOLSNAP_ATTR_NO_WRITERS = 0 else w)) | _ \<Rightarrow> None)
      | SetBackupState _ _ _ _ \<Rightarrow> (case p of Ready w \<Rightarrow> Some (if ok then StateSet w else p) | _ \<Rightarrow> None)
      | GatherWriterMetadata \<Rightarrow> if p = StateSet True then Some p else None
      | StartSnapshotSet \<Rightarrow> (case p of StateSet w \<Rightarrow> Some (if ok then Started w else p) | _ \<Rightarrow> None)
      | AddToSnapshotSet _ \<Rightarrow>
          (case p of Started w \<Rightarrow> Some (if ok then Added w else p) | Added w \<Rightarrow> Some p | _ \<Rightarrow> None)
      | PrepareForBackup \<Rightarrow> if p = Added True then Some (if ok then Prepared else p) else None
      | DoSnapshotSet \<Rightarrow>
          if p = Prepared then Some (if ok then Taken True else p)
          else if p = Added False then Some (if ok then Taken False else p) else None
      | GetSnapshotProperties _ \<Rightarrow> (case p of Taken w \<Rightarrow> Some p | _ \<Rightarrow> None)
      | BackupComplete \<Rightarrow> if p = Taken True then Some (if ok then Finished else p) else None
      | QueryObjects \<Rightarrow> (case p of Ready w \<Rightarrow> Some p | _ \<Rightarrow> None)
      | DeleteSnapshots _ \<Rightarrow> (case p of Ready w \<Rightarrow> Some p | _ \<Rightarrow> None)
      | _ \<Rightarrow> Some p)"

definition lifecycle :: "vss_trace \<Rightarrow> phase option" where
  "lifecycle tr = foldl (\<lambda>p e. Option.bind p (\<lambda>p. lifecycle_step p e)) (Some Closed) tr"

section \<open>Taking programs apart\<close>

definition wp :: "'a vss \<Rightarrow> ('a \<Rightarrow> vss_trace \<Rightarrow> bool) \<Rightarrow> vss_trace \<Rightarrow> bool" where
  "wp m Q tr = (case run_state m tr of (x, tr') \<Rightarrow> Q x tr')"

lemma wp_return [vss_wp]: "Q x tr \<Longrightarrow> wp (State_Monad.return x) Q tr"
  by (simp add: wp_def)

lemma wp_bind [vss_wp]: "wp m (\<lambda>x. wp (f x) Q) tr \<Longrightarrow> wp (State_Monad.bind m f) Q tr"
  by (simp add: wp_def split: prod.splits)

lemma wp_if [vss_wp]: "(b \<Longrightarrow> wp m Q tr) \<Longrightarrow> (\<not> b \<Longrightarrow> wp n Q tr) \<Longrightarrow> wp (if b then m else n) Q tr"
  by simp

lemma wp_call_all: "(\<And>a. Q a (tr @ [(c, a)])) \<Longrightarrow> wp (call env c) Q tr"
  by (simp add: wp_def call_def Let_def)

lemma wp_call:
  assumes "com_rules env" "\<And>a. com_answer c a \<Longrightarrow> Q a (tr @ [(c, a)])"
  shows "wp (call env c) Q tr"
  using assms by (simp add: wp_def call_def Let_def com_rules_def)

lemma wp_mono: "wp m P tr \<Longrightarrow> (\<And>x tr'. P x tr' \<Longrightarrow> Q x tr') \<Longrightarrow> wp m Q tr"
  by (auto simp: wp_def)

lemma wp_conj: "wp m P tr \<Longrightarrow> wp m Q tr \<Longrightarrow> wp m (\<lambda>x t. P x t \<and> Q x t) tr"
  by (simp add: wp_def split: prod.splits)

lemma wp_run: "wp m Q tr \<Longrightarrow> run_state m tr = (x, tr') \<Longrightarrow> Q x tr'"
  by (simp add: wp_def)

text \<open>What is held, with the calls of \<open>CoInitializeEx\<close> in a changed mode taken for successful ones.\<close>

definition gain :: "resource \<Rightarrow> vss_call \<Rightarrow> vss_reply \<Rightarrow> int" where
  "gain r c a = obtains_of r c a + of_bool (r = Com \<and> c = CoInitializeEx \<and> rp_hr a = RPC_E_CHANGED_MODE)"

definition net :: "resource \<Rightarrow> vss_trace \<Rightarrow> int" where
  "net r tr = held r tr + (if r = Com then mode_changes tr else 0)"

lemma net_append [simp]: "net r (tr @ us) = net r tr + net r us"
  by (simp add: net_def held_def mode_changes_def)

lemma net_Cons [simp]: "net r ((c, a) # us) = gain r c a + net r us"
  by (simp add: net_def gain_def held_def mode_changes_def)

lemma net_Nil [simp]: "net r [] = 0"
  by (simp add: net_def held_def mode_changes_def)

lemma lifecycle_append [simp]:
  "lifecycle (tr @ us) = foldl (\<lambda>p e. Option.bind p (\<lambda>p. lifecycle_step p e)) (lifecycle tr) us"
  by (simp add: lifecycle_def)


section \<open>Resources and order\<close>

text \<open>\<open>sees N R p tr\<close>: after \<open>tr\<close> the program holds \<open>N\<close> and one more of each resource of \<open>R\<close>, and the interface is
  in phase \<open>p\<close>.\<close>

definition sees :: "(resource \<Rightarrow> int) \<Rightarrow> resource set \<Rightarrow> phase \<Rightarrow> vss_trace \<Rightarrow> bool" where
  "sees N R p tr \<longleftrightarrow> lifecycle tr = Some p \<and> (\<forall>r. net r tr = N r + of_bool (r \<in> R))"

lemma changed_mode_failed: "FAILED RPC_E_CHANGED_MODE"
  by (simp add: FAILED_def RPC_E_CHANGED_MODE_def)

lemmas vss_trace_simps = sees_def gain_def obtains_of_def lifecycle_step_def com_answer_def

lemma init_sees:
  assumes "com_rules env" "lifecycle tr = Some Closed"
  shows "wp (vss_init_ex env c)
    (\<lambda>x tr'. case x of
       None \<Rightarrow> sees (\<lambda>r. net r tr) {} Closed tr'
     | Some ctx \<Rightarrow> sees (\<lambda>r. net r tr) {Memory, Library, Com, Components} (Ready (\<not> persistent ctx)) tr' \<and>
         ctx = \<lparr>cx_vssapi_dll = True, cx_backup_components = True, cx_context = c, cx_initialized = True, cx_snapshot_set_started = False\<rparr>) tr"
  unfolding vss_init_ex_def
  by (intro vss_wp wp_call [OF assms(1)])
    (use assms(2) changed_mode_failed in \<open>auto simp: vss_trace_simps persistent_def VSS_CTX_BACKUP_def\<close>)


lemma cleanup_sees:
  assumes "sees N {Memory, Library, Com, Components} p t" "p \<noteq> Closed" "cx_vssapi_dll ctx" "cx_backup_components ctx"
  shows "wp (vss_cleanup env (Some ctx)) (\<lambda>_. sees N {} Closed) t"
  using assms unfolding vss_cleanup_def
  by (auto intro!: vss_wp wp_call_all simp: vss_trace_simps)

lemma await_sees:
  assumes "sees N (if rp_ptr a then insert Async R else R) p t" "Async \<notin> R"
  shows "wp (await_async env ms a) (\<lambda>_. sees N R p) t"
  using assms unfolding await_async_def
  by (auto intro!: vss_wp wp_call_all simp: vss_trace_simps split: if_splits)

text \<open>The interface after the volumes were added, and the identifiers returned.\<close>

lemma add_volumes_sees:
  assumes "sees N R p t" "p = Started w \<or> p = Added w"
  shows "wp (add_volumes env vs) (\<lambda>ids. sees N R (if ids = [] then p else Added w)) t"
  using assms
proof (induction vs arbitrary: t p)
  case Nil
  then show ?case by (auto intro!: vss_wp)
next
  case (Cons v vs)
  show ?case unfolding add_volumes.simps
  proof (intro wp_bind wp_call_all)
    fix a
    let ?c = "AddToSnapshotSet (we_to_wide env 64 (snprintf 64 (v @ [CHR 0x5C])))"
    have "sees N R (if FAILED (rp_hr a) then p else Added w) (t @ [(?c, a)])"
      using Cons.prems by (auto simp: vss_trace_simps)
    then have "wp (add_volumes env vs) (\<lambda>ids. sees N R (if ids = [] then if FAILED (rp_hr a) then p else Added w else Added w)) (t @ [(?c, a)])"
      by (rule Cons.IH) (use Cons.prems(2) in auto)
    then
    show "wp (add_volumes env vs) (\<lambda>ids. wp (State_Monad.return (if FAILED (rp_hr a) then ids else rp_id a # ids))
        (\<lambda>ids. sees N R (if ids = [] then p else Added w))) (t @ [(?c, a)])"
      by (rule wp_mono) (auto intro!: wp_return split: if_splits)
  qed
qed

lemma props_retry_sees:
  assumes "sees N (if FAILED (rp_hr a) then R else insert Properties R) (Taken w) t" "Properties \<notin> R"
  shows "wp (props_retry env sid k a) (\<lambda>a. sees N (if FAILED (rp_hr a) then R else insert Properties R) (Taken w)) t"
  using assms(1)
proof (induction k arbitrary: t a)
  case 0
  then show ?case by (simp add: wp_return)
next
  case (Suc k)
  then show ?case using assms(2) unfolding props_retry.simps
    by (intro vss_wp wp_call_all Suc.IH) (auto simp: vss_trace_simps)
qed

lemma query_props_sees:
  assumes "sees N R (Taken w) t" "Properties \<notin> R"
  shows "wp (query_props env ids n snaps) (\<lambda>_. sees N R (Taken w)) t"
  using assms(1)
proof (induction ids arbitrary: t n snaps)
  case Nil
  then show ?case by (simp add: wp_return)
next
  case (Cons sid ids)
  show ?case unfolding query_props.simps
  proof (intro wp_bind wp_call_all, rule wp_mono [OF props_retry_sees [where R = R, OF _ assms(2)]])
    fix a
    show "sees N (if FAILED (rp_hr a) then R else insert Properties R) (Taken w) (t @ [(GetSnapshotProperties sid, a)])"
      using Cons.prems assms(2) by (auto simp: vss_trace_simps)
  next
    fix a t'
    assume "sees N (if FAILED (rp_hr a) then R else insert Properties R) (Taken w) t'"
    then show "wp (if FAILED (rp_hr a) then query_props env ids n snaps
        else State_Monad.bind (call env VssFreeSnapshotProperties)
          (\<lambda>_. query_props env ids (n + 1) (snaps[n := snapshot_of env sid (rp_prop a)]))) (\<lambda>_. sees N R (Taken w)) t'"
      using assms(2) by (intro vss_wp wp_call_all Cons.IH) (auto simp: vss_trace_simps)
  qed
qed


abbreviation session_resources :: "resource set" where
  "session_resources \<equiv> {Memory, Library, Com, Components}"

text \<open>A call that starts an asynchronous operation and, where it succeeds, the wait for its end.\<close>

lemma async_sees:
  assumes "com_rules env" "sees N R p t" "Async \<notin> R" "c \<in> {PrepareForBackup, DoSnapshotSet, BackupComplete}"
    "\<And>a. lifecycle_step p (c, a) = Some (if FAILED (rp_hr a) then p else q)"
    and "\<And>(a :: vss_reply) t'. FAILED (rp_hr a) \<Longrightarrow> sees N R p t' \<Longrightarrow> wp m Q t'"
    and "\<And>(a :: vss_reply) t'. \<not> FAILED (rp_hr a) \<Longrightarrow> sees N R q t' \<Longrightarrow> wp (f a ()) Q t'"
  shows "wp (call env c) (\<lambda>a. wp (if FAILED (rp_hr a) then m else State_Monad.bind (await_async env ms a) (f a)) Q) t"
proof (intro wp_call [OF assms(1)] wp_if wp_bind)
  fix a
  assume a: "com_answer c a" "FAILED (rp_hr a)"
  then have "sees N R p (t @ [(c, a)])"
    using assms(2,4) assms(5) [of a] by (auto simp: sees_def gain_def obtains_of_def com_answer_def)
  then show "wp m Q (t @ [(c, a)])" using assms(6) a(2) by blast
next
  fix a
  assume a: "com_answer c a" "\<not> FAILED (rp_hr a)"
  then have "sees N (if rp_ptr a then insert Async R else R) q (t @ [(c, a)])"
    using assms(2,3,4) assms(5) [of a] by (auto simp: sees_def gain_def obtains_of_def com_answer_def)
  then show "wp (await_async env ms a) (\<lambda>x. wp (f a x) Q) (t @ [(c, a)])"
    by (rule wp_mono [OF await_sees [OF _ assms(3)]]) (use assms(7) [OF a(2)] in simp)
qed

lemma take_set_sees:
  assumes "com_rules env" "sees N session_resources (Added (\<not> persistent ctx)) t"
  shows "wp (take_snapshot_set env ctx ids snaps)
    (\<lambda>r t'. \<exists>p. sees N session_resources p t' \<and> p \<noteq> Closed \<and> (0 \<le> fst r \<longrightarrow> p = Taken (\<not> persistent ctx))) t"
    (is "wp _ ?Q t")
proof -
  let ?w = "\<not> persistent ctx"
  let ?do = "do { a \<leftarrow> call env DoSnapshotSet;
       if FAILED (rp_hr a) then State_Monad.return (-1, snaps)
       else do { await_async env 0xFFFFFFFF a; r \<leftarrow> query_props env ids 0 snaps; State_Monad.return (int (fst r), snd r) } }"
  have do_set: "wp ?do ?Q t1" if "sees N session_resources p t1" "p = (if ?w then Prepared else Added False)" for t1 p
    by (intro wp_bind async_sees [OF assms(1) that(1), where q = "Taken ?w"] wp_mono [OF query_props_sees] wp_return)
      (use that(2) in \<open>auto simp: lifecycle_step_def split: if_splits\<close>)
  have prepare: "wp (do { a \<leftarrow> call env PrepareForBackup;
         if FAILED (rp_hr a) then State_Monad.return False
         else do { await_async env 30000 a; State_Monad.return True } })
      (\<lambda>prepared. wp (if \<not> prepared then State_Monad.return (-1, snaps) else ?do) ?Q) t" if ?w
    by (intro wp_bind async_sees [OF assms, where q = Prepared] vss_wp do_set)
      (use that in \<open>auto simp: lifecycle_step_def intro!: do_set\<close>)
  show ?thesis
  proof (cases ?w)
    case True
    show ?thesis using prepare [OF True] unfolding take_snapshot_set_def if_not_P [OF True] by (rule wp_bind)
  next
    case False
    have "wp ?do ?Q t" by (rule do_set [of "Added False"]) (use False assms(2) in auto)
    then show ?thesis using False unfolding take_snapshot_set_def by (simp add: wp_bind wp_return)
  qed
qed

text \<open>A call that obtains nothing.\<close>

lemma plain_call_sees:
  assumes "sees N R p t" "\<And>r a. gain r c a = 0" "\<And>a. lifecycle_step p (c, a) = Some (if FAILED (rp_hr a) then p else q)"
    and "\<And>(a :: vss_reply) t'. FAILED (rp_hr a) \<Longrightarrow> sees N R p t' \<Longrightarrow> wp m Q t'"
    and "\<And>(a :: vss_reply) t'. \<not> FAILED (rp_hr a) \<Longrightarrow> sees N R q t' \<Longrightarrow> wp (f a) Q t'"
  shows "wp (State_Monad.bind (call env c) (\<lambda>a. if FAILED (rp_hr a) then m else f a)) Q t"
proof (intro wp_bind wp_call_all)
  fix a
  have "sees N R (if FAILED (rp_hr a) then p else q) (t @ [(c, a)])"
    using assms(1) assms(3) [of a] by (simp add: sees_def assms(2))
  then show "wp (if FAILED (rp_hr a) then m else f a) Q (t @ [(c, a)])"
    by (cases "FAILED (rp_hr a)") (simp_all add: assms(4,5))
qed

lemma gather_sees:
  assumes "sees N session_resources (StateSet (\<not> persistent ctx)) t"
  shows "wp (if \<not> persistent ctx then do { a \<leftarrow> call env GatherWriterMetadata; await_async env 30000 a } else State_Monad.return ())
    (\<lambda>_. sees N session_resources (StateSet (\<not> persistent ctx))) t"
  using assms by (intro vss_wp wp_call_all await_sees) (auto simp: vss_trace_simps)

lemma create_sees:
  assumes "com_rules env" "sees N session_resources (Ready (\<not> persistent ctx)) t" "cx_initialized ctx"
  shows "wp (vss_create_snapshots env (Some ctx) (Some vols) (Some snaps))
    (\<lambda>r t'. \<exists>p. sees N session_resources p t' \<and> p \<noteq> Closed \<and> (0 \<le> fst r \<longrightarrow> p = Taken (\<not> persistent ctx)) \<and>
       (snd (snd r) = Some ctx \<or> snd (snd r) = Some (ctx\<lparr>cx_snapshot_set_started := True\<rparr>))) t"
    (is "wp _ ?Q t")
proof -
  let ?w = "\<not> persistent ctx" and ?ctx = "ctx\<lparr>cx_snapshot_set_started := True\<rparr>"
  have set: "wp (do { r \<leftarrow> take_snapshot_set env ctx ids snaps; State_Monad.return (fst r, Some (snd r), Some ?ctx) }) ?Q t1"
    if "sees N session_resources (Added ?w) t1" for ids t1
    by (intro wp_bind wp_mono [OF take_set_sees [OF assms(1) that]]) (auto intro!: wp_return)
  have add: "wp (do { ids \<leftarrow> add_volumes env (take VSS_MAX_VOLUMES vols);
      if ids = [] then State_Monad.return (-1, Some snaps, Some ?ctx)
      else do { r \<leftarrow> take_snapshot_set env ctx ids snaps; State_Monad.return (fst r, Some (snd r), Some ?ctx) } }) ?Q t1"
    if "sees N session_resources (Started ?w) t1" for t1
    by (intro wp_bind wp_mono [OF add_volumes_sees [OF that]] wp_if set) (auto intro!: wp_return set)
  have start: "wp (do { a \<leftarrow> call env StartSnapshotSet;
      if FAILED (rp_hr a) then State_Monad.return (-1, Some snaps, Some ctx)
      else do { ids \<leftarrow> add_volumes env (take VSS_MAX_VOLUMES vols);
        if ids = [] then State_Monad.return (-1, Some snaps, Some ?ctx)
        else do { r \<leftarrow> take_snapshot_set env ctx ids snaps; State_Monad.return (fst r, Some (snd r), Some ?ctx) } } }) ?Q t1"
    if "sees N session_resources (StateSet ?w) t1" for t1
    by (rule plain_call_sees [OF that, where q = "Started ?w"])
      (auto simp: gain_def obtains_of_def lifecycle_step_def intro!: wp_return add)
  have "wp (do { a \<leftarrow> call env (SetBackupState False True VSS_BT_COPY False);
      if FAILED (rp_hr a) then State_Monad.return (-1, Some snaps, Some ctx)
      else do {
        (if ?w then do { a \<leftarrow> call env GatherWriterMetadata; await_async env 30000 a } else State_Monad.return ());
        a \<leftarrow> call env StartSnapshotSet;
        if FAILED (rp_hr a) then State_Monad.return (-1, Some snaps, Some ctx)
        else do { ids \<leftarrow> add_volumes env (take VSS_MAX_VOLUMES vols);
          if ids = [] then State_Monad.return (-1, Some snaps, Some ?ctx)
          else do { r \<leftarrow> take_snapshot_set env ctx ids snaps; State_Monad.return (fst r, Some (snd r), Some ?ctx) } } } }) ?Q t"
    by (rule plain_call_sees [OF assms(2), where q = "StateSet ?w"], simp add: gain_def obtains_of_def, simp add: lifecycle_step_def,
        force intro: wp_return, intro wp_bind [of "if _ then _ else _"] wp_mono [OF gather_sees] start)
  then show ?thesis using assms(3) unfolding vss_create_snapshots_def prod.case option.case by (simp only: not_True_eq_False if_False)
qed

lemma complete_sees:
  assumes "com_rules env" "sees N session_resources (Taken (\<not> persistent ctx)) t"
  shows "wp (vss_backup_complete env (Some ctx)) (\<lambda>_ t'. \<exists>p. sees N session_resources p t' \<and> p \<noteq> Closed) t"
proof (cases "persistent ctx")
  case True
  then show ?thesis using assms(2) unfolding vss_backup_complete_def by (auto intro!: vss_wp)
next
  case False
  have "wp (do { a \<leftarrow> call env BackupComplete;
      if FAILED (rp_hr a) then State_Monad.return (-1) else do { await_async env 10000 a; State_Monad.return (0 :: int) } })
    (\<lambda>_ t'. \<exists>p. sees N session_resources p t' \<and> p \<noteq> Closed) t"
    by (intro wp_bind async_sees [OF assms, where q = Finished] wp_return) (use False in \<open>auto simp: lifecycle_step_def\<close>)
  with False show ?thesis using assms(2) unfolding vss_backup_complete_def by (auto intro!: vss_wp)
qed


text \<open>The objects the enumeration has returned.\<close>

definition listed :: "vss_trace \<Rightarrow> snapshot_prop list" where
  "listed t = map (\<lambda>(c, a). rp_prop a) (filter (\<lambda>(c, a). c = EnumNext \<and> \<not> FAILED (rp_hr a) \<and> rp_fetched a \<noteq> 0) t)"

lemma listed_simps [simp]:
  "listed [] = []" "listed (tr @ us) = listed tr @ listed us"
  "listed ((c, a) # us) = (if c = EnumNext \<and> \<not> FAILED (rp_hr a) \<and> rp_fetched a \<noteq> 0 then [rp_prop a] else []) @ listed us"
  by (simp_all add: listed_def)

lemma init_listed: "wp (vss_init_ex env c) (\<lambda>_ t. listed t = listed tr) tr"
  unfolding vss_init_ex_def by (intro vss_wp wp_call_all) auto

lemma cleanup_listed: "wp (vss_cleanup env (Some ctx)) (\<lambda>_ t. listed t = listed tr) tr"
  unfolding vss_cleanup_def option.case by (intro vss_wp wp_call_all) auto

text \<open>The same facts as rules for what follows the operation.\<close>

definition live :: "vss_context \<Rightarrow> bool" where
  "live ctx = (cx_initialized ctx \<and> cx_vssapi_dll ctx \<and> cx_backup_components ctx)"

lemma wp_init:
  assumes "com_rules env" "lifecycle tr = Some Closed"
    and "\<And>t. sees (\<lambda>r. net r tr) {} Closed t \<Longrightarrow> wp (f None) Q t"
    and "\<And>ctx t. sees (\<lambda>r. net r tr) session_resources (Ready (\<not> persistent ctx)) t \<Longrightarrow> live ctx \<Longrightarrow> listed t = listed tr \<Longrightarrow>
      wp (f (Some ctx)) Q t"
  shows "wp (State_Monad.bind (vss_init_ex env c) f) Q tr"
proof (rule wp_bind, rule wp_mono [OF wp_conj [OF init_sees [OF assms(1,2)] init_listed]], elim conjE)
  fix x t
  assume "case x of None \<Rightarrow> sees (\<lambda>r. net r tr) {} Closed t
     | Some ctx \<Rightarrow> sees (\<lambda>r. net r tr) session_resources (Ready (\<not> persistent ctx)) t \<and>
         ctx = \<lparr>cx_vssapi_dll = True, cx_backup_components = True, cx_context = c, cx_initialized = True, cx_snapshot_set_started = False\<rparr>"
    and "listed t = listed tr"
  then show "wp (f x) Q t" by (cases x) (auto simp: live_def intro: assms(3,4))
qed

lemma wp_cleanup:
  assumes "sees N session_resources p t" "p \<noteq> Closed" "live ctx" "\<And>t'. sees N {} Closed t' \<Longrightarrow> wp (f ()) Q t'"
  shows "wp (State_Monad.bind (vss_cleanup env (Some ctx)) f) Q t"
  by (rule wp_bind, rule wp_mono [OF cleanup_sees [OF assms(1,2)]]) (use assms(3,4) in \<open>auto simp: live_def\<close>)

lemma wp_create:
  assumes "com_rules env" "sees N session_resources (Ready (\<not> persistent ctx)) t" "live ctx"
    and "\<And>n s cx p t'. sees N session_resources p t' \<Longrightarrow> p \<noteq> Closed \<Longrightarrow> (0 < n \<Longrightarrow> p = Taken (\<not> persistent cx)) \<Longrightarrow>
      live cx \<Longrightarrow> wp (f (n, s, Some cx)) Q t'"
  shows "wp (State_Monad.bind (vss_create_snapshots env (Some ctx) (Some vols) (Some snaps)) f) Q t"
proof (rule wp_bind, rule wp_mono [OF create_sees [OF assms(1,2)]], use assms(3) in \<open>simp add: live_def\<close>)
  fix r :: "int \<times> vss_snapshot_t list option \<times> vss_context option" and t'
  assume "\<exists>p. sees N session_resources p t' \<and> p \<noteq> Closed \<and> (0 \<le> fst r \<longrightarrow> p = Taken (\<not> persistent ctx)) \<and>
    (snd (snd r) = Some ctx \<or> snd (snd r) = Some (ctx\<lparr>cx_snapshot_set_started := True\<rparr>))"
  moreover obtain n s c where r: "r = (n, s, c)" by (cases r) auto
  ultimately obtain p where p: "sees N session_resources p t'" "p \<noteq> Closed" "0 \<le> n \<longrightarrow> p = Taken (\<not> persistent ctx)"
    and c: "c = Some ctx \<or> c = Some (ctx\<lparr>cx_snapshot_set_started := True\<rparr>)"
    by auto
  from c obtain cx where "c = Some cx" "live cx" "persistent cx = persistent ctx"
    using assms(3) by (auto simp: persistent_def live_def)
  with p show "wp (f r) Q t'" unfolding r by (auto intro!: assms(4))
qed

lemma wp_complete:
  assumes "com_rules env" "sees N session_resources (Taken (\<not> persistent ctx)) t"
    and "\<And>x p t'. sees N session_resources p t' \<Longrightarrow> p \<noteq> Closed \<Longrightarrow> wp (f x) Q t'"
  shows "wp (State_Monad.bind (vss_backup_complete env (Some ctx)) f) Q t"
  by (rule wp_bind, rule wp_mono [OF complete_sees [OF assms(1,2)]]) (auto intro: assms(3))

lemma session_sees:
  assumes "com_rules env" "sees N session_resources (Ready (\<not> persistent ctx)) t" "live ctx"
  shows "wp (do {
      r \<leftarrow> vss_create_snapshots env (Some ctx) (Some vols) (Some snaps);
      if fst r \<le> 0 \<or> stop then do { vss_cleanup env (snd (snd r)); State_Monad.return x }
      else do { vss_backup_complete env (snd (snd r)); vss_cleanup env (snd (snd r)); State_Monad.return y } })
    (\<lambda>_. sees N {} Closed) t"
proof (rule wp_create [OF assms])
  fix n :: int and s cx p t'
  assume cx: "sees N session_resources p t'" "p \<noteq> Closed" "0 < n \<Longrightarrow> p = Taken (\<not> persistent cx)" "live cx"
  have "wp (do { vss_backup_complete env (Some cx); vss_cleanup env (Some cx); State_Monad.return y }) (\<lambda>_. sees N {} Closed) t'" if "0 < n"
    by (rule wp_complete [OF assms(1)]) (use cx that in \<open>auto intro: wp_cleanup wp_return\<close>)
  then show "wp (if fst (n, s, Some cx) \<le> 0 \<or> stop then do { vss_cleanup env (snd (snd (n, s, Some cx))); State_Monad.return x }
      else do { vss_backup_complete env (snd (snd (n, s, Some cx))); vss_cleanup env (snd (snd (n, s, Some cx))); State_Monad.return y })
    (\<lambda>_. sees N {} Closed) t'"
    using cx(1,2,4) by (auto intro: wp_cleanup wp_return)
qed

lemma test_vss_sees:
  assumes "com_rules env" "lifecycle tr = Some Closed"
  shows "wp (cmd_test_vss env) (\<lambda>_. sees (\<lambda>r. net r tr) {} Closed) tr"
  unfolding cmd_test_vss_def
  by (rule wp_init [OF assms]) (use session_sees [OF assms(1), where stop = False] in \<open>simp_all add: wp_return\<close>)

lemma migrate_sees:
  assumes "com_rules env" "lifecycle tr = Some Closed"
  shows "wp (migrate_snapshots env names opened) (\<lambda>_. sees (\<lambda>r. net r tr) {} Closed) tr"
  unfolding migrate_snapshots_def vss_init_def snapshot_run_def
  by (rule wp_init [OF assms]) (auto intro!: wp_return session_sees [OF assms(1)] intro: wp_cleanup)

lemma delete_sees:
  assumes "sees N session_resources (Ready w) t" "live ctx"
  shows "wp (delete_in env (Some ctx) g) (\<lambda>_. sees N {} Closed) t"
  unfolding delete_in_def
proof (intro wp_bind [of "call _ _"] wp_call_all)
  fix a
  have "sees N session_resources (Ready w) (t @ [(DeleteSnapshots g, a)])"
    using assms(1) by (simp add: vss_trace_simps)
  then show "wp (do { vss_cleanup env (Some ctx); State_Monad.return (if FAILED (rp_hr a) then -1 else sint (rp_deleted a)) })
      (\<lambda>_. sees N {} Closed) (t @ [(DeleteSnapshots g, a)])"
    using assms(2) by (auto intro: wp_cleanup wp_return)
qed

lemma vss_delete_sees:
  assumes "com_rules env" "lifecycle tr = Some Closed"
  shows "wp (cmd_vss_delete env s) (\<lambda>_. sees (\<lambda>r. net r tr) {} Closed) tr"
proof -
  have all: "wp (vss_delete_all_snapshots env) (\<lambda>_. sees (\<lambda>r. net r tr) {} Closed) tr"
    unfolding vss_delete_all_snapshots_def by (rule wp_init [OF assms]) (auto intro: wp_return delete_sees)
  have one: "wp (vss_delete_snapshot env (Some a)) (\<lambda>_. sees (\<lambda>r. net r tr) {} Closed) tr" for a
    unfolding vss_delete_snapshot_def option.case
    by (rule wp_init [OF assms]) (auto intro: wp_return delete_sees wp_cleanup split: option.split)
  show ?thesis unfolding cmd_vss_delete_def
    by (auto split: option.split intro!: wp_return wp_bind wp_mono [OF all] wp_mono [OF one])
      (simp add: sees_def assms(2))
qed


section \<open>What the snapshots are\<close>

text \<open>A snapshot read from the service's answers in the trace, of a volume it has accepted.\<close>

definition accepted :: "vss_trace \<Rightarrow> vss_guid \<Rightarrow> bool" where
  "accepted tr sid = (\<exists>w b. (AddToSnapshotSet w, b) \<in> set tr \<and> \<not> FAILED (rp_hr b) \<and> rp_id b = sid)"

definition reported :: "win_env \<Rightarrow> vss_trace \<Rightarrow> vss_snapshot_t \<Rightarrow> bool" where
  "reported env tr sn = (\<exists>sid a. accepted tr sid \<and> (GetSnapshotProperties sid, a) \<in> set tr \<and> \<not> FAILED (rp_hr a) \<and>
     sn = snapshot_of env sid (rp_prop a))"

lemma accepted_mono: "accepted tr sid \<Longrightarrow> set tr \<subseteq> set us \<Longrightarrow> accepted us sid"
  by (fastforce simp: accepted_def)

lemma reported_mono: "reported env tr sn \<Longrightarrow> set tr \<subseteq> set us \<Longrightarrow> reported env us sn"
  unfolding reported_def using accepted_mono by blast

lemma add_volumes_accepted:
  "wp (add_volumes env vs) (\<lambda>ids t. set tr \<subseteq> set t \<and> length ids \<le> length vs \<and> (\<forall>sid \<in> set ids. accepted t sid)) tr"
proof (induction vs arbitrary: tr)
  case Nil
  then show ?case by (simp add: wp_return)
next
  case (Cons v vs)
  show ?case unfolding add_volumes.simps
    by (intro wp_bind wp_call_all, rule wp_mono [OF Cons.IH], rule wp_return) (auto simp: accepted_def)
qed

lemma props_retry_reported:
  assumes "(GetSnapshotProperties sid, a) \<in> set tr"
  shows "wp (props_retry env sid k a) (\<lambda>a t. set tr \<subseteq> set t \<and> (GetSnapshotProperties sid, a) \<in> set t) tr"
  using assms
proof (induction k arbitrary: tr a)
  case 0
  then show ?case by (simp add: wp_return)
next
  case (Suc k)
  show ?case unfolding props_retry.simps
    by (intro vss_wp wp_call_all, rule wp_mono [OF Suc.IH]) (use Suc.prems in auto)
qed

text \<open>The entries from \<open>n\<close> on are filled one after the other, and only those.\<close>

definition filled :: "win_env \<Rightarrow> nat \<Rightarrow> nat \<Rightarrow> vss_snapshot_t list \<Rightarrow> vss_snapshot_t list \<Rightarrow> vss_trace \<Rightarrow> bool" where
  "filled env n m snaps snaps' tr \<longleftrightarrow> length snaps' = length snaps \<and>
     (\<forall>i < length snaps. if n \<le> i \<and> i < m then reported env tr (snaps' ! i) else snaps' ! i = snaps ! i)"

lemma filled_step:
  assumes "filled env (Suc n) m (snaps[n := sn]) snaps' us" "reported env tr sn" "set tr \<subseteq> set us" "n < m"
  shows "filled env n m snaps snaps' us"
  unfolding filled_def
proof (intro conjI allI impI)
  show "length snaps' = length snaps" using assms(1) by (simp add: filled_def)
next
  fix i assume "i < length snaps"
  then have "if Suc n \<le> i \<and> i < m then reported env us (snaps' ! i) else snaps' ! i = snaps[n := sn] ! i"
    using assms(1) by (simp add: filled_def)
  then show "if n \<le> i \<and> i < m then reported env us (snaps' ! i) else snaps' ! i = snaps ! i"
    using reported_mono [OF assms(2,3)] assms(4) \<open>i < length snaps\<close> by (cases "i = n") (auto simp: le_less Suc_le_eq split: if_splits)
qed

lemma query_props_filled:
  assumes "\<forall>sid \<in> set ids. accepted tr sid"
  shows "wp (query_props env ids n snaps)
    (\<lambda>r t. set tr \<subseteq> set t \<and> n \<le> fst r \<and> fst r \<le> n + length ids \<and> filled env n (fst r) snaps (snd r) t) tr"
  using assms
proof (induction ids arbitrary: tr n snaps)
  case Nil
  then show ?case by (auto simp: filled_def intro!: wp_return)
next
  case (Cons sid ids)
  show ?case unfolding query_props.simps
  proof (intro wp_bind [of "call _ _"] wp_bind [of "props_retry _ _ _ _"] wp_call_all, rule wp_mono [OF props_retry_reported], simp)
    fix a0 a t
    let ?ok = "\<lambda>us r t. set us \<subseteq> set t \<and> n \<le> fst r \<and> fst r \<le> n + length (sid # ids) \<and> filled env n (fst r) snaps (snd r) t"
    assume "set (tr @ [(GetSnapshotProperties sid, a0)]) \<subseteq> set t \<and> (GetSnapshotProperties sid, a) \<in> set t"
    then have t: "set tr \<subseteq> set t" "(GetSnapshotProperties sid, a) \<in> set t" by auto
    then have acc: "\<forall>s \<in> set (sid # ids). accepted t s" using Cons.prems accepted_mono by blast
    show "wp (if FAILED (rp_hr a) then query_props env ids n snaps
        else State_Monad.bind (call env VssFreeSnapshotProperties)
          (\<lambda>_. query_props env ids (n + 1) (snaps[n := snapshot_of env sid (rp_prop a)]))) (?ok tr) t"
    proof (rule wp_if)
      show "wp (query_props env ids n snaps) (?ok tr) t"
        by (rule wp_mono [OF Cons.IH]) (use acc t(1) in auto)
    next
      assume "\<not> FAILED (rp_hr a)"
      then have sn: "reported env t (snapshot_of env sid (rp_prop a))"
        using acc t(2) by (auto simp: reported_def)
      show "wp (State_Monad.bind (call env VssFreeSnapshotProperties)
          (\<lambda>_. query_props env ids (n + 1) (snaps[n := snapshot_of env sid (rp_prop a)]))) (?ok tr) t"
        by (intro wp_bind wp_call_all, rule wp_mono [OF Cons.IH])
          (use acc t(1) in \<open>auto intro!: filled_step [OF _ sn] intro: accepted_mono\<close>)
    qed
  qed
qed


lemma await_keeps: "wp (await_async env ms a) (\<lambda>_ t. set tr \<subseteq> set t) tr"
  unfolding await_async_def by (intro vss_wp wp_call_all) auto

lemma take_set_filled:
  assumes "\<forall>sid \<in> set ids. accepted tr sid"
  shows "wp (take_snapshot_set env ctx ids snaps)
    (\<lambda>r t. filled env 0 (nat (fst r)) snaps (snd r) t \<and> (fst r = -1 \<or> 0 \<le> fst r) \<and> fst r \<le> int (length ids)) tr"
proof -
  have acc: "\<forall>sid \<in> set ids. accepted t sid" if "set tr \<subseteq> set t" for t
    using assms accepted_mono that by blast
  show ?thesis unfolding take_snapshot_set_def
    by (intro vss_wp wp_call_all wp_mono [OF await_keeps] wp_mono [OF query_props_filled [OF acc]])
      (auto simp: filled_def)
qed

lemma create_outcome:
  assumes "cx_initialized ctx"
    and "run_state (vss_create_snapshots env (Some ctx) (Some vols) (Some snaps)) tr = ((n, out, ctx'), t)"
  shows "\<exists>snaps'. out = Some snaps' \<and> filled env 0 (nat n) snaps snaps' t \<and> (n = -1 \<or> 0 \<le> n) \<and>
    n \<le> int (min VSS_MAX_VOLUMES (length vols))"
proof -
  have "wp (vss_create_snapshots env (Some ctx) (Some vols) (Some snaps))
    (\<lambda>r t. \<exists>snaps'. fst (snd r) = Some snaps' \<and> filled env 0 (nat (fst r)) snaps snaps' t \<and> (fst r = -1 \<or> 0 \<le> fst r) \<and>
      fst r \<le> int (min VSS_MAX_VOLUMES (length vols))) tr"
    unfolding vss_create_snapshots_def prod.case option.case
    by (intro vss_wp wp_call_all wp_mono [OF await_keeps] wp_mono [OF add_volumes_accepted] wp_mono [OF take_set_filled])
      (use assms(1) in \<open>auto simp: filled_def\<close>)
  from wp_run [OF this assms(2)] show ?thesis by simp
qed


text \<open>
  \<open>vss_create_snapshots\<close> on an initialised context returns -1 and leaves the array as it was, or the number of
  snapshots whose properties could be read, at most one per volume and at most \<open>VSS_MAX_VOLUMES\<close>.  The entries
  below that number hold what the service reported for identifiers it had returned for an added volume; the other
  entries are untouched.
\<close>
theorem vss_create_outcome:
  assumes "cx_initialized ctx"
    and "run_state (vss_create_snapshots env (Some ctx) (Some vols) (Some snaps)) tr = ((n, out, ctx'), t)"
  shows "\<exists>snaps'. out = Some snaps' \<and> filled env 0 (nat n) snaps snaps' t \<and> (n = -1 \<or> 0 \<le> n) \<and>
    n \<le> int (min VSS_MAX_VOLUMES (length vols))"
  by (rule create_outcome [OF assms])

section \<open>The interface to the migration\<close>

text \<open>What the migration relies on: the count returned is the number of entries to look at, and each of them is genuine.\<close>

locale snapshot_source =
  fixes create :: vss_service and genuine :: "string list \<Rightarrow> vss_snapshot_t \<Rightarrow> bool"
  assumes count_bound: "create names = (n, snaps) \<Longrightarrow> n \<le> int (length snaps)"
    and entries_genuine: "create names = (n, snaps) \<Longrightarrow> i < nat n \<Longrightarrow> genuine names (snaps ! i)"
begin

lemma genuine_entries: "create names = (n, snaps) \<Longrightarrow> sn \<in> set (take (nat n) snaps) \<Longrightarrow> genuine names sn"
  using entries_genuine by (auto simp: in_set_conv_nth)

lemma some_entry: "create names = (n, snaps) \<Longrightarrow> 0 < n \<Longrightarrow> take (nat n) snaps \<noteq> []"
  using count_bound by force

end

text \<open>The module as that source, and what it means for an entry to be genuine: it was reported by the service.\<close>

definition create_names :: "win_env \<Rightarrow> vss_trace \<Rightarrow> vss_service" where
  "create_names env tr = (case snapshot_service env tr of None \<Rightarrow> (\<lambda>_. (-1, [])) | Some create \<Rightarrow> create)"

definition shown :: "win_env \<Rightarrow> vss_trace \<Rightarrow> string list \<Rightarrow> vss_snapshot_t \<Rightarrow> bool" where
  "shown env tr names sn =
     (case run_state (vss_init env) tr of
        (None, _) \<Rightarrow> False
      | (Some ctx, t0) \<Rightarrow> reported env (snd (run_state (snapshot_run env ctx names) t0)) sn)"

lemma init_initialized:
  assumes "run_state (vss_init env) tr = (Some ctx, t)"
  shows "cx_initialized ctx"
proof -
  have "wp (vss_init_ex env c) (\<lambda>x _. \<forall>ctx. x = Some ctx \<longrightarrow> cx_initialized ctx) tr" for c
    unfolding vss_init_ex_def by (intro vss_wp wp_call_all) simp_all
  from wp_run [OF this assms [unfolded vss_init_def]] show ?thesis by simp
qed

lemma create_names_cases:
  assumes "create_names env tr names = (n, snaps)"
  obtains "n = -1" "snaps = []"
  | ctx t0 c t where "run_state (vss_init env) tr = (Some ctx, t0)" "filled env 0 (nat n) (replicate VSS_MAX_VOLUMES no_snapshot) snaps t"
      "run_state (snapshot_run env ctx names) t0 = ((n, Some snaps, c), t)" "n \<le> int VSS_MAX_VOLUMES"
proof (cases "run_state (vss_init env) tr")
  case (Pair x t0)
  show thesis
  proof (cases x)
    case None
    then show thesis using assms that(1) Pair by (simp add: create_names_def snapshot_service_def)
  next
    case (Some ctx)
    obtain m out c t where run: "run_state (snapshot_run env ctx names) t0 = ((m, out, c), t)" by (metis surj_pair)
    from create_outcome [OF init_initialized [OF Pair [unfolded Some]] run [unfolded snapshot_run_def]]
    obtain snaps' where "out = Some snaps'" "filled env 0 (nat m) (replicate VSS_MAX_VOLUMES no_snapshot) snaps' t" "m \<le> int VSS_MAX_VOLUMES"
      by auto
    then show thesis using assms that(2) Pair Some run by (simp add: create_names_def snapshot_service_def)
  qed
qed

interpretation vs: snapshot_source "create_names env tr" "shown env tr" for env tr
proof
  fix names n snaps
  assume c: "create_names env tr names = (n, snaps)"
  then show "n \<le> int (length snaps)"
    by (cases rule: create_names_cases) (auto simp: filled_def)
  fix i
  assume "i < nat n"
  with c show "shown env tr names (snaps ! i)"
    by (cases rule: create_names_cases) (auto simp: filled_def shown_def)
qed

section \<open>A service that answers\<close>

definition sample_guid :: vss_guid where
  "sample_guid = \<lparr>g_data1 = 0x1234abcd, g_data2 = 7, g_data3 = 0x8000, g_data4 = [0, 1, 2, 3, 4, 5, 6, 0xff]\<rparr>"

definition widen :: "string \<Rightarrow> wide" where
  "widen s = map (\<lambda>c. of_nat (of_char c)) s"

definition narrow :: "wide \<Rightarrow> string" where
  "narrow w = map (\<lambda>x. char_of (unat x)) w"

text \<open>Every call succeeds, except the one that lists more than one object.\<close>

definition sample_service :: win_env where
  "sample_service =
     \<lparr>we_call = (\<lambda>tr c. \<lparr>rp_hr = 0, rp_ptr = True, rp_id = sample_guid,
        rp_prop = \<lparr>sp_id = sample_guid, sp_original = Some (widen ''C:''), sp_device = Some (widen ''S''), sp_created = 0\<rparr>,
        rp_fetched = (if EnumNext \<in> fst ` set tr then 0 else 1), rp_deleted = 1\<rparr>),
      we_to_wide = (\<lambda>n s. widen (take (n - 1) s)), we_to_ansi = (\<lambda>n w. narrow (take (n - 1) w)),
      we_clsid = (\<lambda>w. if w = widen (guid_string sample_guid) then Some sample_guid else None),
      we_systemtime = (\<lambda>_ _. None)\<rparr>"

lemma sample_rules: "com_rules sample_service"
  by (auto simp: com_rules_def com_answer_def sample_service_def FAILED_def split: vss_call.split)

section \<open>The properties of the module\<close>

text \<open>Everything obtained has been given back and the interface is closed.  COM has been uninitialised once too
  often for every \<open>CoInitializeEx\<close> in a changed mode.\<close>

definition settled :: "vss_trace \<Rightarrow> bool" where
  "settled t \<longleftrightarrow> lifecycle t = Some Closed \<and> (\<forall>r. held r t = (if r = Com then - mode_changes t else 0))"

lemma lifecycle_Nil [simp]: "lifecycle [] = Some Closed"
  by (simp add: lifecycle_def)

lemma held_if_sees: "sees N {} p t \<Longrightarrow> held r t = N r - (if r = Com then mode_changes t else 0)"
  by (auto simp: sees_def net_def dest: spec [of _ r])

lemma settled_if_closed: "sees (\<lambda>r. net r []) {} Closed t \<Longrightarrow> settled t"
  by (simp add: settled_def held_if_sees) (simp add: sees_def)

lemma settled_if_sees: "wp m (\<lambda>_. sees (\<lambda>r. net r []) {} Closed) [] \<Longrightarrow> settled (snd (run_state m []))"
  by (simp add: wp_def settled_if_closed split: prod.splits)

text \<open>
  C16: The commands \<open>test_vss\<close> and \<open>vss_delete\<close> and the snapshots of a migration use the shadow copy service
  only in the order it prescribes and give back on every path, errors included, all they have obtained: memory, the
  library, the backup components, asynchronous operations, enumerators and snapshot properties.  COM is released as
  often as it was initialised, and once more whenever \<open>CoInitializeEx\<close> reports that the thread already uses another
  mode.
\<close>
theorem vss_sessions_settled:
  assumes "com_rules env"
  shows "settled (snd (run_state (cmd_test_vss env) [])) \<and> settled (snd (run_state (migrate_snapshots env names opened) [])) \<and>
    settled (snd (run_state (cmd_vss_delete env arg) []))"
  by (intro conjI settled_if_sees test_vss_sees migrate_sees vss_delete_sees) (simp_all add: assms)

theorem vss_sessions_settled_witness:
  "com_rules sample_service \<and> settled (snd (run_state (migrate_snapshots sample_service [''C:''] True) [])) \<and>
   settled (snd (run_state (cmd_vss_delete sample_service (Some ''--all'')) []))"
  using vss_sessions_settled [OF sample_rules, of "[''C:'']" True "Some ''--all''"] sample_rules by simp

text \<open>After the loop \<open>us\<close> more objects are listed, stored from entry \<open>n\<close> on, and their properties are still held.\<close>

definition lists_more ::
  "win_env \<Rightarrow> (resource \<Rightarrow> int) \<Rightarrow> resource set \<Rightarrow> phase \<Rightarrow> nat \<Rightarrow> nat \<Rightarrow> vss_snapshot_info_t list \<Rightarrow> vss_trace \<Rightarrow>
   nat \<times> vss_snapshot_info_t list \<Rightarrow> vss_trace \<Rightarrow> bool" where
  "lists_more env N R p k n info tr r t \<longleftrightarrow> (\<exists>us. listed t = listed tr @ us \<and> fst r = n + length us \<and> length us \<le> k \<and>
     take (fst r) (snd r) = take n info @ map (snapshot_info env) us \<and> sees (N(Properties := N Properties + int (length us))) R p t)"

lemma lists_one_more:
  assumes "lists_more env (N(Properties := N Properties + 1)) R p k (n + 1) (info[n := snapshot_info env (rp_prop a)]) (tr @ [(EnumNext, a)]) r t"
    and "\<not> FAILED (rp_hr a)" "rp_fetched a \<noteq> 0" "n < length info"
  shows "lists_more env N R p (Suc k) n info tr r t"
proof -
  obtain us where "listed t = listed tr @ rp_prop a # us" "fst r = n + length (rp_prop a # us)" "length us \<le> k"
    "take (fst r) (snd r) = take n info @ map (snapshot_info env) (rp_prop a # us)"
    "sees (N(Properties := N Properties + int (length (rp_prop a # us)))) R p t"
    using assms by (auto simp: lists_more_def add.assoc take_Suc_conv_app_nth)
  then show ?thesis unfolding lists_more_def by (intro exI [of _ "rp_prop a # us"]) simp
qed

lemma query_loop_lists:
  assumes "n + k \<le> length info" "sees N R p tr" "Properties \<notin> R"
  shows "wp (query_loop env k n info) (lists_more env N R p k n info tr) tr"
  using assms
proof (induction k arbitrary: n info N tr)
  case 0
  then show ?case unfolding query_loop.simps by (intro wp_return) (simp add: lists_more_def)
next
  case (Suc k)
  show ?case unfolding query_loop.simps
  proof (intro wp_bind wp_call_all wp_if wp_return)
    fix a :: vss_reply
    assume "FAILED (rp_hr a) \<or> rp_fetched a = 0"
    then show "lists_more env N R p (Suc k) n info tr (n, info) (tr @ [(EnumNext, a)])"
      using Suc.prems(2) unfolding lists_more_def by (intro exI [of _ "[]"]) (auto simp: vss_trace_simps)
  next
    fix a :: vss_reply
    assume a: "\<not> (FAILED (rp_hr a) \<or> rp_fetched a = 0)"
    then have "sees (N(Properties := N Properties + 1)) R p (tr @ [(EnumNext, a)])"
      using Suc.prems(2) by (auto simp: vss_trace_simps)
    from Suc.IH [OF _ this Suc.prems(3), of "n + 1"]
    show "wp (query_loop env k (n + 1) (info[n := snapshot_info env (rp_prop a)])) (lists_more env N R p (Suc k) n info tr)
      (tr @ [(EnumNext, a)])"
      by (rule wp_mono [OF _ lists_one_more]) (use Suc.prems(1) a in \<open>auto simp del: fun_upd_apply\<close>)
  qed
qed


text \<open>The result of a query with room for \<open>m\<close> entries, and what is still held after it.\<close>

definition query_result :: "win_env \<Rightarrow> (resource \<Rightarrow> int) \<Rightarrow> nat \<Rightarrow> int \<times> vss_snapshot_info_t list option \<Rightarrow> vss_trace \<Rightarrow> bool" where
  "query_result env N m r t \<longleftrightarrow> fst r = -1 \<and> sees N {} Closed t \<or>
     (\<exists>info. snd r = Some info \<and> fst r = int (length (listed t)) \<and> length (listed t) \<le> m \<and>
       take (length (listed t)) info = map (snapshot_info env) (listed t) \<and>
       sees (N(Properties := N Properties + int (length (listed t)))) {} Closed t)"

lemma wp_listing:
  assumes "sees N (insert Enumerator session_resources) (Ready w) tr" "listed tr = []" "live ctx" "m \<le> length info"
  shows "wp (do { r \<leftarrow> query_loop env m 0 info; call env ReleaseEnum; vss_cleanup env (Some ctx);
      State_Monad.return (int (fst r), Some (snd r)) }) (query_result env N m) tr"
proof (intro wp_bind [of "query_loop _ _ _ _"], rule wp_mono [OF query_loop_lists [OF _ assms(1)]])
  fix r t
  assume "lists_more env N (insert Enumerator session_resources) (Ready w) m 0 info tr r t"
  then have r: "fst r = length (listed t)" "length (listed t) \<le> m" "take (length (listed t)) (snd r) = map (snapshot_info env) (listed t)"
    and s: "sees (N(Properties := N Properties + int (length (listed t)))) (insert Enumerator session_resources) (Ready w) t"
    using assms(2) by (auto simp: lists_more_def)
  show "wp (do { call env ReleaseEnum; vss_cleanup env (Some ctx); State_Monad.return (int (fst r), Some (snd r)) }) (query_result env N m) t"
  proof (intro wp_bind wp_call_all)
    fix a
    let ?N = "N(Properties := N Properties + int (length (listed t)))" and ?t = "t @ [(ReleaseEnum, a)]"
    have "sees ?N session_resources (Ready w) ?t"
      using s by (auto simp: vss_trace_simps split: if_splits)
    then have "wp (vss_cleanup env (Some ctx)) (\<lambda>_ u. sees ?N {} Closed u \<and> listed u = listed ?t) ?t"
      using assms(3) by (intro wp_conj cleanup_sees cleanup_listed) (auto simp: live_def)
    then show "wp (vss_cleanup env (Some ctx)) (\<lambda>_. wp (State_Monad.return (int (fst r), Some (snd r))) (query_result env N m)) ?t"
      by (rule wp_mono) (use r in \<open>auto intro!: wp_return simp: query_result_def\<close>)
  qed
qed (use assms(4) in auto)

lemma query_snapshots_result:
  assumes "com_rules env" "m \<le> length info" "0 < m"
  shows "wp (vss_query_snapshots env (Some info) (int m)) (query_result env (\<lambda>r. net r []) m) []"
proof -
  let ?N = "\<lambda>r. net r []"
  let ?query = "\<lambda>ctx. do { a \<leftarrow> call env QueryObjects;
      if FAILED (rp_hr a) then do { vss_cleanup env ctx; State_Monad.return (-1, Some info) }
      else do { r \<leftarrow> query_loop env m 0 info; call env ReleaseEnum; vss_cleanup env ctx;
        State_Monad.return (int (fst r), Some (snd r)) } }"
  have "wp (?query (Some ctx)) (query_result env ?N m) t"
    if c: "sees ?N session_resources (Ready w) t" "live ctx" "listed t = listed []" for ctx w t
  proof (intro wp_bind [of "call _ _"] wp_call [OF assms(1)] wp_if)
    fix a assume a: "com_answer QueryObjects a" "FAILED (rp_hr a)"
    then have "sees ?N session_resources (Ready w) (t @ [(QueryObjects, a)])"
      using c(1) by (auto simp: vss_trace_simps)
    then show "wp (do { vss_cleanup env (Some ctx); State_Monad.return (-1, Some info) }) (query_result env ?N m) (t @ [(QueryObjects, a)])"
      using c(2) by (auto intro!: wp_return simp: query_result_def intro: wp_cleanup)
  next
    fix a assume a: "com_answer QueryObjects a" "\<not> FAILED (rp_hr a)"
    then have "sees ?N (insert Enumerator session_resources) (Ready w) (t @ [(QueryObjects, a)])"
      using c(1) by (auto simp: vss_trace_simps)
    then show "wp (do { r \<leftarrow> query_loop env m 0 info; call env ReleaseEnum; vss_cleanup env (Some ctx);
        State_Monad.return (int (fst r), Some (snd r)) }) (query_result env ?N m) (t @ [(QueryObjects, a)])"
      by (rule wp_listing) (use c(2,3) assms(2) in auto)
  qed
  then have "wp (do { ctx \<leftarrow> vss_init_ex env 0x1d; if ctx = None then State_Monad.return (-1, Some info) else ?query ctx })
      (query_result env ?N m) []"
    by (intro wp_init [OF assms(1)]) (auto intro!: wp_return simp: query_result_def)
  then show ?thesis using assms(3) unfolding vss_query_snapshots_def option.case nat_int by simp
qed

text \<open>
  C17: \<open>vss_query\<close> ends with the interface closed and prints one entry for each object the enumeration returned, in
  that order and at most 64, or fails and prints none.  It gives back everything it has obtained except the
  properties of the snapshots: every listed snapshot leaves its strings allocated.
\<close>
theorem vss_query_lists:
  assumes "com_rules env" "run_state (cmd_vss_query env) [] = ((rc, entries), t)"
  shows "lifecycle t = Some Closed \<and> (rc = 1 \<and> entries = [] \<and> settled t \<or>
    rc = 0 \<and> entries = map (snapshot_info env) (listed t) \<and> length entries \<le> 64 \<and>
      (\<forall>r. held r t = (if r = Properties then int (length entries) else if r = Com then - mode_changes t else 0)))"
proof -
  have "wp (vss_query_snapshots env (Some (replicate 64 no_info)) 64) (query_result env (\<lambda>r. net r []) 64) []"
    using query_snapshots_result [OF assms(1), of 64 "replicate 64 no_info"] by simp
  then obtain n info where run: "run_state (vss_query_snapshots env (Some (replicate 64 no_info)) 64) [] = ((n, info), t)"
    and q: "query_result env (\<lambda>r. net r []) 64 (n, info) t"
    using assms(2) by (auto simp: wp_def cmd_vss_query_def split: prod.splits option.splits)
  have cmd: "(rc, entries) = (if n < 0 \<or> info = None then (1, []) else (0, take (nat n) (the info)))"
    using assms(2) run by (auto simp: cmd_vss_query_def split: option.splits if_splits)
  from q show ?thesis unfolding query_result_def fst_conv snd_conv
  proof (elim disjE exE conjE)
    assume "n = -1" "sees (\<lambda>r. net r []) {} Closed t"
    then show ?thesis using cmd by (auto simp: settled_if_closed sees_def)
  next
    fix inf assume "info = Some inf" and n: "n = int (length (listed t))" "length (listed t) \<le> 64"
      and l: "take (length (listed t)) inf = map (snapshot_info env) (listed t)"
      and s: "sees ((\<lambda>r. net r [])(Properties := net Properties [] + int (length (listed t)))) {} Closed t"
    then show ?thesis using cmd by (simp add: held_if_sees [OF s]) (simp add: sees_def)
  qed
qed


lemma query_loop_pos:
  "0 < k \<Longrightarrow> query_loop env k n info = do {
     a \<leftarrow> call env EnumNext;
     if FAILED (rp_hr a) \<or> rp_fetched a = 0 then State_Monad.return (n, info)
     else query_loop env (k - 1) (n + 1) (info[n := snapshot_info env (rp_prop a)]) }"
  by (cases k) (simp_all only: query_loop.simps diff_Suc_1 less_irrefl)

lemma props_retry_ok: "\<not> FAILED (rp_hr a) \<Longrightarrow> props_retry env sid k a = State_Monad.return a"
  by (cases k) simp_all

lemmas vss_run_simps = call_def Let_def sample_service_def FAILED_def vss_init_ex_def vss_cleanup_def

lemma take_first_update: "xs \<noteq> [] \<Longrightarrow> take (Suc 0) (xs[0 := x]) = [x]"
  by (cases xs) simp_all

definition sample_prop :: snapshot_prop where
  "sample_prop = \<lparr>sp_id = sample_guid, sp_original = Some (widen ''C:''), sp_device = Some (widen ''S''), sp_created = 0\<rparr>"

theorem vss_query_lists_witness:
  "\<exists>t. run_state (cmd_vss_query sample_service) [] = ((0, [snapshot_info sample_service sample_prop]), t) \<and> held Properties t = 1"
proof -
  obtain t where run: "run_state (cmd_vss_query sample_service) [] = ((0, [snapshot_info sample_service sample_prop]), t)"
    by (simp add: cmd_vss_query_def vss_query_snapshots_def vss_run_simps query_loop_pos VSS_CTX_BACKUP_def take_first_update sample_prop_def)
  show ?thesis using vss_query_lists [OF sample_rules run] run by auto
qed

lemma length_fmt_x: "length (fmt_x n v) = n"
  by (induction n arbitrary: v) simp_all

lemma fmt_x_no_brace: "CHR ''{'' \<notin> set (fmt_x n v)"
proof (induction n arbitrary: v)
  case (Suc n)
  have "hex_digit d \<noteq> CHR ''{''" if "d < 16" for d
  proof
    assume "hex_digit d = CHR ''{''"
    then have "of_char (hex_digit d) = (123 :: nat)" by simp
    with that show False by (simp add: hex_digit_def split: if_splits)
  qed
  then show ?case using Suc by (metis UnE fmt_x.simps(2) list.set(1,2) mod_less_divisor set_append singletonD zero_less_numeral)
qed simp

lemma guid_string_shape:
  assumes "length (g_data4 g) = 8"
  shows "\<exists>cs. guid_string g = CHR ''{'' # cs @ ''}'' \<and> length cs = 36 \<and> hd cs \<noteq> CHR ''{''"
proof (intro exI conjI)
  let ?cs = "fmt_x 8 (unat (g_data1 g)) @ CHR ''-'' # fmt_x 4 (unat (g_data2 g)) @ CHR ''-'' # fmt_x 4 (unat (g_data3 g)) @ CHR ''-'' #
    concat (map (\<lambda>b. fmt_x 2 (unat b)) (take 2 (g_data4 g))) @ CHR ''-'' # concat (map (\<lambda>b. fmt_x 2 (unat b)) (drop 2 (g_data4 g)))"
  show len: "length ?cs = 36"
    using assms by (simp add: length_fmt_x length_concat comp_def sum_list_triv)
  then show "guid_string g = CHR ''{'' # ?cs @ ''}''"
    by (simp add: guid_string_def snprintf_def)
  have "fmt_x 8 (unat (g_data1 g)) \<noteq> []" using length_fmt_x [of 8] by (metis list.size(3) zero_neq_numeral)
  then show "hd ?cs \<noteq> CHR ''{''" using fmt_x_no_brace by (metis hd_append2 hd_in_set)
qed



text \<open>The witness of the outcome of \<open>vss_create_snapshots\<close>: one volume, one snapshot.\<close>

theorem vss_create_outcome_witness:
  "\<exists>snaps' ctx t. run_state (snapshot_run sample_service
      \<lparr>cx_vssapi_dll = True, cx_backup_components = True, cx_context = 0, cx_initialized = True, cx_snapshot_set_started = False\<rparr> [''C:'']) [] =
    ((1, Some snaps', ctx), t) \<and> reported sample_service t (snaps' ! 0)"
proof -
  let ?cx = "\<lparr>cx_vssapi_dll = True, cx_backup_components = True, cx_context = 0, cx_initialized = True, cx_snapshot_set_started = False\<rparr>"
  obtain out ctx t where run: "run_state (snapshot_run sample_service ?cx [''C:'']) [] = ((1, out, ctx), t)"
    by (simp add: snapshot_run_def vss_create_snapshots_def take_snapshot_set_def await_async_def persistent_def VSS_MAX_VOLUMES_def
        vss_run_simps props_retry_ok)
  show ?thesis using vss_create_outcome [OF _ run [unfolded snapshot_run_def]] run by (auto simp: filled_def VSS_MAX_VOLUMES_def)
qed


end
