(* ===== verification/Migrate.thy ===== *)
theory Migrate
  imports Incremental Vss
begin

text \<open>
  The migration commands of \<^verbatim>\<open>client/main.c\<close>: \<open>do_migrate\<close> (used by \<open>main\<close> and \<open>cmd_dryrun\<close>) phase by
  phase, and the single pass \<open>cmd_incsync\<close>.

  The snapshots are an argument, a function from volume names to what \<open>vss_create_snapshots\<close> returns (\<open>snapshot_service\<close>
  of theory \<open>Vss\<close> is that function for the snapshot module), and so is the opening of a device path (\<open>opn\<close>).
  Counters that only feed the progress display (\<open>sent_count\<close>, \<open>part_st\<close>) are left out; the
  structured exception handler around the transfer loop has no counterpart.  The array \<open>gpt_done\<close> is
  the list of the disks already treated.

  Loops with a bound in the code are structural recursions with that bound; the loops that wait for
  an event are \<open>partial_function\<close>s, \<open>None\<close> for not returning.
\<close>

type_synonym compressor = "int \<Rightarrow> bytes \<Rightarrow> u64 \<Rightarrow> bytes option"

section \<open>Snapshots and readers\<close>

text \<open>The indices of the partitions with a drive letter, at most \<open>VSS_MAX_VOLUMES\<close>.\<close>

definition has_letter :: "volume_info_t \<Rightarrow> bool" where
  "has_letter v = (case vi_name v of _ # c # _ \<Rightarrow> c = CHR '':'' | _ \<Rightarrow> False)"

definition vss_indices :: "volume_info_t list \<Rightarrow> nat list" where
  "vss_indices vols = take VSS_MAX_VOLUMES (filter (\<lambda>i. has_letter (vols ! i)) [0..<length vols])"

definition strip_backslash :: "string \<Rightarrow> string" where
  "strip_backslash s = (if s \<noteq> [] \<and> last s = CHR 0x5C then butlast s else s)"

definition apply_snapshot :: "nat list \<Rightarrow> vss_snapshot_t \<Rightarrow> volume_info_t list \<Rightarrow> volume_info_t list" where
  "apply_snapshot idx sn vols =
     (if \<not> sn_valid sn then vols
      else
        case find (\<lambda>i. vi_name (vols ! i) = strip_backslash (sn_original_volume sn)) idx of
          None \<Rightarrow> vols
        | Some i \<Rightarrow> vols[i := (vols ! i)\<lparr>vi_vss_path := take 511 (sn_snapshot_path sn), vi_has_vss := True\<rparr>])"

definition open_entry ::
  "(string \<Rightarrow> block_reader option) \<Rightarrow> bool \<Rightarrow> volume_info_t \<Rightarrow> reader_entry_t option" where
  "open_entry opn tail_send vol =
     (let (r, use_vss) =
        (if vi_has_vss vol then
           (case opn (vi_vss_path vol) of
              Some r \<Rightarrow> (Some r, True)
            | None \<Rightarrow> (opn (vi_disk_path vol), False))
         else (opn (vi_disk_path vol), False))
      in map_option (\<lambda>r.
           \<lparr>re_reader = r,
            re_live_reader =
              (if tail_send then
                 (case opn (vi_disk_path vol) of Some l \<Rightarrow> Some l | None \<Rightarrow> Some r)
               else None),
            re_devno = vi_devno vol, re_partition_offset = vi_partition_offset vol,
            re_block_count = vi_block_count vol, re_is_vss = use_vss, re_name = snprintf 16 (vi_name vol),
            re_part_index = vi_part_index vol, re_sent_count = 0\<rparr>) r)"

definition open_readers ::
  "(string \<Rightarrow> block_reader option) \<Rightarrow> int list \<Rightarrow> bool \<Rightarrow> volume_info_t list \<Rightarrow> reader_entry_t list" where
  "open_readers opn skip_disks tail_send vols =
     List.map_filter (open_entry opn tail_send) (filter (\<lambda>v. sint (vi_devno v) \<notin> set skip_disks) vols)"

section \<open>The full transfer\<close>

text \<open>The number of blocks of a partition, cut at the end of the reader.\<close>

definition clamp_blocks :: "reader_entry_t \<Rightarrow> u64" where
  "clamp_blocks e =
     (let part_base = re_partition_offset e;
          disk_end = block_reader_size (re_reader e)
      in if disk_end > part_base then
           let max_blocks = (disk_end - part_base) div of_nat BLOCK_SIZE
           in if re_block_count e > max_blocks then max_blocks else re_block_count e
         else 0)"

function wait_backpressure :: "compressor \<Rightarrow> client \<Rightarrow> client option" where
  "wait_backpressure zc s =
     (if queue_should_backpressure (m_queue s) then
        (let (run, s1) = ask x_running s in
         if \<not> run then Some s1
         else case drain zc (process_ack s1) of None \<Rightarrow> None | Some s2 \<Rightarrow> wait_backpressure zc s2)
      else Some s)"
  by pat_completeness auto
termination
proof (relation "measure (\<lambda>(zc, s). q_count (m_queue s))")
  fix zc s x run s1 s2
  assume a: "queue_should_backpressure (m_queue s)" "x = ask x_running s" "(run, s1) = x" "drain zc (process_ack s1) = Some s2"
  then have "m_queue s1 = m_queue s" "0 < q_count (m_queue s)"
    by (auto simp: ask_def queue_should_backpressure_def BACKPRESSURE_QUEUE_DEPTH_def)
  then show "((zc, s2), zc, s) \<in> measure (\<lambda>(zc, s). q_count (m_queue s))"
    using drain_count [OF a(4)] by simp
qed simp

declare wait_backpressure.simps [simp del]

text \<open>Handling timer events until none is due; the incremental phase leaves the loop when all is done.\<close>

partial_function (option) timer_loop ::
  "bool \<Rightarrow> (timer_event_t \<Rightarrow> client \<Rightarrow> client option) \<Rightarrow> u64 \<Rightarrow> client \<Rightarrow> client option" where
  "timer_loop leave h now s =
     (let ev = timer_check (m_timer s) now in
      if ev = TIMER_NONE then Some s
      else
        case h ev s of
          None \<Rightarrow> None
        | Some s \<Rightarrow>
            let (t, s) = ask x_clock s;
                s = s\<lparr>m_timer := timer_reset t (m_timer s) ev\<rparr>
            in if leave \<and> m_all_done s then Some s
               else let (now, s) = ask x_clock s in timer_loop leave h now s)"

definition full_timer :: "compressor \<Rightarrow> reader_entry_t list \<Rightarrow> timer_event_t \<Rightarrow> client \<Rightarrow> client option" where
  "full_timer zc readers ev s =
     (case ev of
        TIMER_INCREMENTAL \<Rightarrow>
          if m_tail_send s then
            map_option snd (do_incremental_round zc readers readers 0 (s\<lparr>m_inc_round := m_inc_round s + 1\<rparr>))
          else Some s
      | TIMER_RETRANSMIT \<Rightarrow> do_retransmit zc readers s
      | TIMER_RECONNECT \<Rightarrow> if m_dry_run s then Some s else do_reconnect s
      | _ \<Rightarrow> Some s)"

text \<open>One iteration of the transfer loop; the flag tells that \<open>send_block\<close> returned 0.\<close>

definition transfer_block ::
  "compressor \<Rightarrow> reader_entry_t list \<Rightarrow> reader_entry_t \<Rightarrow> u64 \<Rightarrow> client \<Rightarrow> (bool \<times> client) option" where
  "transfer_block zc readers e blk s =
     (let disk_offset = re_partition_offset e + blk * of_nat BLOCK_SIZE;
          reader_offset = (if re_is_vss e then blk * of_nat BLOCK_SIZE else disk_offset)
      in case wait_backpressure zc s of
           None \<Rightarrow> None
         | Some s \<Rightarrow>
             (case send_block zc (re_reader e) (re_devno e) disk_offset reader_offset s of
                None \<Rightarrow> None
              | Some (rc, s) \<Rightarrow>
                  (case drain zc s of
                     None \<Rightarrow> None
                   | Some s \<Rightarrow>
                       let (now, s) = ask x_clock (process_ack s)
                       in map_option (\<lambda>s. (rc = 0, s)) (timer_loop False (full_timer zc readers) now s))))"

text \<open>The blocks \<open>blk\<close> to \<open>blk + k - 1\<close>, with the count of blocks sent.\<close>

fun transfer_blocks ::
  "compressor \<Rightarrow> reader_entry_t list \<Rightarrow> reader_entry_t \<Rightarrow> u64 \<Rightarrow> nat \<Rightarrow> u64 \<Rightarrow> client \<Rightarrow> (u64 \<times> client) option" where
  "transfer_blocks zc readers e blk 0 sent s = Some (sent, s)"
| "transfer_blocks zc readers e blk (Suc k) sent s =
     (let (run, s) = ask x_running s in
      if \<not> run then Some (sent, s)
      else
        case transfer_block zc readers e blk s of
          None \<Rightarrow> None
        | Some (ok, s) \<Rightarrow> transfer_blocks zc readers e (blk + 1) k (if ok then sent + 1 else sent) s)"

fun transfer_partitions ::
  "compressor \<Rightarrow> reader_entry_t list \<Rightarrow> reader_entry_t list \<Rightarrow> u64 \<Rightarrow> client \<Rightarrow> (u64 \<times> client) option" where
  "transfer_partitions zc readers [] sent s = Some (sent, s)"
| "transfer_partitions zc readers (e # es) sent s =
     (let (run, s) = ask x_running s in
      if \<not> run then Some (sent, s)
      else
        let n_blocks = clamp_blocks e;
            s = s\<lparr>m_total_blocks := m_total_blocks s + n_blocks\<rparr>
        in case transfer_blocks zc readers e 0 (unat n_blocks) sent s of
             None \<Rightarrow> None
           | Some (sent, s) \<Rightarrow> transfer_partitions zc readers es sent s)"

section \<open>Partition table metadata\<close>

definition send_and_drain :: "compressor \<Rightarrow> block_reader \<Rightarrow> u32 \<Rightarrow> u64 \<Rightarrow> u64 \<Rightarrow> client \<Rightarrow> (u64 \<times> client) option" where
  "send_and_drain zc disk devno off sent s =
     (case send_block zc disk devno off off s of
        None \<Rightarrow> None
      | Some (rc, s) \<Rightarrow>
          map_option (\<lambda>s. (if rc = 0 then sent + 1 else sent, process_ack s)) (drain zc s))"

fun send_tail :: "compressor \<Rightarrow> block_reader \<Rightarrow> u32 \<Rightarrow> u64 list \<Rightarrow> u64 \<Rightarrow> client \<Rightarrow> (u64 \<times> client) option" where
  "send_tail zc disk devno [] sent s = Some (sent, s)"
| "send_tail zc disk devno (off # offs) sent s =
     (let (run, s) = ask x_running s in
      if \<not> run then Some (sent, s)
      else
        case send_and_drain zc disk devno off sent s of
          None \<Rightarrow> None
        | Some (sent, s) \<Rightarrow> send_tail zc disk devno offs sent s)"

text \<open>The first block and, on a disk of two blocks or more, the last two whole blocks.\<close>

definition gpt_tail :: "u64 \<Rightarrow> u64 list" where
  "gpt_tail disk_size =
     (let aligned_end = (disk_size div of_nat BLOCK_SIZE) * of_nat BLOCK_SIZE
      in if aligned_end \<ge> 2 * of_nat BLOCK_SIZE
         then [aligned_end - 2 * of_nat BLOCK_SIZE, aligned_end - of_nat BLOCK_SIZE] else [])"

definition gpt_disk ::
  "compressor \<Rightarrow> (string \<Rightarrow> block_reader option) \<Rightarrow> reader_entry_t \<Rightarrow> u64 \<Rightarrow> client \<Rightarrow> (u64 \<times> client) option" where
  "gpt_disk zc opn e sent s =
     (case (if re_is_vss e
            then opn ([CHR 0x5C, CHR 0x5C, CHR ''.'', CHR 0x5C] @ ''PhysicalDrive'' @ fmt_d (sint (re_devno e)))
            else Some (re_reader e)) of
        None \<Rightarrow> Some (sent, s)
      | Some disk \<Rightarrow>
          (case send_and_drain zc disk (re_devno e) 0 sent s of
             None \<Rightarrow> None
           | Some (sent, s) \<Rightarrow> send_tail zc disk (re_devno e) (gpt_tail (block_reader_size disk)) sent s))"

fun gpt_loop ::
  "compressor \<Rightarrow> (string \<Rightarrow> block_reader option) \<Rightarrow> u32 list \<Rightarrow> reader_entry_t list \<Rightarrow> u64 \<Rightarrow> client \<Rightarrow> (u64 \<times> client) option" where
  "gpt_loop zc opn seen [] sent s = Some (sent, s)"
| "gpt_loop zc opn seen (e # es) sent s =
     (let (run, s) = ask x_running s in
      if \<not> run then Some (sent, s)
      else if re_devno e \<in> set seen then gpt_loop zc opn seen es sent s
      else
        case gpt_disk zc opn e sent s of
          None \<Rightarrow> None
        | Some (sent, s) \<Rightarrow> gpt_loop zc opn (re_devno e # seen) es sent s)"

section \<open>Draining and the incremental phase\<close>

fun drain_attempts :: "compressor \<Rightarrow> nat \<Rightarrow> client \<Rightarrow> client option" where
  "drain_attempts zc 0 s = Some s"
| "drain_attempts zc (Suc n) s =
     (if queue_count (m_queue s) > 0
      then (case drain zc s of None \<Rightarrow> None | Some s \<Rightarrow> drain_attempts zc n (process_ack s))
      else Some s)"

definition version_start :: "int \<Rightarrow> client \<Rightarrow> client" where
  "version_start version s =
     (let (t, s) = ask x_time s
      in run_sql (\<lambda>eng db. sqlite_version_start eng db version
           (Some (remote_id_of (m_server_ip s) (m_server_port s))) (t * 1000)) s)"

definition version_end :: "int \<Rightarrow> int \<Rightarrow> int \<Rightarrow> client \<Rightarrow> client" where
  "version_end version scanned changed s =
     (let (t, s) = ask x_time s
      in run_sql (\<lambda>eng db. sqlite_version_end eng db version
           (Some (remote_id_of (m_server_ip s) (m_server_port s))) (t * 1000) scanned changed) s)"

definition next_version :: "client \<Rightarrow> int \<times> client" where
  "next_version s =
     (let (eng, s) = ask x_sql s;
          v = sqlite_get_next_version eng (m_db s) (Some (remote_id_of (m_server_ip s) (m_server_port s)))
      in (if v < 1 then 1 else v, s))"

definition inc_event :: "compressor \<Rightarrow> reader_entry_t list \<Rightarrow> client \<Rightarrow> client option" where
  "inc_event zc readers s =
     (case do_incremental_round zc readers readers (m_inc_version s) (s\<lparr>m_inc_round := m_inc_round s + 1\<rparr>) of
        None \<Rightarrow> None
      | Some (requeued, s) \<Rightarrow>
          (case should_finish requeued (m_inc_version s) (version_end (m_inc_version s) 0 requeued s) of
             (True, s) \<Rightarrow> map_option snd (timer_cb_real zc s)
           | (False, s) \<Rightarrow> Some (version_start (m_inc_version s + 1) (s\<lparr>m_inc_version := m_inc_version s + 1\<rparr>))))"

definition inc_timer :: "compressor \<Rightarrow> reader_entry_t list \<Rightarrow> timer_event_t \<Rightarrow> client \<Rightarrow> client option" where
  "inc_timer zc readers ev s =
     (case ev of
        TIMER_INCREMENTAL \<Rightarrow> inc_event zc readers s
      | TIMER_RETRANSMIT \<Rightarrow> do_retransmit zc readers s
      | TIMER_RECONNECT \<Rightarrow> if m_dry_run s then Some s else do_reconnect s
      | _ \<Rightarrow> Some s)"

partial_function (option) inc_session :: "compressor \<Rightarrow> reader_entry_t list \<Rightarrow> client \<Rightarrow> client option" where
  "inc_session zc readers s =
     (let (run, s) = ask x_running s in
      if run \<and> \<not> m_all_done s then
        (case drain zc s of
           None \<Rightarrow> None
         | Some s \<Rightarrow>
             (case do_reconnect (process_ack s) of
                None \<Rightarrow> None
              | Some s \<Rightarrow>
                  let (now, s) = ask x_clock s in
                  (case timer_loop True (inc_timer zc readers) now s of
                     None \<Rightarrow> None
                   | Some s \<Rightarrow> if m_all_done s then Some s else inc_session zc readers s)))
      else Some s)"

text \<open>The end of a full transfer: \<open>ctlEndIncremental\<close> and 300 rounds of polling.\<close>

definition end_full :: "client \<Rightarrow> client option" where
  "end_full s =
     (if m_dry_run s then Some s
      else
        case acquire s of
          (None, s) \<Rightarrow> Some s
        | (Some i, s) \<Rightarrow>
            (case send_control i CTL_END_INCREMENTAL CTL_END_INCREMENTAL_LEN s of
               None \<Rightarrow> None
             | Some s \<Rightarrow>
                 let (now, s) = ask x_time s
                 in Some ((process_ack ^^ 300) (release i (upd_conn i (pool_touch now) s)))))"

text \<open>A control message on an acquired connection, nothing when there is none.\<close>

definition send_ctl :: "bytes \<Rightarrow> nat \<Rightarrow> client \<Rightarrow> client option" where
  "send_ctl msg len s =
     (case acquire s of
        (None, s) \<Rightarrow> Some s
      | (Some i, s) \<Rightarrow> map_option (release i) (send_control i msg len s))"

text \<open>Taking the snapshots and entering their paths; \<open>None\<close> when there is none.\<close>

definition take_snapshots :: "vss_service option \<Rightarrow> volume_info_t list \<Rightarrow> volume_info_t list option" where
  "take_snapshots vss vols =
     (let idx = vss_indices vols in
      case vss of
        None \<Rightarrow> None
      | Some create \<Rightarrow>
          if idx = [] then None
          else
            let (snap_count, snaps) = create (map (\<lambda>i. vi_name (vols ! i)) idx)
            in if snap_count \<le> 0 then None
               else Some (fold (apply_snapshot idx) (take (nat snap_count) snaps) vols))"

text \<open>The phases of the transfer, from the first block to the empty queue.\<close>

definition transfer_all ::
  "compressor \<Rightarrow> (string \<Rightarrow> block_reader option) \<Rightarrow> reader_entry_t list \<Rightarrow> client \<Rightarrow> (u64 \<times> client) option" where
  "transfer_all zc opn readers s =
     (case transfer_partitions zc readers readers 0 (s\<lparr>m_total_blocks := 0\<rparr>) of
        None \<Rightarrow> None
      | Some (sent, s) \<Rightarrow>
          (case gpt_loop zc opn [] readers sent s of
             None \<Rightarrow> None
           | Some (sent, s) \<Rightarrow> map_option (\<lambda>s. (sent, s)) (drain_attempts zc 300 s)))"

definition incremental_phase :: "compressor \<Rightarrow> reader_entry_t list \<Rightarrow> client \<Rightarrow> client option" where
  "incremental_phase zc readers s =
     (let (version, s) = next_version (s\<lparr>m_zero_change_rounds := 0\<rparr>)
      in inc_session zc readers (version_start version (s\<lparr>m_inc_version := version\<rparr>)))"

definition do_migrate ::
  "compressor \<Rightarrow> (string \<Rightarrow> block_reader option) \<Rightarrow> sqlite_db option \<Rightarrow> vss_service option \<Rightarrow> volume_info_t list \<Rightarrow>
   client \<Rightarrow> (int \<times> client) option" where
  "do_migrate zc opn db_opt vss vols s =
     (case db_opt of
        None \<Rightarrow> Some (-1, s)
      | Some db \<Rightarrow>
          let s = s\<lparr>m_db := sqlite_set_remote_id db (Some (remote_id_of (m_server_ip s) (m_server_port s)))\<rparr>;
              (al, s) = ask x_alloc s
          in if \<not> al then Some (-1, s)
             else
               case take_snapshots vss vols of
                 None \<Rightarrow> Some (-1, s)
               | Some vols \<Rightarrow>
                   let readers = open_readers opn (m_skip_disks s) (m_tail_send s) vols in
                   if readers = [] then Some (-1, s)
                   else
                     case (if m_tail_send s \<and> \<not> m_dry_run s then send_ctl CTL_INCREMENTAL CTL_INCREMENTAL_LEN s else Some s) of
                       None \<Rightarrow> None
                     | Some s \<Rightarrow>
                         (case transfer_all zc opn readers s of
                            None \<Rightarrow> None
                          | Some (sent, s) \<Rightarrow>
                              map_option (\<lambda>s. (0, s))
                                (if m_tail_send s then incremental_phase zc readers s else end_full s)))"

end
