(* ===== verification/Session.thy ===== *)
theory Session
  imports Prelude
begin

text \<open>
  The receiver's session table, \<^verbatim>\<open>server/session.c\<close> and \<^verbatim>\<open>server/session.h\<close>.

  The table is the list of the sessions the first \<open>g_session_count\<close> pointers of \<open>g_sessions\<close>
  refer to (they are never NULL), so \<open>g_session_count\<close> is its length.  A session's 4 MB receive
  buffer is the bytes written to it so far, \<open>s_recv_len\<close> of which are pending data.  Time,
  the outcome of \<open>calloc\<close> and the descriptor are arguments; \<open>session_remove\<close> also returns the
  descriptor it closed.
\<close>

definition MAX_SESSIONS :: nat where "MAX_SESSIONS = 16"
definition RECV_BUF_SIZE :: nat where "RECV_BUF_SIZE = 4 * 1024 * 1024"

record session_t =
  s_fd :: int
  s_remote_addr :: string
  s_remote_id :: string
  s_incremental :: int
  s_connected_at :: int
  s_last_active :: int
  s_blocks_received :: u64
  s_bytes_received :: u64
  s_recv_buf :: bytes
  s_recv_len :: nat
  s_expecting_frame :: int
  s_frame_len :: u32

type_synonym session_mgr = "session_t list"

definition session_mgr_init :: session_mgr where
  "session_mgr_init = []"

text \<open>\<open>snprintf (dst, cap, "%s", src)\<close> keeps at most \<open>cap - 1\<close> characters.\<close>

definition snprintf_s :: "nat \<Rightarrow> string \<Rightarrow> string" where
  "snprintf_s cap src = take (cap - 1) src"

definition new_session :: "int \<Rightarrow> int \<Rightarrow> string \<Rightarrow> session_t" where
  "new_session now fd remote_addr =
     \<lparr>s_fd = fd, s_remote_addr = snprintf_s 64 remote_addr, s_remote_id = '''',
      s_incremental = 0, s_connected_at = now, s_last_active = now,
      s_blocks_received = 0, s_bytes_received = 0, s_recv_buf = [], s_recv_len = 0,
      s_expecting_frame = 0, s_frame_len = 0\<rparr>"

definition session_create :: "bool \<Rightarrow> int \<Rightarrow> int \<Rightarrow> string \<Rightarrow> session_mgr \<Rightarrow> session_t option \<times> session_mgr"
where
  "session_create alloc now fd remote_addr g =
     (if length g \<ge> MAX_SESSIONS then (None, g)
      else if \<not> alloc then (None, g)
      else let s = new_session now fd remote_addr in (Some s, g @ [s]))"

fun session_find :: "int \<Rightarrow> session_mgr \<Rightarrow> session_t option" where
  "session_find fd [] = None"
| "session_find fd (s # g) = (if s_fd s = fd then Some s else session_find fd g)"

fun session_remove :: "int \<Rightarrow> session_mgr \<Rightarrow> int option \<times> session_mgr" where
  "session_remove fd [] = (None, [])"
| "session_remove fd (s # g) =
     (if s_fd s = fd then (Some (s_fd s), g)
      else let (c, g') = session_remove fd g in (c, s # g'))"

definition session_count :: "session_mgr \<Rightarrow> nat" where
  "session_count g = length g"

text \<open>The callback gets the index of the session it is called with and the whole state, whose
  session table it may change; the loop reads the count anew in every iteration.\<close>

partial_function (option) session_foreach ::
  "('st \<Rightarrow> session_mgr) \<Rightarrow> (nat \<Rightarrow> 'st \<Rightarrow> (bool \<times> 'st) option) \<Rightarrow> nat \<Rightarrow> 'st \<Rightarrow> 'st option" where
  "session_foreach sessions cb i st =
     (if i < session_count (sessions st) then
        (case cb i st of
           None \<Rightarrow> None
         | Some (stop, st') \<Rightarrow> if stop then Some st' else session_foreach sessions cb (i + 1) st')
      else Some st)"

declare session_foreach.simps [code]

definition session_touch :: "int \<Rightarrow> session_t \<Rightarrow> session_t" where
  "session_touch now s = s\<lparr>s_last_active := now\<rparr>"

section \<open>Invariants\<close>

text \<open>The pending bytes of a session, and its buffer invariant.\<close>

definition pending :: "session_t \<Rightarrow> bytes" where
  "pending s = take (s_recv_len s) (s_recv_buf s)"

definition session_ok :: "session_t \<Rightarrow> bool" where
  "session_ok s \<longleftrightarrow> s_recv_len s \<le> length (s_recv_buf s) \<and> length (s_recv_buf s) \<le> RECV_BUF_SIZE"

definition fds :: "session_mgr \<Rightarrow> int list" where
  "fds g = map s_fd g"

definition sessions_ok :: "session_mgr \<Rightarrow> bool" where
  "sessions_ok g \<longleftrightarrow> length g \<le> MAX_SESSIONS \<and> distinct (fds g) \<and> (\<forall>s \<in> set g. session_ok s)"

lemma length_pending: "session_ok s \<Longrightarrow> length (pending s) = s_recv_len s"
  by (simp add: pending_def session_ok_def)

lemma session_find_Some: "session_find fd g = Some s \<Longrightarrow> s \<in> set g \<and> s_fd s = fd"
  by (induction g) (auto split: if_splits)

lemma session_find_None: "session_find fd g = None \<longleftrightarrow> fd \<notin> set (fds g)"
  by (induction g) (auto simp: fds_def)

lemma session_find_app:
  "session_find fd (g @ g') = (case session_find fd g of None \<Rightarrow> session_find fd g' | Some s \<Rightarrow> Some s)"
  by (induction g) simp_all

lemma session_remove_sessions:
  "snd (session_remove fd g) = takeWhile (\<lambda>s. s_fd s \<noteq> fd) g @ tl (dropWhile (\<lambda>s. s_fd s \<noteq> fd) g)"
  by (induction g) (auto simp: split_beta)

lemma session_remove_closed:
  "fst (session_remove fd g) = (if fd \<in> set (fds g) then Some fd else None)"
  by (induction g) (auto simp: fds_def split_beta)

lemma session_remove_distinct:
  "distinct (fds g) \<Longrightarrow> snd (session_remove fd g) = filter (\<lambda>s. s_fd s \<noteq> fd) g"
proof (induction g)
  case (Cons s g)
  then show ?case
    by (auto simp: fds_def split_beta intro!: filter_True [symmetric]) (metis image_eqI)
qed simp

lemma session_find_filter:
  "session_find fd (filter (\<lambda>s. s_fd s \<noteq> fd') g) = (if fd = fd' then None else session_find fd g)"
  by (induction g) auto

lemma session_create_ok:
  assumes "sessions_ok g" "fd \<notin> set (fds g)"
  shows "sessions_ok (snd (session_create alloc now fd addr g))"
  using assms
  by (auto simp: session_create_def new_session_def sessions_ok_def Let_def fds_def session_ok_def)

lemma session_remove_ok: "sessions_ok g \<Longrightarrow> sessions_ok (snd (session_remove fd g))"
  by (auto simp: sessions_ok_def session_remove_distinct fds_def distinct_map_filter
      intro: order_trans [OF length_filter_le])

section \<open>The table as a finite map from descriptors to sessions\<close>

text \<open>What the receiver relies on: a descriptor's session is found until it is removed, and
  neither operation touches another descriptor's session.\<close>

locale fd_table =
  fixes add :: "'k \<Rightarrow> 'c \<Rightarrow> 't \<Rightarrow> 't"
    and entry :: "'k \<Rightarrow> 'c \<Rightarrow> 'v"
    and look :: "'k \<Rightarrow> 't \<Rightarrow> 'v option"
    and del :: "'k \<Rightarrow> 't \<Rightarrow> 't"
    and room :: "'t \<Rightarrow> bool"
    and inv :: "'t \<Rightarrow> bool"
  assumes look_add: "\<lbrakk>inv t; room t; look k t = None\<rbrakk> \<Longrightarrow>
      look k' (add k c t) = (if k' = k then Some (entry k c) else look k' t)"
    and look_del: "inv t \<Longrightarrow> look k' (del k t) = (if k' = k then None else look k' t)"
    and inv_add: "\<lbrakk>inv t; room t; look k t = None\<rbrakk> \<Longrightarrow> inv (add k c t)"
    and inv_del: "inv t \<Longrightarrow> inv (del k t)"
begin

lemma add_map: "\<lbrakk>inv t; room t; look k t = None\<rbrakk> \<Longrightarrow>
    (\<lambda>k'. look k' (add k c t)) = (\<lambda>k'. look k' t)(k \<mapsto> entry k c)"
  by (auto simp: look_add)

lemma del_map: "inv t \<Longrightarrow> (\<lambda>k'. look k' (del k t)) = (\<lambda>k'. look k' t)(k := None)"
  by (auto simp: look_del)

lemma del_all:
  "inv t \<Longrightarrow> look k' (fold del ks t) = (if k' \<in> set ks then None else look k' t) \<and> inv (fold del ks t)"
  by (induction ks arbitrary: t) (auto simp: look_del inv_del)

end

lemma session_find_create:
  assumes "length g < MAX_SESSIONS" "session_find fd g = None"
  shows "session_find k (snd (session_create True now fd addr g)) =
    (if k = fd then Some (new_session now fd addr) else session_find k g)"
  using assms by (auto simp: session_create_def Let_def session_find_app new_session_def split: option.split)

interpretation st: fd_table
  "\<lambda>fd (now, addr) g. snd (session_create True now fd addr g)"
  "\<lambda>fd (now, addr). new_session now fd addr"
  session_find "\<lambda>fd g. snd (session_remove fd g)" "\<lambda>g. length g < MAX_SESSIONS" sessions_ok
proof (unfold_locales, goal_cases)
  case (1 g fd k c)
  then show ?case by (cases c) (simp add: session_find_create)
next
  case (2 g k fd)
  then show ?case by (simp add: sessions_ok_def session_remove_distinct session_find_filter)
next
  case (3 g fd c)
  then show ?case by (cases c) (simp add: session_create_ok session_find_None)
next
  case (4 g fd)
  then show ?case by (rule session_remove_ok)
qed

text \<open>
  C27: the session table behaves as a finite map from descriptors to sessions, at most 16 of
  them, with no descriptor twice.  Creating a session for a fresh descriptor adds exactly that
  entry (and is refused, with the table unchanged, when it is full or memory is short);
  removing one drops exactly that entry and closes exactly that descriptor, and only when it
  was in the table.
\<close>
theorem session_table_is_map:
  assumes "sessions_ok g" "fd \<notin> set (fds g)"
  shows "(case session_create alloc now fd addr g of
        (None, g') \<Rightarrow> g' = g \<and> (length g = MAX_SESSIONS \<or> \<not> alloc)
      | (Some s, g') \<Rightarrow> sessions_ok g' \<and> s = new_session now fd addr \<and>
          (\<lambda>k. session_find k g') = (\<lambda>k. session_find k g)(fd \<mapsto> s))
    \<and> (case session_remove k g of
        (closed, g') \<Rightarrow> sessions_ok g' \<and>
          (\<lambda>k'. session_find k' g') = (\<lambda>k'. session_find k' g)(k := None) \<and>
          closed = map_option s_fd (session_find k g))"
proof -
  have free: "session_find fd g = None" using assms(2) by (simp add: session_find_None)
  have len: "length g \<le> MAX_SESSIONS" using assms(1) by (simp add: sessions_ok_def)
  have "closed = map_option s_fd (session_find k g)" if "session_remove k g = (closed, g')" for closed g'
  proof (cases "session_find k g")
    case None
    with that show ?thesis using session_remove_closed [of k g] by (simp add: session_find_None)
  next
    case (Some s)
    then have "k \<in> set (fds g)" "s_fd s = k"
      using session_find_None [of k g] session_find_Some [OF Some] by auto
    with that Some show ?thesis using session_remove_closed [of k g] by simp
  qed
  then show ?thesis
    using st.inv_del [OF assms(1), of k] st.del_map [OF assms(1), of k]
      st.inv_add [OF assms(1) _ free, of "(now, addr)"] st.add_map [OF assms(1) _ free, of "(now, addr)"] len
    by (auto simp: session_create_def Let_def split: prod.splits)
qed

theorem session_table_is_map_witness:
  "session_find 7 (snd (session_create True 100 7 ''10.0.0.1'' [])) = Some (new_session 100 7 ''10.0.0.1'')"
  using session_table_is_map [of "[]" 7 True 100 "''10.0.0.1''" 3]
  by (auto simp: sessions_ok_def fds_def session_create_def Let_def MAX_SESSIONS_def fun_eq_iff)

end
