(* ===== verification/Decoder.thy ===== *)
theory Decoder
  imports Wire Session
begin

text \<open>
  The receiver's protocol decoder, \<^verbatim>\<open>server/protocol_decoder.c\<close>: the MsgPack reader, the
  decoding of one complete frame and the framing state machine \<open>protocol_decode\<close> that
  accumulates TCP data in the session's receive buffer.

  \<^item> \<open>zsize src\<close> is \<open>ZSTD_getFrameContentSize\<close>, \<open>zd src cap\<close> is \<open>ZSTD_decompress\<close> into \<open>cap\<close> bytes
    (\<open>None\<close> when \<open>ZSTD_isError\<close>).
  \<^item> \<open>decoded_msg_t\<close> is reused between calls, so the decoder takes the old one and returns the
    new one; its data array is the bytes written to it so far.
  \<^item> The out parameters of \<open>msgpack_decode_block\<close> are returned with the position and length of
    the block in the buffer, \<open>None\<close> for the return value -1.
\<close>

datatype decode_result_t = DECODE_DATA_BLOCK | DECODE_CTL_INCREMENTAL | DECODE_CTL_END_INCREMENTAL
  | DECODE_ERROR

record decoded_msg_t =
  m_type :: decode_result_t
  m_devno :: u32
  m_offset :: u64
  m_data :: bytes
  m_data_len :: u32

datatype content_size = CONTENTSIZE_ERROR | CONTENTSIZE_UNKNOWN | ContentSize nat

section \<open>MsgPack reader\<close>

definition msgpack_read_int :: "bytes \<Rightarrow> (nat \<times> u64) option" where
  "msgpack_read_int buf =
     (if length buf < 1 then None
      else let tag = buf ! 0 in
        if tag \<le> 0x7f then Some (1, ucast tag)
        else if tag \<ge> 0xe0 then Some (1, scast tag)
        else if tag = MSGPACK_INT8 then
          (if length buf < 2 then None else Some (2, scast (buf ! 1)))
        else if tag = MSGPACK_INT16 then
          (if length buf < 3 then None
           else Some (3, scast (push_bit 8 (ucast (buf ! 1)) OR ucast (buf ! 2) :: 16 word)))
        else if tag = MSGPACK_INT32 then
          (if length buf < 5 then None
           else Some (5, scast (push_bit 24 (ucast (buf ! 1)) OR push_bit 16 (ucast (buf ! 2)) OR
                  push_bit 8 (ucast (buf ! 3)) OR ucast (buf ! 4) :: u32)))
        else if tag = MSGPACK_INT64 then
          (if length buf < 9 then None
           else Some (9, push_bit 56 (ucast (buf ! 1)) OR push_bit 48 (ucast (buf ! 2)) OR
                  push_bit 40 (ucast (buf ! 3)) OR push_bit 32 (ucast (buf ! 4)) OR
                  push_bit 24 (ucast (buf ! 5)) OR push_bit 16 (ucast (buf ! 6)) OR
                  push_bit 8 (ucast (buf ! 7)) OR ucast (buf ! 8)))
        else None)"

text \<open>The length of the binary value at \<open>pos\<close>, with the position behind its header.\<close>

definition read_bin_header :: "bytes \<Rightarrow> nat \<Rightarrow> (u32 \<times> nat) option" where
  "read_bin_header buf pos =
     (if pos \<ge> length buf then None
      else let bin_tag = buf ! pos; pos = pos + 1 in
        if bin_tag = MSGPACK_BIN8 then
          (if pos \<ge> length buf then None else Some (ucast (buf ! pos), pos + 1))
        else if bin_tag = MSGPACK_BIN16 then
          (if pos + 1 \<ge> length buf then None
           else Some (push_bit 8 (ucast (buf ! pos)) OR ucast (buf ! (pos + 1)), pos + 2))
        else if bin_tag = MSGPACK_BIN32 then
          (if pos + 3 \<ge> length buf then None
           else Some (push_bit 24 (ucast (buf ! pos)) OR push_bit 16 (ucast (buf ! (pos + 1))) OR
                  push_bit 8 (ucast (buf ! (pos + 2))) OR ucast (buf ! (pos + 3)), pos + 4))
        else None)"

definition msgpack_decode_block :: "bytes \<Rightarrow> u32 \<Rightarrow> u64 \<Rightarrow> u32 \<times> u64 \<times> (nat \<times> u32) option" where
  "msgpack_decode_block buf devno off =
     (if length buf < 1 \<or> buf ! 0 \<noteq> MSGPACK_FIXMAP_3 then (devno, off, None)
      else if 1 \<ge> length buf \<or> buf ! 1 \<noteq> 0x00 then (devno, off, None)
      else case msgpack_read_int (drop 2 buf) of
        None \<Rightarrow> (devno, off, None)
      | Some (n, val64) \<Rightarrow>
          let devno = ucast val64; pos = 2 + n in
          if pos \<ge> length buf \<or> buf ! pos \<noteq> 0x01 then (devno, off, None)
          else case msgpack_read_int (drop (pos + 1) buf) of
            None \<Rightarrow> (devno, off, None)
          | Some (n, off) \<Rightarrow>
              let pos = pos + 1 + n in
              if pos \<ge> length buf \<or> buf ! pos \<noteq> 0x02 then (devno, off, None)
              else case read_bin_header buf (pos + 1) of
                None \<Rightarrow> (devno, off, None)
              | Some (bin_len, pos) \<Rightarrow>
                  if pos + unat bin_len > length buf then (devno, off, None)
                  else (devno, off, Some (pos, bin_len)))"

section \<open>One complete frame\<close>

definition decode_data_frame ::
  "(bytes \<Rightarrow> content_size) \<Rightarrow> (bytes \<Rightarrow> nat \<Rightarrow> bytes option) \<Rightarrow> bytes \<Rightarrow> decoded_msg_t \<Rightarrow> bool \<times> decoded_msg_t"
where
  "decode_data_frame zsize zd zstd_data out =
     (if length zstd_data = 0 then (False, out)
      else case zsize zstd_data of
        CONTENTSIZE_ERROR \<Rightarrow> (False, out)
      | CONTENTSIZE_UNKNOWN \<Rightarrow> (False, out)
      | ContentSize decomp_size \<Rightarrow>
          if decomp_size > BLOCK_SIZE_MAX + 4096 then (False, out)
          else case zd zstd_data decomp_size of
            None \<Rightarrow> (False, out)
          | Some plain \<Rightarrow>
              let out = out\<lparr>m_data := memwrite 0 plain (m_data out)\<rparr> in
              case msgpack_decode_block plain (m_devno out) (m_offset out) of
                (devno, off, None) \<Rightarrow> (False, out\<lparr>m_devno := devno, m_offset := off\<rparr>)
              | (devno, off, Some (pos, block_len)) \<Rightarrow>
                  let block = take (unat block_len) (drop pos (m_data out)) in
                  (True, out\<lparr>m_devno := devno, m_offset := off,
                             m_data := (if pos \<noteq> 0 then memwrite 0 block (m_data out) else m_data out),
                             m_data_len := block_len, m_type := DECODE_DATA_BLOCK\<rparr>))"

definition decode_ctl_frame :: "bytes \<Rightarrow> decoded_msg_t \<Rightarrow> bool \<times> decoded_msg_t" where
  "decode_ctl_frame frame_data out =
     (if length frame_data = CTL_INCREMENTAL_LEN \<and>
         take CTL_INCREMENTAL_LEN frame_data = take CTL_INCREMENTAL_LEN CTL_INCREMENTAL
      then (True, out\<lparr>m_type := DECODE_CTL_INCREMENTAL\<rparr>)
      else if length frame_data = CTL_END_INCREMENTAL_LEN \<and>
         take CTL_END_INCREMENTAL_LEN frame_data = take CTL_END_INCREMENTAL_LEN CTL_END_INCREMENTAL
      then (True, out\<lparr>m_type := DECODE_CTL_END_INCREMENTAL\<rparr>)
      else (False, out))"

definition decode_frame ::
  "(bytes \<Rightarrow> content_size) \<Rightarrow> (bytes \<Rightarrow> nat \<Rightarrow> bytes option) \<Rightarrow> bytes \<Rightarrow> decoded_msg_t \<Rightarrow> bool \<times> decoded_msg_t"
where
  "decode_frame zsize zd frame_data out =
     (if length frame_data \<ge> FRAME_MAGIC_LEN \<and> take FRAME_MAGIC_LEN frame_data = FRAME_MAGIC
      then decode_data_frame zsize zd (drop FRAME_MAGIC_LEN frame_data) out
      else decode_ctl_frame frame_data out)"

section \<open>Framing\<close>

definition FRAME_MAX :: u32 where "FRAME_MAX = 100 * 1024 * 1024"

text \<open>Appending new data, \<open>None\<close> when the buffer would overflow.\<close>

definition recv_append :: "session_t \<Rightarrow> bytes \<Rightarrow> session_t option" where
  "recv_append s buf =
     (if length buf > 0 then
        (if s_recv_len s + length buf > RECV_BUF_SIZE then None
         else Some (s\<lparr>s_recv_buf := memwrite (s_recv_len s) buf (s_recv_buf s),
                      s_recv_len := s_recv_len s + length buf\<rparr>))
      else Some s)"

text \<open>Moving the data behind a processed frame to the front of the buffer.\<close>

definition recv_consume :: "session_t \<Rightarrow> nat \<Rightarrow> session_t" where
  "recv_consume s total_needed =
     (let remaining = s_recv_len s - total_needed in
      s\<lparr>s_recv_buf := (if remaining > 0
                       then memwrite 0 (take remaining (drop total_needed (s_recv_buf s))) (s_recv_buf s)
                       else s_recv_buf s),
        s_recv_len := remaining\<rparr>)"

definition protocol_decode ::
  "(bytes \<Rightarrow> content_size) \<Rightarrow> (bytes \<Rightarrow> nat \<Rightarrow> bytes option) \<Rightarrow>
   session_t \<Rightarrow> bytes \<Rightarrow> decoded_msg_t \<Rightarrow> int \<times> session_t \<times> decoded_msg_t" where
  "protocol_decode zsize zd session buf out =
     (case recv_append session buf of
        None \<Rightarrow> (-1, session, out)
      | Some session \<Rightarrow>
          if s_recv_len session < TCP_FRAME_HEADER_SIZE then (0, session, out)
          else
            let frame_len = bswap32 (of_le32 (take 4 (s_recv_buf session))) in
            if frame_len > FRAME_MAX then (-1, session, out)
            else
              let total_needed = TCP_FRAME_HEADER_SIZE + unat frame_len in
              if s_recv_len session < total_needed then (0, session, out)
              else
                let frame_data = take (unat frame_len) (drop TCP_FRAME_HEADER_SIZE (s_recv_buf session));
                    (ok, out) = decode_frame zsize zd frame_data out
                in (if ok then 1 else -1, recv_consume session total_needed, out))"

definition decode_error_string :: "int \<Rightarrow> string" where
  "decode_error_string err = (if err = -1 then ''protocol error'' else ''unknown error'')"

text \<open>The zeroed message the receiver allocates before it reads from a connection.\<close>

definition calloc_msg :: decoded_msg_t where
  "calloc_msg = \<lparr>m_type = DECODE_DATA_BLOCK, m_devno = 0, m_offset = 0, m_data = [], m_data_len = 0\<rparr>"

section \<open>Reference view of messages and streams\<close>

datatype client_msg = Block u32 u64 bytes | CtlIncremental | CtlEndIncremental | Unknown

definition msg_of :: "decoded_msg_t \<Rightarrow> client_msg" where
  "msg_of out = (case m_type out of
      DECODE_DATA_BLOCK \<Rightarrow> Block (m_devno out) (m_offset out) (take (unat (m_data_len out)) (m_data out))
    | DECODE_CTL_INCREMENTAL \<Rightarrow> CtlIncremental
    | DECODE_CTL_END_INCREMENTAL \<Rightarrow> CtlEndIncremental
    | DECODE_ERROR \<Rightarrow> Unknown)"

text \<open>What zstd documents for a compressor and a decompressor of the same format: a compressed
  message is not empty, fits its destination, and its frame header gives the size and its
  decompression the bytes of the message.\<close>

definition zstd_contract ::
  "(int \<Rightarrow> bytes \<Rightarrow> u64 \<Rightarrow> bytes option) \<Rightarrow> (bytes \<Rightarrow> content_size) \<Rightarrow> (bytes \<Rightarrow> nat \<Rightarrow> bytes option) \<Rightarrow> bool"
where
  "zstd_contract zc zsize zd \<longleftrightarrow> (\<forall>level msg cap c. zc level msg cap = Some c \<longrightarrow>
     c \<noteq> [] \<and> length c \<le> unat cap \<and> zsize c = ContentSize (length msg) \<and> zd c (length msg) = Some msg)"

text \<open>\<open>f\<close> is the bytes the client sends for message \<open>m\<close>.\<close>

definition sent_as :: "(int \<Rightarrow> bytes \<Rightarrow> u64 \<Rightarrow> bytes option) \<Rightarrow> client_msg \<Rightarrow> bytes \<Rightarrow> bool" where
  "sent_as zc m f = (case m of
      Block devno off data \<Rightarrow> length data \<le> BLOCK_SIZE_MAX \<and>
        (\<exists>level c. let msg = block_encoding devno off data in
          zc level msg (ZSTD_COMPRESS_BOUND (of_nat (length msg))) = Some c \<and> f = data_frame c)
    | CtlIncremental \<Rightarrow> f = frame (take CTL_INCREMENTAL_LEN CTL_INCREMENTAL)
    | CtlEndIncremental \<Rightarrow> f = frame (take CTL_END_INCREMENTAL_LEN CTL_END_INCREMENTAL)
    | Unknown \<Rightarrow> False)"

text \<open>Cutting the first frame off a byte stream.\<close>

datatype cut_result = NeedMore | TooLarge | Cut bytes bytes

definition cut_frame :: "bytes \<Rightarrow> cut_result" where
  "cut_frame b =
     (if length b < 4 then NeedMore
      else let n = bswap32 (of_le32 b) in
        if n > FRAME_MAX then TooLarge
        else if length b < 4 + unat n then NeedMore
        else Cut (take (unat n) (drop 4 b)) (drop (4 + unat n) b))"

text \<open>Decoding everything a stream holds: the final return code, the messages, the rest.\<close>

function parse_stream ::
  "(bytes \<Rightarrow> content_size) \<Rightarrow> (bytes \<Rightarrow> nat \<Rightarrow> bytes option) \<Rightarrow> bytes \<Rightarrow> decoded_msg_t \<Rightarrow>
   int \<times> client_msg list \<times> bytes \<times> decoded_msg_t" where
  "parse_stream zsize zd b out =
     (case cut_frame b of
        NeedMore \<Rightarrow> (0, [], b, out)
      | TooLarge \<Rightarrow> (-1, [], b, out)
      | Cut payload rest \<Rightarrow>
          let (ok, out') = decode_frame zsize zd payload out in
          if ok then
            let (rc, ms, rest', out'') = parse_stream zsize zd rest out'
            in (rc, msg_of out' # ms, rest', out'')
          else (-1, [], rest, out'))"
  by pat_completeness auto
termination
  by (relation "measure (\<lambda>(zsize, zd, b, out). length b)")
    (auto simp: cut_frame_def Let_def split: if_splits)

declare parse_stream.simps [simp del]

text \<open>The receiver's decoding of one piece of received data: feed it once, then flush every
  complete frame with calls that bring no new data.\<close>

function decode_all ::
  "(bytes \<Rightarrow> content_size) \<Rightarrow> (bytes \<Rightarrow> nat \<Rightarrow> bytes option) \<Rightarrow> session_t \<Rightarrow> bytes \<Rightarrow> decoded_msg_t \<Rightarrow>
   int \<times> client_msg list \<times> session_t \<times> decoded_msg_t" where
  "decode_all zsize zd s buf out =
     (let (rc, s', out') = protocol_decode zsize zd s buf out in
      if rc = 1 then
        let (rc', ms, s'', out'') = decode_all zsize zd s' [] out' in (rc', msg_of out' # ms, s'', out'')
      else (rc, [], s', out'))"
  by pat_completeness auto
termination
proof (relation "measure (\<lambda>(zsize, zd, s, buf, out). s_recv_len s + length buf)", simp, clarsimp)
  fix zsize zd s buf out s' out'
  assume "(1, s', out') = protocol_decode zsize zd s buf out"
  then show "s_recv_len s' < s_recv_len s + length buf"
    by (auto simp: protocol_decode_def recv_append_def recv_consume_def Let_def proto_consts
        split: if_splits option.splits prod.splits)
qed

declare decode_all.simps [simp del]

text \<open>A tail is what is left of a stream when it stops inside a frame.\<close>

definition partial_of :: "bytes list \<Rightarrow> bytes \<Rightarrow> bool" where
  "partial_of fs b \<longleftrightarrow> (case fs of [] \<Rightarrow> b = [] | f # _ \<Rightarrow> length b < length f \<and> b = take (length b) f)"

text \<open>Feeding the pieces a connection delivers, one after the other, as long as the decoder
  reports no error.\<close>

fun feed ::
  "(bytes \<Rightarrow> content_size) \<Rightarrow> (bytes \<Rightarrow> nat \<Rightarrow> bytes option) \<Rightarrow> session_t \<Rightarrow> bytes list \<Rightarrow> decoded_msg_t \<Rightarrow>
   int \<times> client_msg list \<times> session_t" where
  "feed zsize zd s [] out = (0, [], s)"
| "feed zsize zd s (chunk # chunks) out =
     (let (rc, ms, s', out') = decode_all zsize zd s chunk out in
      if rc < 0 then (rc, ms, s')
      else let (rc', ms', s'') = feed zsize zd s' chunks out' in (rc', ms @ ms', s''))"

section \<open>Reading back what the encoder writes\<close>

lemma narrow_cast:
  fixes v :: u32
  shows "(ucast v :: byte) = word_of_int (sint v)" "(ucast v :: 16 word) = word_of_int (sint v)"
  by (rule bit_word_eqI, auto simp: bit_simps)+

lemma int_range:
  shows "\<lbrakk>-128 \<le> i; i \<le> 127\<rbrakk> \<Longrightarrow> (scast (word_of_int i :: byte) :: u64) = word_of_int i"
    and "\<lbrakk>-32768 \<le> i; i \<le> 32767\<rbrakk> \<Longrightarrow> (scast (word_of_int i :: 16 word) :: u64) = word_of_int i"
    and "\<lbrakk>0 \<le> i; i \<le> 127\<rbrakk> \<Longrightarrow> (ucast (word_of_int i :: byte) :: u64) = word_of_int i"
    and "\<lbrakk>0 \<le> i; i \<le> 127\<rbrakk> \<Longrightarrow> (word_of_int i :: byte) \<le> 0x7f"
    and "\<lbrakk>-32 \<le> i; i < 0\<rbrakk> \<Longrightarrow> \<not> (word_of_int i :: byte) \<le> 0x7f"
    and "\<lbrakk>-32 \<le> i; i < 0\<rbrakk> \<Longrightarrow> (0xe0 :: byte) \<le> word_of_int i"
proof -
  show "\<lbrakk>-128 \<le> i; i \<le> 127\<rbrakk> \<Longrightarrow> (scast (word_of_int i :: byte) :: u64) = word_of_int i"
    "\<lbrakk>-32768 \<le> i; i \<le> 32767\<rbrakk> \<Longrightarrow> (scast (word_of_int i :: 16 word) :: u64) = word_of_int i"
    by (simp_all add: signed_of_int signed_take_bit_int_eq_self)
  show "\<lbrakk>0 \<le> i; i \<le> 127\<rbrakk> \<Longrightarrow> (ucast (word_of_int i :: byte) :: u64) = word_of_int i"
    "\<lbrakk>0 \<le> i; i \<le> 127\<rbrakk> \<Longrightarrow> (word_of_int i :: byte) \<le> 0x7f"
    by (simp_all add: word_le_def unsigned_of_int take_bit_int_eq_self)
  have "(i mod 256) = i + 256" if "-32 \<le> i" "i < 0"
  proof -
    have "i mod 256 = (i + 256) mod 256" by simp
    also have "\<dots> = i + 256" using that by (intro mod_pos_pos_trivial) auto
    finally show ?thesis .
  qed
  then show "\<lbrakk>-32 \<le> i; i < 0\<rbrakk> \<Longrightarrow> \<not> (word_of_int i :: byte) \<le> 0x7f"
    "\<lbrakk>-32 \<le> i; i < 0\<rbrakk> \<Longrightarrow> (0xe0 :: byte) \<le> word_of_int i"
    by (simp_all add: word_le_def unsigned_of_int take_bit_eq_mod)
qed

lemma take_bit_small: "unat v < 2 ^ n \<Longrightarrow> take_bit n v = (v :: u32)"
  by (simp add: word_unat_eq_iff unsigned_take_bit_eq take_bit_nat_eq_self)

lemma be_bytes:
  fixes v :: u32
  shows "push_bit 8 (ucast (ucast (drop_bit 8 v) :: byte)) OR ucast (ucast v :: byte) = (ucast v :: 16 word)"
    and "push_bit 24 (ucast (ucast (drop_bit 24 v) :: byte)) OR push_bit 16 (ucast (ucast (drop_bit 16 v) :: byte)) OR
       push_bit 8 (ucast (ucast (drop_bit 8 v) :: byte)) OR ucast (ucast v :: byte) = v"
    and "unat v < 65536 \<Longrightarrow> push_bit 8 (ucast (ucast (drop_bit 8 v) :: byte)) OR ucast (ucast v :: byte) = v"
    and "unat v < 256 \<Longrightarrow> ucast (ucast v :: byte) = v"
proof -
  show "push_bit 8 (ucast (ucast (drop_bit 8 v) :: byte)) OR ucast (ucast v :: byte) = (ucast v :: 16 word)"
    by (rule bit_word_eqI, simp add: bit_simps cong: conj_cong) arith
  show "push_bit 24 (ucast (ucast (drop_bit 24 v) :: byte)) OR push_bit 16 (ucast (ucast (drop_bit 16 v) :: byte)) OR
       push_bit 8 (ucast (ucast (drop_bit 8 v) :: byte)) OR ucast (ucast v :: byte) = v"
    by (rule bit_word_eqI, simp add: bit_simps cong: conj_cong) arith
  have "push_bit 8 (ucast (ucast (drop_bit 8 v) :: byte)) OR ucast (ucast v :: byte) = take_bit 16 v"
    by (rule bit_word_eqI, simp add: bit_simps cong: conj_cong) arith
  then show "unat v < 65536 \<Longrightarrow> push_bit 8 (ucast (ucast (drop_bit 8 v) :: byte)) OR ucast (ucast v :: byte) = v"
    by (simp add: take_bit_small)
  have "ucast (ucast v :: byte) = take_bit 8 v"
    by (rule bit_word_eqI, simp add: bit_simps)
  then show "unat v < 256 \<Longrightarrow> ucast (ucast v :: byte) = v"
    by (simp add: take_bit_small)
qed

lemma le64_bytes:
  fixes v :: u64
  shows "push_bit 56 (ucast (ucast (drop_bit 56 v) :: byte)) OR push_bit 48 (ucast (ucast (drop_bit 48 v) :: byte)) OR
       push_bit 40 (ucast (ucast (drop_bit 40 v) :: byte)) OR push_bit 32 (ucast (ucast (drop_bit 32 v) :: byte)) OR
       push_bit 24 (ucast (ucast (drop_bit 24 v) :: byte)) OR push_bit 16 (ucast (ucast (drop_bit 16 v) :: byte)) OR
       push_bit 8 (ucast (ucast (drop_bit 8 v) :: byte)) OR ucast (ucast v :: byte) = v"
  using of_le64_le64 [of v "[]"] by (simp add: le64_def ac_simps)

lemma msgpack_read_int32: "msgpack_read_int (int32_encoding v @ rest) = Some (length (int32_encoding v), scast v)"
proof -
  define i where "i = sint v"
  have sc: "(scast v :: u64) = word_of_int i" by (simp add: i_def)
  consider "0 \<le> i" "i \<le> 127" | "-32 \<le> i" "i < 0" | "-128 \<le> i" "i < -32"
    | "-32768 \<le> i" "i \<le> 32767" "i < -128 \<or> 127 < i" | "i < -32768 \<or> 32767 < i"
    by linarith
  then show ?thesis
  proof cases
    case 1
    then show ?thesis unfolding sc
      by (simp add: int32_encoding_def i_def [symmetric] msgpack_read_int_def narrow_cast int_range)
  next
    case 2
    then show ?thesis unfolding sc
      by (simp add: int32_encoding_def i_def [symmetric] msgpack_read_int_def narrow_cast int_range del: not_le)
  next
    case 3
    then show ?thesis unfolding sc
      by (simp add: int32_encoding_def i_def [symmetric] msgpack_read_int_def narrow_cast int_range proto_consts)
  next
    case 4
    then have "int32_encoding v = MSGPACK_INT16 # drop 2 (be32 v)"
      by (auto simp: int32_encoding_def i_def [symmetric])
    moreover have "(scast (ucast v :: 16 word) :: u64) = word_of_int i"
      using 4(1,2) by (simp only: narrow_cast(2) i_def [symmetric] int_range)
    ultimately show ?thesis unfolding sc
      by (simp add: msgpack_read_int_def proto_consts be32_def be_bytes)
  next
    case 5
    then have "int32_encoding v = MSGPACK_INT32 # be32 v"
      by (auto simp: int32_encoding_def i_def [symmetric])
    then show ?thesis
      by (simp add: msgpack_read_int_def proto_consts be32_def be_bytes)
  qed
qed

lemma msgpack_read_int64: "msgpack_read_int (0xd3 # be64 v @ rest) = Some (9, v)"
  by (simp add: msgpack_read_int_def proto_consts be64_def le64_bytes)

lemma read_bin_header_at:
  "read_bin_header (pre @ bin_header len @ rest) (length pre) = Some (len, length pre + length (bin_header len))"
proof -
  consider "unat len < 256" | "256 \<le> unat len" "unat len < 65536" | "65536 \<le> unat len" by linarith
  then show ?thesis
    by cases (simp_all add: bin_header_def read_bin_header_def proto_consts be32_def be_bytes nth_append)
qed

lemma ucast_scast: "(ucast (scast (v :: u32) :: u64) :: u32) = v"
  by (rule bit_word_eqI) (auto simp: bit_simps)

lemma msgpack_decode_block_encoding:
  assumes "length data < 2 ^ 32"
  shows "\<exists>pos. msgpack_decode_block (block_encoding devno off data) d0 o0 =
      (devno, off, Some (pos, of_nat (length data))) \<and>
    pos \<noteq> 0 \<and> drop pos (block_encoding devno off data) = data"
proof -
  define E where "E = int32_encoding devno"
  define H where "H = bin_header (of_nat (length data))"
  define buf where "buf = block_encoding devno off data"
  define n where "n = length E"
  have buf: "buf = [0x93, 0] @ E @ [1, 0xd3] @ be64 off @ [2] @ H @ data"
    by (simp add: buf_def block_encoding_def E_def H_def)
  have r1: "msgpack_read_int (drop 2 buf) = Some (n, scast devno)"
    by (simp add: buf E_def n_def msgpack_read_int32)
  have k1: "buf ! (2 + n) = 1" by (simp add: buf n_def nth_append)
  have r2: "msgpack_read_int (drop (2 + n + 1) buf) = Some (9, off)"
    using msgpack_read_int64 [of off "[2] @ H @ data"] by (simp add: buf n_def)
  have k2: "buf ! (2 + n + 1 + 9) = 2" by (simp add: buf n_def nth_append)
  have r3: "read_bin_header buf (2 + n + 1 + 9 + 1) =
      Some (of_nat (length data), 2 + n + 1 + 9 + 1 + length H)"
    using read_bin_header_at [of "[0x93, 0] @ E @ [1, 0xd3] @ be64 off @ [2]" "of_nat (length data)" data]
    by (simp add: buf n_def H_def)
  have len: "length buf = 2 + n + 1 + 9 + 1 + length H + length data" by (simp add: buf n_def)
  have small: "unat (of_nat (length data) :: u32) = length data"
    using assms by (simp add: unat_of_nat)
  have z: "buf ! 0 = 0x93" "buf ! Suc 0 = 0" by (simp_all add: buf)
  have "msgpack_decode_block buf d0 o0 =
      (devno, off, Some (2 + n + 1 + 9 + 1 + length H, of_nat (length data)))"
    using r1 k1 r2 k2 r3 len small z
    by (simp add: msgpack_decode_block_def proto_consts ucast_scast)
  moreover have "drop (2 + n + 1 + 9 + 1 + length H) buf = data"
  proof -
    define pre where "pre = [0x93, 0] @ E @ [1, 0xd3] @ be64 off @ [2] @ H"
    have "buf = pre @ data" "2 + n + 1 + 9 + 1 + length H = length pre"
      by (simp_all add: buf pre_def n_def)
    then show ?thesis by (metis append_eq_conv_conj)
  qed
  ultimately show ?thesis
    by (intro exI [of _ "2 + n + 1 + 9 + 1 + length H"]) (simp add: buf_def)
qed

lemma decode_data_frame_block:
  assumes "zstd_contract zc zsize zd" "zc level (block_encoding devno off data) cap = Some c"
    and "length data \<le> BLOCK_SIZE_MAX"
  shows "\<exists>out'. decode_data_frame zsize zd c out = (True, out') \<and> msg_of out' = Block devno off data"
proof -
  define msg where "msg = block_encoding devno off data"
  have z: "c \<noteq> []" "zsize c = ContentSize (length msg)" "zd c (length msg) = Some msg"
    using assms(1,2) by (auto simp: zstd_contract_def msg_def)
  have small: "unat (of_nat (length data) :: u32) = length data"
    using assms(3) by (simp add: unat_of_nat proto_consts)
  have len: "length msg \<le> BLOCK_SIZE_MAX + 4096"
    using length_block_encoding [of devno off data] assms(3) by (simp add: msg_def)
  define out1 where "out1 = out\<lparr>m_data := memwrite 0 msg (m_data out)\<rparr>"
  obtain pos where pos: "msgpack_decode_block msg (m_devno out1) (m_offset out1) =
      (devno, off, Some (pos, of_nat (length data)))" "pos \<noteq> 0" "drop pos msg = data"
    using msgpack_decode_block_encoding [of data devno off "m_devno out1" "m_offset out1"] assms(3)
    by (auto simp: msg_def proto_consts)
  have "take (length data) (drop pos (m_data out1)) = data"
    using pos(3) by (cases "pos \<le> length msg") (auto simp: out1_def memwrite_def)
  then have "decode_data_frame zsize zd c out = (True, out1\<lparr>m_devno := devno, m_offset := off,
      m_data := memwrite 0 data (m_data out1), m_data_len := of_nat (length data),
      m_type := DECODE_DATA_BLOCK\<rparr>)"
    using z len pos small by (simp add: decode_data_frame_def Let_def out1_def)
  then show ?thesis using small by (simp add: msg_of_def memwrite_def)
qed

lemma decode_frame_sent:
  assumes "zstd_contract zc zsize zd" "sent_as zc m f"
  shows "\<exists>payload. f = frame payload \<and> length payload \<le> 0x130000 \<and>
    (\<forall>out. \<exists>out'. decode_frame zsize zd payload out = (True, out') \<and> msg_of out' = m)"
proof (cases m)
  case (Block devno off data)
  let ?msg = "block_encoding devno off data"
  obtain level c where c: "zc level ?msg (ZSTD_COMPRESS_BOUND (of_nat (length ?msg))) = Some c"
      "f = data_frame c" and len: "length data \<le> BLOCK_SIZE_MAX"
    using assms(2) Block by (auto simp: sent_as_def Let_def)
  have "length c \<le> unat (ZSTD_COMPRESS_BOUND (of_nat (length ?msg)))"
    using assms(1) c(1) by (auto simp: zstd_contract_def)
  also have "\<dots> \<le> 0x130000 - 3"
  proof -
    have "length ?msg \<le> 0x100000 + 23" using length_block_encoding [of devno off data] len by (simp add: proto_consts)
    then show ?thesis by (simp add: unat_ZSTD_COMPRESS_BOUND)
  qed
  finally have "length (FRAME_MAGIC @ c) \<le> 0x130000" by (simp add: proto_consts)
  moreover have "decode_frame zsize zd (FRAME_MAGIC @ c) out = decode_data_frame zsize zd c out" for out
    by (simp add: decode_frame_def proto_consts)
  ultimately show ?thesis
    using c(2) decode_data_frame_block [OF assms(1) c(1) len] Block by (auto simp: data_frame_def)
next
  case CtlIncremental
  then have "f = frame (take CTL_INCREMENTAL_LEN CTL_INCREMENTAL)" using assms(2) by (simp add: sent_as_def)
  moreover have "decode_frame zsize zd (take CTL_INCREMENTAL_LEN CTL_INCREMENTAL) out =
      (True, out\<lparr>m_type := DECODE_CTL_INCREMENTAL\<rparr>)" for out
  proof -
    define p where "p = take CTL_INCREMENTAL_LEN CTL_INCREMENTAL"
    have "take FRAME_MAGIC_LEN p \<noteq> FRAME_MAGIC" "length p = CTL_INCREMENTAL_LEN"
      unfolding p_def by code_simp+
    then show ?thesis by (simp add: decode_frame_def decode_ctl_frame_def p_def [symmetric])
  qed
  ultimately show ?thesis using CtlIncremental CTL_lengths by (auto simp: msg_of_def proto_consts)
next
  case CtlEndIncremental
  then have "f = frame (take CTL_END_INCREMENTAL_LEN CTL_END_INCREMENTAL)" using assms(2) by (simp add: sent_as_def)
  moreover have "decode_frame zsize zd (take CTL_END_INCREMENTAL_LEN CTL_END_INCREMENTAL) out =
      (True, out\<lparr>m_type := DECODE_CTL_END_INCREMENTAL\<rparr>)" for out
  proof -
    define p where "p = take CTL_END_INCREMENTAL_LEN CTL_END_INCREMENTAL"
    have "take FRAME_MAGIC_LEN p \<noteq> FRAME_MAGIC" "length p = CTL_END_INCREMENTAL_LEN"
      "CTL_END_INCREMENTAL_LEN \<noteq> CTL_INCREMENTAL_LEN"
      unfolding p_def by code_simp+
    then show ?thesis by (simp add: decode_frame_def decode_ctl_frame_def p_def [symmetric])
  qed
  ultimately show ?thesis using CtlEndIncremental CTL_lengths by (auto simp: msg_of_def proto_consts)
next
  case Unknown
  then show ?thesis using assms(2) by (simp add: sent_as_def)
qed
section \<open>The buffer machine refines the stream\<close>

lemma recv_append_ok:
  assumes "session_ok s"
  shows "recv_append s buf = (if s_recv_len s + length buf > RECV_BUF_SIZE then None else
     Some (s\<lparr>s_recv_buf := memwrite (s_recv_len s) buf (s_recv_buf s),
             s_recv_len := s_recv_len s + length buf\<rparr>))"
  using assms by (auto simp: recv_append_def session_ok_def memwrite_def)

lemma recv_append_pending:
  assumes "session_ok s" "recv_append s buf = Some s'"
  shows "session_ok s' \<and> pending s' = pending s @ buf \<and> s_recv_len s' = s_recv_len s + length buf"
  using assms
  by (auto simp: recv_append_ok pending_def session_ok_def take_memwrite length_memwrite_max split: if_splits)

lemma recv_consume_pending:
  assumes "session_ok s" "n \<le> s_recv_len s"
  shows "session_ok (recv_consume s n)" "pending (recv_consume s n) = drop n (pending s)"
proof -
  have l: "length (take (s_recv_len s - n) (drop n (s_recv_buf s))) = s_recv_len s - n"
    using assms by (auto simp: session_ok_def)
  show "session_ok (recv_consume s n)"
    using assms l by (auto simp: recv_consume_def session_ok_def Let_def length_memwrite_max)
  show "pending (recv_consume s n) = drop n (pending s)"
    using assms l by (auto simp: recv_consume_def session_ok_def Let_def pending_def memwrite_def drop_take)
qed

text \<open>One call of the decoder is one cut of the accumulated stream.\<close>

lemma protocol_decode_cut:
  assumes "session_ok s" "s_recv_len s + length buf \<le> RECV_BUF_SIZE"
    and "protocol_decode zsize zd s buf out = (rc, s', out')"
  shows "session_ok s' \<and> 
    (case cut_frame (pending s @ buf) of
       NeedMore \<Rightarrow> rc = 0 \<and> pending s' = pending s @ buf \<and> out' = out
     | TooLarge \<Rightarrow> rc = -1 \<and> pending s' = pending s @ buf \<and> out' = out
     | Cut payload rest \<Rightarrow> pending s' = rest \<and>
         decode_frame zsize zd payload out = (rc = 1, out') \<and> (rc = 1 \<or> rc = -1))"
proof -
  obtain s1 where s1: "recv_append s buf = Some s1"
    using assms(1,2) by (simp add: recv_append_ok)
  have p: "session_ok s1" "pending s1 = pending s @ buf"
    using recv_append_pending [OF assms(1) s1] by auto
  have len: "length (pending s1) = s_recv_len s1" using p(1) by (rule length_pending)
  define n where "n = bswap32 (of_le32 (pending s1))"
  have n: "4 \<le> s_recv_len s1 \<Longrightarrow> bswap32 (of_le32 (take 4 (s_recv_buf s1))) = n"
    unfolding n_def pending_def by (simp add: of_le32_take)
  have fd: "take (unat n) (drop 4 (s_recv_buf s1)) = take (unat n) (drop 4 (pending s1))"
    if "4 + unat n \<le> s_recv_len s1"
    using that by (simp add: pending_def drop_take min_def)
  show ?thesis
    using assms(3) p len n fd recv_consume_pending [OF p(1), of "4 + unat n"]
    by (auto simp: protocol_decode_def s1 cut_frame_def n_def [symmetric] Let_def proto_consts
        p(2) [symmetric] not_less split: if_splits prod.splits)
qed

lemma decode_all_parse:
  assumes "session_ok s" "s_recv_len s + length buf \<le> RECV_BUF_SIZE"
    and "decode_all zsize zd s buf out = (rc, ms, s', out')"
  shows "session_ok s' \<and> parse_stream zsize zd (pending s @ buf) out = (rc, ms, pending s', out')"
  using assms
proof (induction zsize zd s buf out arbitrary: rc ms s' out' rule: decode_all.induct)
  case (1 zsize zd s buf out)
  obtain rc1 s1 out1 where d: "protocol_decode zsize zd s buf out = (rc1, s1, out1)"
    by (metis prod_cases3)
  note c = protocol_decode_cut [OF "1.prems"(1,2) d]
  show ?case
  proof (cases "rc1 = 1")
    case True
    obtain rc2 ms2 s2 out2 where r: "decode_all zsize zd s1 [] out1 = (rc2, ms2, s2, out2)"
      by (metis prod_cases4)
    have "s_recv_len s1 \<le> RECV_BUF_SIZE" using c by (simp add: session_ok_def)
    then have ih: "session_ok s2 \<and> parse_stream zsize zd (pending s1) out1 = (rc2, ms2, pending s2, out2)"
      using "1.IH" [OF d [symmetric] refl refl True _ _ r] c by simp
    have "rc = rc2 \<and> ms = msg_of out1 # ms2 \<and> s' = s2 \<and> out' = out2"
      using "1.prems"(3) d r True by (simp add: decode_all.simps [of zsize zd s])
    moreover obtain payload where "cut_frame (pending s @ buf) = Cut payload (pending s1)"
        "decode_frame zsize zd payload out = (True, out1)"
      using c True by (auto split: cut_result.splits)
    ultimately show ?thesis using ih by (simp add: parse_stream.simps [of zsize zd "pending s @ buf"])
  next
    case False
    then have "rc = rc1" "ms = []" "s' = s1" "out' = out1"
      using "1.prems"(3) d by (simp_all add: decode_all.simps [of zsize zd s])
    then show ?thesis
      using c False by (auto simp: parse_stream.simps [of zsize zd "pending s @ buf"] split: cut_result.splits)
  qed
qed

section \<open>Streams of frames\<close>

lemma of_le32_frame: "bswap32 (of_le32 (frame p @ rest)) = of_nat (length p)"
  by (simp add: frame_def of_le32_be32)

lemma unat_frame_len:
  assumes "length p \<le> 0x130000"
  shows "unat (of_nat (length p) :: u32) = length p" "\<not> FRAME_MAX < of_nat (length p)"
  using assms by (simp_all add: unat_of_nat FRAME_MAX_def word_less_nat_alt)

lemma cut_frame_whole:
  assumes "length p \<le> 0x130000"
  shows "cut_frame (frame p @ rest) = Cut p rest"
  using unat_frame_len [OF assms] unfolding cut_frame_def of_le32_frame
  by (simp add: frame_def)

lemma cut_frame_partial:
  assumes "length p \<le> 0x130000" "k < length (frame p)"
  shows "cut_frame (take k (frame p)) = NeedMore"
proof (cases "k < 4")
  case False
  then have "bswap32 (of_le32 (take k (frame p))) = of_nat (length p)"
    using of_le32_frame [of p "[]"] by (simp add: of_le32_take)
  with assms unat_frame_len [OF assms(1)] show ?thesis by (simp add: cut_frame_def)
qed (simp add: cut_frame_def)

lemma parse_stream_frames:
  assumes z: "zstd_contract zc zsize zd"
  shows "\<lbrakk>list_all2 (sent_as zc) ms fs; list_all2 (sent_as zc) ms' fs'; partial_of fs' b\<rbrakk> \<Longrightarrow>
    \<exists>out'. parse_stream zsize zd (concat fs @ b) out = (0, ms, b, out')"
proof (induction ms arbitrary: fs out)
  case Nil
  then have "fs = []" by simp
  have "cut_frame b = NeedMore"
  proof (cases fs')
    case Nil
    then show ?thesis using \<open>partial_of fs' b\<close> by (simp add: partial_of_def cut_frame_def)
  next
    case (Cons f fs'')
    then obtain m where "sent_as zc m f" using \<open>list_all2 (sent_as zc) ms' fs'\<close> by (auto simp: list_all2_Cons2)
    from decode_frame_sent [OF z this] obtain p where p: "f = frame p" "length p \<le> 0x130000" by blast
    have "length b < length f" "b = take (length b) f"
      using \<open>partial_of fs' b\<close> Cons by (auto simp: partial_of_def)
    then show ?thesis using cut_frame_partial [OF p(2), of "length b"] p(1) by simp
  qed
  then show ?case using \<open>fs = []\<close> by (simp add: parse_stream.simps [of zsize zd b])
next
  case (Cons m ms)
  then obtain f fs1 where fs: "fs = f # fs1" "sent_as zc m f" "list_all2 (sent_as zc) ms fs1"
    by (auto simp: list_all2_Cons1)
  from decode_frame_sent [OF z fs(2)] obtain p out1 where
    p: "f = frame p" "length p \<le> 0x130000" "decode_frame zsize zd p out = (True, out1)" "msg_of out1 = m"
    by blast
  from Cons.IH [OF fs(3) Cons.prems(2,3)] obtain out' where
    "parse_stream zsize zd (concat fs1 @ b) out1 = (0, ms, b, out')" by blast
  then show ?case
    using p fs(1) cut_frame_whole [OF p(2), of "concat fs1 @ b"]
    by (simp add: parse_stream.simps [of zsize zd "frame p @ concat fs1 @ b"])
qed

lemma split_at_frame:
  assumes "\<forall>f \<in> set fs. f \<noteq> []" "b @ r = concat fs"
  shows "\<exists>k t. b = concat (take k fs) @ t \<and> partial_of (drop k fs) t \<and> t @ r = concat (drop k fs)"
  using assms
proof (induction fs arbitrary: b)
  case Nil
  then show ?case by (auto simp: partial_of_def)
next
  case (Cons f fs)
  show ?case
  proof (cases "length b < length f")
    case True
    have "take (length b) (b @ r) = take (length b) (f @ concat fs)" using Cons.prems(2) by simp
    then have "b = take (length b) f" using True by simp
    with True Cons.prems(2) show ?thesis
      by (intro exI [of _ 0] exI [of _ b]) (simp add: partial_of_def)
  next
    case False
    define b1 where "b1 = drop (length f) b"
    have "take (length f) (b @ r) = take (length f) (f @ concat fs)" using Cons.prems(2) by simp
    then have b: "b = f @ b1" using False by (simp add: b1_def) (metis append_take_drop_id)
    with Cons.prems have "b1 @ r = concat fs" by simp
    from Cons.IH [OF _ this] Cons.prems(1) obtain k t where
      "b1 = concat (take k fs) @ t" "partial_of (drop k fs) t" "t @ r = concat (drop k fs)" by auto
    with b show ?thesis by (intro exI [of _ "Suc k"] exI [of _ t]) simp
  qed
qed

lemma feed_frames:
  assumes z: "zstd_contract zc zsize zd"
  shows "\<lbrakk>session_ok s; list_all2 (sent_as zc) ms fs; partial_of fs (pending s);
      pending s @ concat chunks = concat fs; \<forall>c \<in> set chunks. length c \<le> 65536\<rbrakk> \<Longrightarrow>
    \<exists>s'. feed zsize zd s chunks out = (0, ms, s') \<and> session_ok s' \<and> pending s' = []"
proof (induction chunks arbitrary: s ms fs out)
  case Nil
  then have fs: "fs = []"
  proof (cases fs)
    case (Cons f fs')
    with Nil.prems(3,4) have "length (pending s) < length f" "length (pending s) = length f + length (concat fs')"
      by (auto simp: partial_of_def)
    then show ?thesis by simp
  qed simp
  then show ?case using Nil.prems by (auto simp: list_all2_Nil2)
next
  case (Cons c chunks)
  have frames: "\<exists>p. f = frame p \<and> length p \<le> 0x130000" if "f \<in> set fs" for f
    using that Cons.prems(2) decode_frame_sent [OF z] by (metis list_all2_conv_all_nth in_set_conv_nth)
  then have ne: "\<forall>f \<in> set fs. f \<noteq> []" by (fastforce simp: frame_def be32_def)
  have "(pending s @ c) @ concat chunks = concat fs" using Cons.prems(4) by simp
  from split_at_frame [OF ne this] obtain k t where
    k: "pending s @ c = concat (take k fs) @ t" "partial_of (drop k fs) t" "t @ concat chunks = concat (drop k fs)"
    by blast
  have room: "s_recv_len s + length c \<le> RECV_BUF_SIZE"
  proof -
    have "length (pending s) \<le> 0x130004"
      using Cons.prems(3) frames by (cases fs) (fastforce simp: partial_of_def)+
    then show ?thesis using Cons.prems(1,5) by (simp add: length_pending RECV_BUF_SIZE_def)
  qed
  have l: "list_all2 (sent_as zc) (take k ms) (take k fs)" "list_all2 (sent_as zc) (drop k ms) (drop k fs)"
    using Cons.prems(2) by auto
  obtain rc ms1 s1 out1 where d: "decode_all zsize zd s c out = (rc, ms1, s1, out1)" by (metis prod_cases4)
  from decode_all_parse [OF Cons.prems(1) room d] parse_stream_frames [OF z l k(2), of out]
  have s1: "session_ok s1" "rc = 0" "ms1 = take k ms" "pending s1 = t" by (auto simp: k(1))
  from Cons.IH [OF s1(1) l(2), of out1] k(2,3) s1(4) Cons.prems(5)
  obtain s' where "feed zsize zd s1 chunks out1 = (0, drop k ms, s')" "session_ok s'" "pending s' = []" by auto
  then show ?case using d s1 by simp
qed


section \<open>Frames that can never be completed\<close>

lemma cut_frame_stuck:
  assumes "4 \<le> length b" "n = bswap32 (of_le32 b)" "RECV_BUF_SIZE < 4 + unat n" "n \<le> FRAME_MAX"
    and "length (b @ c) \<le> RECV_BUF_SIZE"
  shows "cut_frame (b @ c) = NeedMore"
proof -
  have "of_le32 (b @ c) = of_le32 b"
    using assms(1) of_le32_take [of "length b" "b @ c"] by simp
  with assms show ?thesis by (auto simp: cut_frame_def Let_def)
qed

lemma decode_all_stuck:
  assumes "session_ok s" "4 \<le> length (pending s)" "n = bswap32 (of_le32 (pending s))"
    and "RECV_BUF_SIZE < 4 + unat n" "n \<le> FRAME_MAX"
    and "decode_all zsize zd s c out = (rc, ms, s', out')"
  shows "ms = [] \<and> (rc = 0 \<and> session_ok s' \<and> pending s' = pending s @ c \<or> rc = -1)"
proof (cases "s_recv_len s + length c \<le> RECV_BUF_SIZE")
  case True
  then have "length (pending s @ c) \<le> RECV_BUF_SIZE" by (simp add: length_pending [OF assms(1)])
  from cut_frame_stuck [OF assms(2-5) this] decode_all_parse [OF assms(1) True assms(6)] show ?thesis
    by (simp add: parse_stream.simps [of zsize zd "pending s @ c"])
next
  case False
  then have "protocol_decode zsize zd s c out = (-1, s, out)"
    using recv_append_ok [OF assms(1), of c] by (simp add: protocol_decode_def)
  then show ?thesis using assms(6) by (simp add: decode_all.simps [of zsize zd s])
qed

text \<open>
  C5: the message stream arrives unchanged through every layer.  Take any messages (blocks of at
  most 1 MB, control messages), the bytes the client sends for them, and any way TCP cuts these
  bytes into pieces of at most 64 KB: the receiver, starting with an empty buffer, reports no
  error, decodes exactly these messages in this order, and ends with an empty buffer.
\<close>
theorem stream_delivery:
  assumes "zstd_contract zc zsize zd" "session_ok s" "pending s = []"
    and "list_all2 (sent_as zc) ms fs" "concat chunks = concat fs" "\<forall>c \<in> set chunks. length c \<le> 65536"
  shows "\<exists>s'. feed zsize zd s chunks out = (0, ms, s') \<and> session_ok s' \<and> pending s' = []"
proof -
  have "partial_of fs []"
  proof (cases fs)
    case (Cons f fs')
    then obtain m where "sent_as zc m f" using assms(4) by (auto simp: list_all2_Cons2)
    from decode_frame_sent [OF assms(1) this] Cons show ?thesis
      by (auto simp: partial_of_def frame_def be32_def)
  qed (simp add: partial_of_def)
  with assms show ?thesis by (intro feed_frames) simp_all
qed

theorem stream_delivery_witness:
  "fst (snd (feed (\<lambda>c. ContentSize (length c - 1)) (\<lambda>c n. Some (tl c)) (new_session 0 5 ''peer'')
     [[0, 0, 0], [15, 0x63, 0x74, 0x6c, 0x49, 0x6e, 0x63, 0x72, 0x65, 0x6d, 0x65, 0x6e, 0x74, 0x61, 0x6c, 0,
       0, 0], [0, 20, 0x61, 0x62, 0x63, 0, 0x93, 0, 1, 1, 0xd3, 0, 0, 0, 0, 0], [0, 0, 0, 2, 0xc4, 0]]
     calloc_msg))
   = [CtlIncremental, Block 1 0 []]"
proof -
  define zc :: "int \<Rightarrow> bytes \<Rightarrow> u64 \<Rightarrow> bytes option" where
    "zc = (\<lambda>level m cap. if length m + 1 \<le> unat cap then Some (0 # m) else None)"
  have z: "zstd_contract zc (\<lambda>c. ContentSize (length c - 1)) (\<lambda>c n. Some (tl c))"
    by (auto simp: zstd_contract_def zc_def)
  have enc: "block_encoding 1 0 [] = [0x93, 0, 1, 1, 0xd3, 0, 0, 0, 0, 0, 0, 0, 0, 2, 0xc4, 0]"
    by code_simp
  have "zc 3 (block_encoding 1 0 []) (ZSTD_COMPRESS_BOUND (of_nat (length (block_encoding 1 0 [])))) =
      Some (0 # block_encoding 1 0 [])"
    unfolding zc_def by code_simp
  then have b: "sent_as zc (Block 1 0 []) (data_frame (0 # block_encoding 1 0 []))"
    by (auto simp: sent_as_def Let_def)
  have i: "sent_as zc CtlIncremental (frame (take CTL_INCREMENTAL_LEN CTL_INCREMENTAL))"
    by (simp add: sent_as_def)
  have bytes: "concat [[0, 0, 0], [15, 0x63, 0x74, 0x6c, 0x49, 0x6e, 0x63, 0x72, 0x65, 0x6d, 0x65, 0x6e, 0x74, 0x61, 0x6c, 0,
       0, 0], [0, 20, 0x61, 0x62, 0x63, 0, 0x93, 0, 1, 1, 0xd3, 0, 0, 0, 0, 0], [0, 0, 0, 2, 0xc4, 0]] =
      concat [frame (take CTL_INCREMENTAL_LEN CTL_INCREMENTAL), data_frame (0 # block_encoding 1 0 [])]"
    by code_simp
  have s: "session_ok (new_session 0 5 ''peer'')" "pending (new_session 0 5 ''peer'') = []"
    by (simp_all add: session_ok_def new_session_def pending_def)
  have l: "list_all2 (sent_as zc) [CtlIncremental, Block 1 0 []]
      [frame (take CTL_INCREMENTAL_LEN CTL_INCREMENTAL), data_frame (0 # block_encoding 1 0 [])]"
    using b i by simp
  show ?thesis
    using stream_delivery [OF z s l bytes, of calloc_msg]
    by (elim meta_impE exE conjE) (simp_all only: fst_conv snd_conv, simp)
qed

text \<open>
  A frame header that announces more than the 4 MB receive buffer can hold, but no more than
  the 100 MB the decoder accepts, wedges the connection: whatever arrives afterwards, no
  message is ever decoded on it again, and the decoder stops only by overflowing its buffer.
\<close>
theorem oversized_frame_stalls:
  assumes "session_ok s" "4 \<le> length (pending s)" "n = bswap32 (of_le32 (pending s))"
    and "RECV_BUF_SIZE < 4 + unat n" "n \<le> FRAME_MAX"
  shows "\<exists>rc s'. feed zsize zd s chunks out = (rc, [], s') \<and> (rc = 0 \<or> rc = -1) \<and>
    (RECV_BUF_SIZE < length (pending s) + length (concat chunks) \<longrightarrow> rc = -1)"
  using assms
proof (induction chunks arbitrary: s out)
  case Nil
  then show ?case by (auto simp: length_pending session_ok_def)
next
  case (Cons c chunks)
  obtain rc ms s1 out1 where d: "decode_all zsize zd s c out = (rc, ms, s1, out1)" by (metis prod_cases4)
  from decode_all_stuck [OF Cons.prems d] consider "ms = []" "rc = -1"
    | "ms = []" "rc = 0" "session_ok s1" "pending s1 = pending s @ c" by auto
  then show ?case
  proof cases
    case 1
    then show ?thesis using d by simp
  next
    case 2
    have "of_le32 (pending s1) = of_le32 (pending s)"
      using 2 Cons.prems(2) of_le32_take [of "length (pending s)" "pending s @ c"] by simp
    with 2 Cons.prems Cons.IH [of s1 out1] d show ?thesis by (auto simp: add.assoc)
  qed
qed

theorem oversized_frame_stalls_witness:
  "\<exists>rc s'. feed (\<lambda>c. CONTENTSIZE_ERROR) (\<lambda>c n. None)
      ((new_session 0 5 ''peer'')\<lparr>s_recv_buf := [0, 0x50, 0, 0], s_recv_len := 4\<rparr>) [[1, 2], [3]] calloc_msg
    = (rc, [], s')"
proof -
  have "bswap32 (of_le32 [0, 0x50, 0, 0]) = 0x500000" by code_simp
  then show ?thesis
    using oversized_frame_stalls [of "(new_session 0 5 ''peer'')\<lparr>s_recv_buf := [0, 0x50, 0, 0], s_recv_len := 4\<rparr>"
      "0x500000" "\<lambda>c. CONTENTSIZE_ERROR" "\<lambda>c n. None" "[[1, 2], [3]]" calloc_msg]
    by (auto simp: session_ok_def pending_def new_session_def RECV_BUF_SIZE_def FRAME_MAX_def)
qed

text \<open>
  C8: one call of the decoder on any buffer state does one of exactly four things.  New data
  that does not fit the 4 MB buffer is refused with -1 and changes nothing.  Otherwise the data
  is appended; with no complete frame the call returns 0 and keeps everything; with an
  announced length over 100 MB it returns -1; with a complete frame it consumes exactly that
  frame, also when decoding it fails, and returns 1 or -1 as the frame decodes or not.  The
  buffer invariant is kept in all cases.
\<close>
theorem protocol_decode_step:
  assumes "session_ok s" "protocol_decode zsize zd s buf out = (rc, s', out')"
  shows "session_ok s' \<and>
    (if RECV_BUF_SIZE < s_recv_len s + length buf then rc = -1 \<and> s' = s \<and> out' = out
     else case cut_frame (pending s @ buf) of
       NeedMore \<Rightarrow> rc = 0 \<and> pending s' = pending s @ buf \<and> out' = out
     | TooLarge \<Rightarrow> rc = -1 \<and> pending s' = pending s @ buf \<and> out' = out
     | Cut payload rest \<Rightarrow> pending s' = rest \<and>
         decode_frame zsize zd payload out = (rc = 1, out') \<and> (rc = 1 \<or> rc = -1))"
proof (cases "RECV_BUF_SIZE < s_recv_len s + length buf")
  case True
  then show ?thesis using assms recv_append_ok [OF assms(1), of buf] by (simp add: protocol_decode_def)
next
  case False
  then show ?thesis using protocol_decode_cut [OF assms(1) _ assms(2)] by simp
qed

theorem protocol_decode_step_witness:
  "\<exists>s' out'. protocol_decode (\<lambda>c. CONTENTSIZE_ERROR) (\<lambda>c n. None) (new_session 0 5 ''peer'')
      [0, 0, 0, 2, 0x78, 0x79, 0] calloc_msg = (-1, s', out') \<and> session_ok s' \<and> pending s' = [0]"
proof -
  obtain rc s' out' where d: "protocol_decode (\<lambda>c. CONTENTSIZE_ERROR) (\<lambda>c n. None) (new_session 0 5 ''peer'')
      [0, 0, 0, 2, 0x78, 0x79, 0] calloc_msg = (rc, s', out')" by (metis prod_cases3)
  have "session_ok (new_session 0 5 ''peer'')" "pending (new_session 0 5 ''peer'') = []"
    "s_recv_len (new_session 0 5 ''peer'') = 0"
    by (simp_all add: session_ok_def pending_def new_session_def)
  moreover have "cut_frame [0, 0, 0, 2, 0x78, 0x79, 0] = Cut [0x78, 0x79] [0]" by code_simp
  moreover have "decode_frame (\<lambda>c. CONTENTSIZE_ERROR) (\<lambda>c n. None) [0x78, 0x79] calloc_msg = (False, calloc_msg)"
    by (simp add: decode_frame_def decode_ctl_frame_def proto_consts)
  ultimately show ?thesis
    using protocol_decode_step [OF _ d] d by (auto simp: RECV_BUF_SIZE_def)
qed

end
