(* ===== verification/Ack.thy ===== *)
theory Ack
  imports Wire
begin

text \<open>
  The receiver's responses, \<^verbatim>\<open>server/ack.c\<close>: each is sent as the 20 raw bytes of
  \<open>server_response_t\<close>.  The socket is that of \<open>Wire\<close>; unlike the client's \<open>send_all\<close>, the loop here
  retries after \<open>EINTR\<close>, gives up on \<open>EAGAIN\<close> and goes on after a \<open>send\<close> that accepts nothing.
\<close>

fun send_response_loop :: "send_outcome list \<Rightarrow> bytes \<Rightarrow> bytes \<Rightarrow> nat \<Rightarrow> (int \<times> sock) option" where
  "send_response_loop script out data sent =
     (if sent < length data then
        (case script of
           [] \<Rightarrow> None
         | Interrupted # s \<Rightarrow> send_response_loop s out data sent
         | WouldBlock # s \<Rightarrow> Some (-1, \<lparr>sk_out = out, sk_script = s\<rparr>)
         | Fails # s \<Rightarrow> Some (-1, \<lparr>sk_out = out, sk_script = s\<rparr>)
         | Accepts k # s \<Rightarrow>
             (let n = min k (length data - sent) in
              send_response_loop s (out @ take n (drop sent data)) data (sent + n)))
      else Some (0, \<lparr>sk_out = out, sk_script = script\<rparr>))"

declare send_response_loop.simps [simp del]

definition send_response :: "sock \<Rightarrow> server_response_t \<Rightarrow> (int \<times> sock) option" where
  "send_response fd resp = send_response_loop (sk_script fd) (sk_out fd) (response_bytes resp) 0"

definition ack_send_block :: "sock \<Rightarrow> u32 \<Rightarrow> u32 \<Rightarrow> u64 \<Rightarrow> (int \<times> sock) option" where
  "ack_send_block fd devno sz off =
     send_response fd \<lparr>r_type = RESPONSE_ACK, r_devno = devno, r_size = sz, r_offset = off\<rparr>"

definition ack_send_done :: "sock \<Rightarrow> (int \<times> sock) option" where
  "ack_send_done fd =
     send_response fd \<lparr>r_type = RESPONSE_SERVER_DONE, r_devno = 0, r_size = 0, r_offset = 0\<rparr>"

definition ack_send_binlog :: "sock \<Rightarrow> u32 \<Rightarrow> u32 \<Rightarrow> u64 \<Rightarrow> (int \<times> sock) option" where
  "ack_send_binlog fd devno sz off =
     send_response fd \<lparr>r_type = RESPONSE_BINLOG, r_devno = devno, r_size = sz, r_offset = off\<rparr>"

section \<open>What reaches the client\<close>

lemma send_response_loop_done [simp]:
  "length data \<le> sent \<Longrightarrow> send_response_loop script out data sent = Some (0, \<lparr>sk_out = out, sk_script = script\<rparr>)"
  by (simp add: send_response_loop.simps [of script])

lemma send_response_loop_step [simp]:
  assumes "sent < length data"
  shows "send_response_loop [] out data sent = None"
    and "send_response_loop (Interrupted # s) out data sent = send_response_loop s out data sent"
    and "send_response_loop (WouldBlock # s) out data sent = Some (-1, \<lparr>sk_out = out, sk_script = s\<rparr>)"
    and "send_response_loop (Fails # s) out data sent = Some (-1, \<lparr>sk_out = out, sk_script = s\<rparr>)"
    and "send_response_loop (Accepts k # s) out data sent =
      send_response_loop s (out @ take k (drop sent data)) data (sent + length (take k (drop sent data)))"
  using assms
  by (simp_all add: send_response_loop.simps [of "[]"] send_response_loop.simps [of "Interrupted # s"]
      send_response_loop.simps [of "WouldBlock # s"] send_response_loop.simps [of "Fails # s"]
      send_response_loop.simps [of "Accepts k # s"] Let_def min_def)

lemma send_response_loop_result:
  assumes "send_response_loop script out data sent = Some (rc, fd)" "sent \<le> length data"
  shows "rc = 0 \<and> sk_out fd = out @ drop sent data \<or>
    rc = -1 \<and> (\<exists>n < length data - sent. sk_out fd = out @ take n (drop sent data))"
  using assms
proof (induction script arbitrary: out sent)
  case Nil
  then show ?case by (cases "sent < length data") auto
next
  case (Cons x s)
  show ?case
  proof (cases "sent < length data")
    case False
    with Cons.prems show ?thesis by auto
  next
    case True
    show ?thesis
    proof (cases x)
      case (Accepts k)
      let ?bs = "take k (drop sent data)"
      have a: "send_response_loop s (out @ ?bs) data (sent + length ?bs) = Some (rc, fd)"
        using Cons.prems True Accepts by simp
      have b: "sent + length ?bs \<le> length data" using True by simp
      have app: "?bs @ drop (sent + length ?bs) data = drop sent data"
        "?bs @ take m (drop (sent + length ?bs) data) = take (length ?bs + m) (drop sent data)" for m
        by (simp_all only: take_add take_length_take drop_drop add.commute [of sent])
          (metis append_take_drop_id drop_drop take_length_take)
      from Cons.IH [OF a b] consider "rc = 0" "sk_out fd = out @ drop sent data"
        | m where "rc = -1" "m < length data - (sent + length ?bs)"
          "sk_out fd = out @ take (length ?bs + m) (drop sent data)"
        by (auto simp only: append_assoc app)
      then show ?thesis
      proof cases
        case 2
        then have "length ?bs + m < length data - sent" using b by linarith
        with 2 show ?thesis by blast
      qed simp
    qed (use Cons.prems True Cons.IH in \<open>auto intro: exI [of _ 0]\<close>)
  qed
qed

lemma send_response_result:
  assumes "send_response fd r = Some (rc, fd')"
  shows "rc = 0 \<and> sk_out fd' = sk_out fd @ response_bytes r \<or>
    rc = -1 \<and> (\<exists>n < SERVER_RESPONSE_SIZE. sk_out fd' = sk_out fd @ take n (response_bytes r))"
  using send_response_loop_result [of "sk_script fd" "sk_out fd" "response_bytes r" 0 rc fd'] assms
  by (auto simp: send_response_def resp.enc_width)

lemma send_response_at_once:
  assumes "sk_script fd = Accepts k # s" "SERVER_RESPONSE_SIZE \<le> k"
  shows "send_response fd r = Some (0, \<lparr>sk_out = sk_out fd @ response_bytes r, sk_script = s\<rparr>)"
proof -
  have "length (response_bytes r) = SERVER_RESPONSE_SIZE" by (rule resp.enc_width)
  with assms resp.width_pos show ?thesis by (simp add: send_response_def)
qed

end
