(* ===== verification/Receiver.thy ===== *)
theory Receiver
  imports Decoder Block_Writer Ack
begin

text \<open>
  The receiver program, \<^verbatim>\<open>server/main.c\<close>: handling the data that arrives on a connection
  (\<open>handle_session\<close>), the callbacks of the session table and the select loop (\<open>server_run\<close>).

  \<^item> The process state \<open>receiver\<close> holds the session table, the disk writer, and for every
    descriptor its socket and the data it will deliver; \<open>rv_closed\<close> lists the descriptors closed.
  \<^item> The environment of a run (\<open>zsize\<close>, \<open>zd\<close> for zstd, \<open>env\<close> for the disks, the time) is passed as
    arguments; the outcome of \<open>calloc\<close> is an argument of the operation that calls it.
  \<^item> A result \<open>None\<close> means that the scripts of the environment end before the call returns.
\<close>

section \<open>One decoded message\<close>

definition handle_msg ::
  "disk_env \<Rightarrow> int \<Rightarrow> decoded_msg_t \<Rightarrow> session_t \<Rightarrow> block_writer \<Rightarrow> sock \<Rightarrow> (session_t \<times> block_writer \<times> sock) option"
where
  "handle_msg env now msg s w sk =
     (let s = session_touch now s in
      case m_type msg of
        DECODE_DATA_BLOCK \<Rightarrow>
          (case block_writer_write env (m_devno msg) (m_offset msg) (m_data msg) (m_data_len msg) w of
             None \<Rightarrow> None
           | Some (rc, w) \<Rightarrow>
               if rc = 0 then
                 let s = s\<lparr>s_blocks_received := s_blocks_received s + 1,
                           s_bytes_received := s_bytes_received s + ucast (m_data_len msg)\<rparr> in
                 (case ack_send_block sk (m_devno msg) (m_data_len msg) (m_offset msg) of
                    None \<Rightarrow> None
                  | Some (_, sk) \<Rightarrow>
                      (case block_writer_pending_bytes w of (pend, w) \<Rightarrow>
                         if pend \<ge> BINLOG_SIZE_LIMIT then
                           (case ack_send_binlog sk (m_devno msg) (m_data_len msg) (m_offset msg) of
                              None \<Rightarrow> None
                            | Some (_, sk) \<Rightarrow> Some (s, w, sk))
                         else Some (s, w, sk)))
               else Some (s, w, sk))
      | DECODE_CTL_INCREMENTAL \<Rightarrow> Some (s\<lparr>s_incremental := 1\<rparr>, w, sk)
      | DECODE_CTL_END_INCREMENTAL \<Rightarrow>
          let w = snd (block_writer_fsync_all env w) in
          (case ack_send_done sk of None \<Rightarrow> None | Some (_, sk) \<Rightarrow> Some (s, w, sk))
      | DECODE_ERROR \<Rightarrow> Some (s, w, sk))"

text \<open>Handling a message does not touch the session's receive buffer.\<close>

lemma handle_msg_buffer:
  "handle_msg env now msg s w sk = Some (s', w', sk') \<Longrightarrow>
    s_recv_buf s' = s_recv_buf s \<and> s_recv_len s' = s_recv_len s \<and> s_fd s' = s_fd s"
  by (auto simp: handle_msg_def session_touch_def Let_def
      split: decode_result_t.splits option.splits if_splits prod.splits)

section \<open>All frames in the buffer\<close>

text \<open>The inner loop: while the last decode returned 1, handle its message and decode again
  without new data.\<close>

function drain_frames ::
  "(bytes \<Rightarrow> content_size) \<Rightarrow> (bytes \<Rightarrow> nat \<Rightarrow> bytes option) \<Rightarrow> disk_env \<Rightarrow> int \<Rightarrow>
   int \<times> session_t \<times> decoded_msg_t \<Rightarrow> block_writer \<Rightarrow> sock \<Rightarrow>
   (int \<times> session_t \<times> decoded_msg_t \<times> block_writer \<times> sock) option" where
  "drain_frames zsize zd env now (rc, s, msg) w sk =
     (if rc = 1 then
        (case handle_msg env now msg s w sk of
           None \<Rightarrow> None
         | Some (s, w, sk) \<Rightarrow> drain_frames zsize zd env now (protocol_decode zsize zd s [] msg) w sk)
      else Some (rc, s, msg, w, sk))"
  by pat_completeness auto
termination
proof (relation "measure (\<lambda>(zsize, zd, env, now, (rc, s, msg), w, sk). (if rc = 1 then 1 else 0) + s_recv_len s)",
    simp, clarsimp, goal_cases)
  case (1 zsize zd env now s msg w sk s' w' sk')
  then have "s_recv_len s' = s_recv_len s" using handle_msg_buffer by blast
  then show ?case
    by (auto simp: protocol_decode_def recv_append_def recv_consume_def Let_def proto_consts
        split: if_splits option.splits prod.splits)
qed

declare drain_frames.simps [simp del]

section \<open>One connection\<close>

definition RECV_CHUNK :: nat where "RECV_CHUNK = 65536"

function session_loop ::
  "(bytes \<Rightarrow> content_size) \<Rightarrow> (bytes \<Rightarrow> nat \<Rightarrow> bytes option) \<Rightarrow> disk_env \<Rightarrow> int \<Rightarrow>
   recv_outcome list \<Rightarrow> session_t \<Rightarrow> decoded_msg_t \<Rightarrow> block_writer \<Rightarrow> sock \<Rightarrow>
   (bool \<times> recv_outcome list \<times> session_t \<times> block_writer \<times> sock) option" where
  "session_loop zsize zd env now rx s msg w sk =
     (case rx of
        [] \<Rightarrow> Some (False, [], s, w, sk)
      | RecvBlocks # rx' \<Rightarrow> Some (False, rx', s, w, sk)
      | RecvError # rx' \<Rightarrow> Some (True, rx', s, w, sk)
      | Avail bs # rx' \<Rightarrow>
          (let n = min RECV_CHUNK (length bs) in
           if n = 0 then Some (True, rx', s, w, sk)
           else
             case drain_frames zsize zd env now (protocol_decode zsize zd s (take n bs) msg) w sk of
               None \<Rightarrow> None
             | Some (rc, s, msg, w, sk) \<Rightarrow>
                 let rx'' = (if n < length bs then Avail (drop n bs) # rx' else rx') in
                 if rc < 0 then Some (True, rx'', s, w, sk)
                 else session_loop zsize zd env now rx'' s msg w sk))"
  by pat_completeness auto
termination
  by (relation "measure (\<lambda>(zsize, zd, env, now, rx, s, msg, w, sk).
        sum_list (map (\<lambda>x. case x of Avail bs \<Rightarrow> Suc (length bs) | _ \<Rightarrow> 1) rx))")
    (auto simp: RECV_CHUNK_def min_def split: if_splits)

declare session_loop.simps [simp del]

record receiver =
  rv_sessions :: session_mgr
  rv_writer :: block_writer
  rv_socks :: "int \<Rightarrow> sock"
  rv_rx :: "int \<Rightarrow> recv_outcome list"
  rv_closed :: "int list"

definition rv_remove :: "int \<Rightarrow> receiver \<Rightarrow> receiver" where
  "rv_remove fd st =
     (case session_remove fd (rv_sessions st) of (closed, g) \<Rightarrow>
        st\<lparr>rv_sessions := g, rv_closed := (case closed of None \<Rightarrow> rv_closed st | Some c \<Rightarrow> c # rv_closed st)\<rparr>)"

definition handle_session ::
  "(bytes \<Rightarrow> content_size) \<Rightarrow> (bytes \<Rightarrow> nat \<Rightarrow> bytes option) \<Rightarrow> disk_env \<Rightarrow> int \<Rightarrow> bool \<Rightarrow> nat \<Rightarrow>
   receiver \<Rightarrow> receiver option" where
  "handle_session zsize zd env now alloc i st =
     (let s = rv_sessions st ! i; fd = s_fd s in
      if \<not> alloc then Some (rv_remove fd st)
      else case session_loop zsize zd env now (rv_rx st fd) s calloc_msg (rv_writer st) (rv_socks st fd) of
        None \<Rightarrow> None
      | Some (removed, rx, s, w, sk) \<Rightarrow>
          let st = st\<lparr>rv_sessions := (rv_sessions st)[i := s], rv_writer := w,
                      rv_socks := (rv_socks st)(fd := sk), rv_rx := (rv_rx st)(fd := rx)\<rparr>
          in Some (if removed then rv_remove fd st else st))"

section \<open>The select loop\<close>

definition find_max_fd_cb :: "nat \<Rightarrow> session_mgr \<times> int \<Rightarrow> (bool \<times> session_mgr \<times> int) option" where
  "find_max_fd_cb i = (\<lambda>(g, max_fd). Some (False, g, if s_fd (g ! i) > max_fd then s_fd (g ! i) else max_fd))"

definition collect_fds_cb :: "nat \<Rightarrow> session_mgr \<times> int set \<Rightarrow> (bool \<times> session_mgr \<times> int set) option" where
  "collect_fds_cb i = (\<lambda>(g, fdset). Some (False, g, insert (s_fd (g ! i)) fdset))"

definition handle_active_cb ::
  "(bytes \<Rightarrow> content_size) \<Rightarrow> (bytes \<Rightarrow> nat \<Rightarrow> bytes option) \<Rightarrow> disk_env \<Rightarrow> int \<Rightarrow> bool \<Rightarrow> int list \<Rightarrow>
   nat \<Rightarrow> receiver \<Rightarrow> (bool \<times> receiver) option" where
  "handle_active_cb zsize zd env now alloc ready i st =
     (if s_fd (rv_sessions st ! i) \<in> set ready
      then map_option (Pair False) (handle_session zsize zd env now alloc i st)
      else Some (False, st))"

text \<open>What \<open>select\<close> is given: the descriptors to watch and the largest of them plus one.\<close>

definition select_args :: "int \<Rightarrow> session_mgr \<Rightarrow> (int set \<times> int) option" where
  "select_args listen_fd g =
     (case session_foreach fst collect_fds_cb 0 (g, {listen_fd}) of
        None \<Rightarrow> None
      | Some (g, readfds) \<Rightarrow>
          (case session_foreach fst find_max_fd_cb 0 (g, listen_fd) of
             None \<Rightarrow> None
           | Some (_, max_fd) \<Rightarrow> Some (readfds, max_fd + 1)))"

text \<open>A signal, or one return of \<open>select\<close>: interrupted, failed, or with the outcome of \<open>accept\<close> when
  the listening socket is ready (\<open>None\<close> inside for a failed \<open>accept\<close>) and the ready sessions.\<close>

datatype server_event = Signal int | SelectEintr | SelectError
  | SelectReady "(int \<times> string) option option" "int list"

definition signal_handler :: "int \<Rightarrow> bool \<Rightarrow> bool" where
  "signal_handler sig running = (if sig = 2 \<or> sig = 15 then False else running)"

definition accept_conn :: "int \<Rightarrow> int \<Rightarrow> bool \<Rightarrow> (int \<times> string) option option \<Rightarrow> receiver \<Rightarrow> receiver" where
  "accept_conn max_connections now alloc acc st =
     (case acc of
        Some (Some (client_fd, ip)) \<Rightarrow>
          if int (session_count (rv_sessions st)) \<ge> max_connections
          then st\<lparr>rv_closed := client_fd # rv_closed st\<rparr>
          else (case session_create alloc now client_fd ip (rv_sessions st) of
                  (None, g) \<Rightarrow> st\<lparr>rv_sessions := g, rv_closed := client_fd # rv_closed st\<rparr>
                | (Some s, g) \<Rightarrow> st\<lparr>rv_sessions := g\<rparr>)
      | _ \<Rightarrow> st)"

fun server_run ::
  "(bytes \<Rightarrow> content_size) \<Rightarrow> (bytes \<Rightarrow> nat \<Rightarrow> bytes option) \<Rightarrow> disk_env \<Rightarrow> int \<Rightarrow> int \<Rightarrow> bool \<Rightarrow>
   server_event list \<Rightarrow> bool \<Rightarrow> receiver \<Rightarrow> (int \<times> receiver) option" where
  "server_run zsize zd env max_connections now alloc evs running st =
     (if \<not> running then Some (0, st)
      else case evs of
        [] \<Rightarrow> None
      | Signal sig # evs \<Rightarrow> server_run zsize zd env max_connections now alloc evs (signal_handler sig running) st
      | SelectEintr # evs \<Rightarrow> server_run zsize zd env max_connections now alloc evs running st
      | SelectError # evs \<Rightarrow> Some (0, st)
      | SelectReady acc ready # evs \<Rightarrow>
          (case session_foreach rv_sessions (handle_active_cb zsize zd env now alloc ready) 0
                  (accept_conn max_connections now alloc acc st) of
             None \<Rightarrow> None
           | Some st \<Rightarrow> server_run zsize zd env max_connections now alloc evs running st))"

declare server_run.simps [simp del]

section \<open>Reference: the effect of messages\<close>

text \<open>What a message does to the disks and to the client's socket.\<close>

definition msg_effect :: "disk_env \<Rightarrow> client_msg \<Rightarrow> block_writer \<Rightarrow> sock \<Rightarrow> (block_writer \<times> sock) option" where
  "msg_effect env m w sk =
     (case m of
        Block devno off data \<Rightarrow>
          (case block_writer_write env devno off data (of_nat (length data)) w of
             None \<Rightarrow> None
           | Some (rc, w) \<Rightarrow>
               if rc \<noteq> 0 then Some (w, sk)
               else (case ack_send_block sk devno (of_nat (length data)) off of
                  None \<Rightarrow> None
                | Some (_, sk) \<Rightarrow>
                    if BINLOG_SIZE_LIMIT \<le> bw_pending_bytes w then
                      map_option (\<lambda>(_, sk). (w\<lparr>bw_pending_bytes := 0\<rparr>, sk))
                        (ack_send_binlog sk devno (of_nat (length data)) off)
                    else Some (w\<lparr>bw_pending_bytes := 0\<rparr>, sk)))
      | CtlIncremental \<Rightarrow> Some (w, sk)
      | CtlEndIncremental \<Rightarrow>
          map_option (\<lambda>(_, sk). (snd (block_writer_fsync_all env w), sk)) (ack_send_done sk)
      | Unknown \<Rightarrow> Some (w, sk))"

fun effects :: "disk_env \<Rightarrow> client_msg list \<Rightarrow> block_writer \<Rightarrow> sock \<Rightarrow> (block_writer \<times> sock) option" where
  "effects env [] w sk = Some (w, sk)"
| "effects env (m # ms) w sk =
     (case msg_effect env m w sk of None \<Rightarrow> None | Some (w, sk) \<Rightarrow> effects env ms w sk)"

text \<open>The client's view: the responses it gets and the disk images that result.\<close>

definition responses_of :: "client_msg \<Rightarrow> server_response_t list" where
  "responses_of m = (case m of
      Block devno off data \<Rightarrow> [\<lparr>r_type = RESPONSE_ACK, r_devno = devno, r_size = of_nat (length data), r_offset = off\<rparr>]
    | CtlEndIncremental \<Rightarrow> [\<lparr>r_type = RESPONSE_SERVER_DONE, r_devno = 0, r_size = 0, r_offset = 0\<rparr>]
    | _ \<Rightarrow> [])"

definition image_of :: "(u32 \<Rightarrow> int) \<Rightarrow> client_msg \<Rightarrow> (int \<Rightarrow> disk_image) \<Rightarrow> int \<Rightarrow> disk_image" where
  "image_of fd_of m files = (case m of
      Block devno off data \<Rightarrow> files(fd_of devno := image_write (unat off) data (files (fd_of devno)))
    | _ \<Rightarrow> files)"

section \<open>The receiver's loops perform the effects of the decoded messages\<close>

lemma msgpack_decode_block_bound:
  "msgpack_decode_block buf d0 o0 = (d, off, Some (pos, len)) \<Longrightarrow> pos + unat len \<le> length buf"
  by (auto simp: msgpack_decode_block_def Let_def split: if_splits option.splits prod.splits)

lemma decode_frame_len:
  assumes "decode_frame zsize zd p out = (True, out')" "m_type out' = DECODE_DATA_BLOCK"
  shows "unat (m_data_len out') \<le> length (m_data out')"
proof -
  have "decode_data_frame zsize zd (drop FRAME_MAGIC_LEN p) out = (True, out')"
    using assms by (auto simp: decode_frame_def decode_ctl_frame_def split: if_splits)
  then obtain plain d off pos len where
    m: "msgpack_decode_block plain (m_devno out) (m_offset out) = (d, off, Some (pos, len))"
    and out': "m_data_len out' = len" "m_data out' = (if pos \<noteq> 0
        then memwrite 0 (take (unat len) (drop pos (memwrite 0 plain (m_data out)))) (memwrite 0 plain (m_data out))
        else memwrite 0 plain (m_data out))"
    by (auto simp: decode_data_frame_def Let_def split: if_splits content_size.splits option.splits prod.splits)
  have l: "length plain \<le> length (memwrite 0 plain (m_data out))" by (simp add: memwrite_def)
  from msgpack_decode_block_bound [OF m] l show ?thesis
    by (auto simp: out' length_memwrite_max)
qed

lemma handle_msg_effect:
  assumes "m_type msg = DECODE_DATA_BLOCK \<longrightarrow> unat (m_data_len msg) \<le> length (m_data msg)"
  shows "map_option snd (handle_msg env now msg s w sk) = msg_effect env (msg_of msg) w sk"
proof (cases "m_type msg")
  case DECODE_DATA_BLOCK
  let ?d = "take (unat (m_data_len msg)) (m_data msg)"
  have len: "of_nat (length ?d) = m_data_len msg" using assms DECODE_DATA_BLOCK by (simp add: min_def)
  have "block_writer_write env dv off ?d (m_data_len msg) w = block_writer_write env dv off (m_data msg) (m_data_len msg) w"
    for dv off by (simp only: block_writer_write_def take_take min.idem)
  then show ?thesis
    using DECODE_DATA_BLOCK len
    by (simp add: handle_msg_def msg_effect_def msg_of_def Let_def block_writer_pending_bytes_def split: option.splits)
qed (simp_all add: handle_msg_def msg_effect_def msg_of_def Let_def split: option.splits)

lemma cut_frame_shorter: "cut_frame b = Cut p r \<Longrightarrow> length r < length b"
  by (auto simp: cut_frame_def Let_def split: if_splits)

lemma drain_stop [simp]: "rc \<noteq> 1 \<Longrightarrow> drain_frames zsize zd env now (rc, s, msg) w sk = Some (rc, s, msg, w, sk)"
  by (simp add: drain_frames.simps [of zsize zd env now rc])

lemma drain_step [simp]:
  "drain_frames zsize zd env now (1, s, msg) w sk =
     (case handle_msg env now msg s w sk of
        None \<Rightarrow> None
      | Some (s, w, sk) \<Rightarrow> drain_frames zsize zd env now (protocol_decode zsize zd s [] msg) w sk)"
  by (simp add: drain_frames.simps [of zsize zd env now 1])

lemma drain_parse:
  assumes "session_ok s" "s_recv_len s + length buf \<le> RECV_BUF_SIZE"
    and "parse_stream zsize zd (pending s @ buf) out = (rc, ms, rest, out')"
  shows "case effects env ms w sk of
      None \<Rightarrow> drain_frames zsize zd env now (protocol_decode zsize zd s buf out) w sk = None
    | Some (w', sk') \<Rightarrow> \<exists>s'. drain_frames zsize zd env now (protocol_decode zsize zd s buf out) w sk
          = Some (rc, s', out', w', sk') \<and> session_ok s' \<and> pending s' = rest \<and> s_fd s' = s_fd s"
  using assms
proof (induction "length (pending s @ buf)" arbitrary: s buf out ms w sk rule: less_induct)
  case less
  obtain rc1 s1 out1 where d: "protocol_decode zsize zd s buf out = (rc1, s1, out1)" by (metis prod_cases3)
  note c = protocol_decode_cut [OF less.prems(1,2) d]
  have fd: "s_fd s1 = s_fd s"
    using d by (auto simp: protocol_decode_def recv_append_def recv_consume_def Let_def split: if_splits option.splits prod.splits)
  show ?case
  proof (cases "rc1 = 1")
    case False
    then have "parse_stream zsize zd (pending s @ buf) out = (rc1, [], pending s1, out1)"
      using c by (auto simp: parse_stream.simps [of zsize zd "pending s @ buf"] split: cut_result.splits)
    with less.prems(3) c fd False show ?thesis by (auto simp: d)
  next
    case True
    then obtain p where p: "cut_frame (pending s @ buf) = Cut p (pending s1)"
        "decode_frame zsize zd p out = (True, out1)"
      using c by (auto split: cut_result.splits)
    then obtain ms1 where ms1: "parse_stream zsize zd (pending s1) out1 = (rc, ms1, rest, out')" "ms = msg_of out1 # ms1"
      using less.prems(3) by (auto simp: parse_stream.simps [of zsize zd "pending s @ buf"] split: prod.splits)
    note eff = handle_msg_effect [of out1 env now s1 w sk] decode_frame_len [OF p(2)]
    show ?thesis
    proof (cases "handle_msg env now out1 s1 w sk")
      case None
      then have "msg_effect env (msg_of out1) w sk = None" using eff by simp
      then show ?thesis using None True ms1(2) by (auto simp: d)
    next
      case (Some r)
      obtain s2 w2 sk2 where r: "r = (s2, w2, sk2)" by (metis prod_cases3)
      have e: "msg_effect env (msg_of out1) w sk = Some (w2, sk2)" using eff Some r by simp
      have b: "s_recv_buf s2 = s_recv_buf s1" "s_recv_len s2 = s_recv_len s1" "s_fd s2 = s_fd s1"
        using handle_msg_buffer Some r by blast+
      have ok2: "session_ok s2" "pending s2 = pending s1" using c b by (simp_all add: session_ok_def pending_def)
      have "s_recv_len s2 + length [] \<le> RECV_BUF_SIZE" using ok2(1) by (simp add: session_ok_def)
      moreover have "length (pending s2 @ []) < length (pending s @ buf)"
        using cut_frame_shorter [OF p(1)] by (simp add: ok2(2))
      ultimately have "case effects env ms1 w2 sk2 of
          None \<Rightarrow> drain_frames zsize zd env now (protocol_decode zsize zd s2 [] out1) w2 sk2 = None
        | Some (w', sk') \<Rightarrow> \<exists>s'. drain_frames zsize zd env now (protocol_decode zsize zd s2 [] out1) w2 sk2
              = Some (rc, s', out', w', sk') \<and> session_ok s' \<and> pending s' = rest \<and> s_fd s' = s_fd s2"
        using less.hyps [of s2 "[]" out1 ms1 w2 sk2] ok2 ms1(1) by simp
      moreover have "drain_frames zsize zd env now (protocol_decode zsize zd s buf out) w sk =
          drain_frames zsize zd env now (protocol_decode zsize zd s2 [] out1) w2 sk2"
        by (simp add: d True Some r)
      moreover have "effects env ms w sk = effects env ms1 w2 sk2" by (simp add: ms1(2) e)
      ultimately show ?thesis by (simp only: b fd)
    qed
  qed
qed


lemma session_loop_step:
  assumes "bs \<noteq> []" "length bs \<le> RECV_CHUNK"
  shows "session_loop zsize zd env now (Avail bs # rx) s msg w sk =
    (case drain_frames zsize zd env now (protocol_decode zsize zd s bs msg) w sk of
       None \<Rightarrow> None
     | Some (rc, s, msg, w, sk) \<Rightarrow>
         if rc < 0 then Some (True, rx, s, w, sk) else session_loop zsize zd env now rx s msg w sk)"
proof -
  have n: "min RECV_CHUNK (length bs) = length bs" using assms(2) by simp
  show ?thesis
    using assms(1)
    by (simp add: session_loop.simps [of zsize zd env now "Avail bs # rx"] n Let_def split: option.split prod.split)
qed

lemma effects_append:
  "effects env (ms @ ms') w sk =
    (case effects env ms w sk of None \<Rightarrow> None | Some (w, sk) \<Rightarrow> effects env ms' w sk)"
  by (induction ms arbitrary: w sk) (auto split: option.split)

lemma session_loop_frames:
  assumes z: "zstd_contract zc zsize zd"
  shows "\<lbrakk>session_ok s; list_all2 (sent_as zc) ms fs; partial_of fs (pending s);
      pending s @ concat chunks = concat fs; \<forall>c \<in> set chunks. c \<noteq> [] \<and> length c \<le> RECV_CHUNK;
      effects env ms w sk = Some (w', sk')\<rbrakk> \<Longrightarrow>
    \<exists>s'. session_loop zsize zd env now (map Avail chunks) s msg w sk = Some (False, [], s', w', sk') \<and>
      session_ok s' \<and> pending s' = [] \<and> s_fd s' = s_fd s"
proof (induction chunks arbitrary: s ms fs msg w sk)
  case Nil
  have fs: "fs = []"
  proof (cases fs)
    case (Cons f fs')
    with Nil.prems(3,4) have "length (pending s) < length f" "length (pending s) = length f + length (concat fs')"
      by (auto simp: partial_of_def)
    then show ?thesis by simp
  qed simp
  then have "ms = []" "pending s = []" using Nil.prems by (auto simp: list_all2_Nil2 partial_of_def)
  then show ?case using Nil.prems by (simp add: session_loop.simps [of zsize zd env now "[]"])
next
  case (Cons c chunks)
  have frames: "\<exists>p. f = frame p \<and> length p \<le> 0x130000" if "f \<in> set fs" for f
    using that Cons.prems(2) decode_frame_sent [OF z] by (metis list_all2_conv_all_nth in_set_conv_nth)
  then have ne: "\<forall>f \<in> set fs. f \<noteq> []" by (fastforce simp: frame_def be32_def)
  have "(pending s @ c) @ concat chunks = concat fs" using Cons.prems(4) by simp
  from split_at_frame [OF ne this] obtain k t where
    k: "pending s @ c = concat (take k fs) @ t" "partial_of (drop k fs) t" "t @ concat chunks = concat (drop k fs)"
    by blast
  have room: "s_recv_len s + length c \<le> RECV_BUF_SIZE"
  proof -
    have "length (pending s) \<le> 0x130004"
      using Cons.prems(3) frames by (cases fs) (fastforce simp: partial_of_def)+
    then show ?thesis using Cons.prems(1,5) by (simp add: length_pending RECV_BUF_SIZE_def RECV_CHUNK_def)
  qed
  have l: "list_all2 (sent_as zc) (take k ms) (take k fs)" "list_all2 (sent_as zc) (drop k ms) (drop k fs)"
    using Cons.prems(2) by auto
  obtain out' where p: "parse_stream zsize zd (pending s @ c) msg = (0, take k ms, t, out')"
    using parse_stream_frames [OF z l k(2), of msg] by (auto simp: k(1))
  obtain w1 sk1 where e: "effects env (take k ms) w sk = Some (w1, sk1)" "effects env (drop k ms) w1 sk1 = Some (w', sk')"
    using Cons.prems(6) effects_append [of env "take k ms" "drop k ms" w sk] by (auto split: option.splits)
  from drain_parse [OF Cons.prems(1) room p, where env = env and w = w and sk = sk and now = now] e(1) obtain s1 where
    s1: "drain_frames zsize zd env now (protocol_decode zsize zd s c msg) w sk = Some (0, s1, out', w1, sk1)"
      "session_ok s1" "pending s1 = t" "s_fd s1 = s_fd s"
    by auto
  from Cons.IH [OF s1(2) l(2), of w1 sk1 out'] k(2,3) s1(3) Cons.prems(5) e(2) obtain s' where
    "session_loop zsize zd env now (map Avail chunks) s1 out' w1 sk1 = Some (False, [], s', w', sk')"
    "session_ok s'" "pending s' = []" "s_fd s' = s_fd s1"
    by auto
  then show ?case using s1 Cons.prems(5) by (simp add: session_loop_step)
qed

section \<open>A run without errors\<close>

text \<open>The disks can take a message: a block of at most 1 MB whose device is registered and open
  and whose offset can be reached.\<close>

definition accepts :: "disk_env \<Rightarrow> block_writer \<Rightarrow> client_msg \<Rightarrow> bool" where
  "accepts env w m = (case m of
      Block devno off data \<Rightarrow> 0 \<le> sint devno \<and> sint devno < int MAX_TARGET_DISKS \<and>
        d_registered (bw_disks w ! unat devno) \<and> d_fd (bw_disks w ! unat devno) \<ge> 0 \<and>
        de_seekable env (d_fd (bw_disks w ! unat devno)) off \<and> length data \<le> BLOCK_SIZE_MAX
    | Unknown \<Rightarrow> False
    | _ \<Rightarrow> True)"

definition calm :: "client_msg list \<Rightarrow> block_writer \<Rightarrow> sock \<Rightarrow> bool" where
  "calm ms w sk \<longleftrightarrow> (\<exists>a b. bw_script w = replicate (length ms) (Writes BLOCK_SIZE_MAX) @ a \<and>
     sk_script sk = replicate (length ms) (Accepts SERVER_RESPONSE_SIZE) @ b)"

lemma block_write_at_once:
  assumes "accepts env w (Block devno off data)" "bw_script w = Writes k # s" "length data \<le> k"
    "length data < 2 ^ 32" "data \<noteq> []"
  shows "block_writer_write env devno off data (of_nat (length data)) w =
    Some (0, after_write env (of_nat (length data)) (w\<lparr>bw_files := (bw_files w)(d_fd (bw_disks w ! unat devno) :=
      image_write (unat off) data (bw_files w (d_fd (bw_disks w ! unat devno)))), bw_script := s\<rparr>))"
proof -
  have len: "unat (of_nat (length data) :: u32) = length data" using assms(4) by (simp add: unat_of_nat)
  show ?thesis
    using assms len by (simp add: block_writer_write_def accepts_def Let_def after_write_def)
qed


text \<open>Bounds: a block never reaches the 10 GB of the binlog alert.\<close>

lemma ucast_below_binlog: "(ucast (len :: u32) :: u64) < BINLOG_SIZE_LIMIT"
proof -
  have "unat (ucast len :: u64) = unat len" by (simp add: unsigned_ucast_eq take_bit_nat_eq_self unsigned_less [THEN less_trans])
  moreover have "unat len < 2 ^ 32" using unsigned_less [of len] by simp
  ultimately show ?thesis by (simp add: proto_consts word_less_nat_alt)
qed

lemma msg_effect_calm:
  assumes "accepts env w m" "bw_pending_bytes w = 0"
    and "bw_script w = replicate (Suc n) (Writes BLOCK_SIZE_MAX) @ a"
    and "sk_script sk = replicate (Suc n) (Accepts SERVER_RESPONSE_SIZE) @ b"
  shows "\<exists>w' sk' a' b'. msg_effect env m w sk = Some (w', sk') \<and> bw_disks w' = bw_disks w \<and> bw_pending_bytes w' = 0 \<and>
    bw_files w' = image_of (\<lambda>d. d_fd (bw_disks w ! unat d)) m (bw_files w) \<and>
    bw_script w' = replicate n (Writes BLOCK_SIZE_MAX) @ a' \<and>
    sk_out sk' = sk_out sk @ concat (map response_bytes (responses_of m)) \<and>
    sk_script sk' = replicate n (Accepts SERVER_RESPONSE_SIZE) @ b'"
proof (cases m)
  case (Block devno off data)
  let ?fd = "d_fd (bw_disks w ! unat devno)" and ?len = "of_nat (length data) :: u32"
  let ?w = "w\<lparr>bw_files := (bw_files w)(?fd := image_write (unat off) data (bw_files w ?fd))\<rparr>"
  have len: "length data \<le> BLOCK_SIZE_MAX" "length data < 2 ^ 32"
    using assms(1) Block by (simp_all add: accepts_def proto_consts)
  obtain s where s: "\<exists>a'. s = replicate n (Writes BLOCK_SIZE_MAX) @ a'"
    "block_writer_write env devno off data ?len w = Some (0, after_write env ?len (?w\<lparr>bw_script := s\<rparr>))"
  proof (cases "data = []")
    case True
    have "block_writer_write env devno off data ?len w = Some (0, after_write env ?len (?w\<lparr>bw_script := bw_script w\<rparr>))"
      using assms(1) Block True by (simp add: block_writer_write_def accepts_def Let_def after_write_def)
    moreover have "\<exists>a'. bw_script w = replicate n (Writes BLOCK_SIZE_MAX) @ a'"
      using assms(3) by (auto simp: replicate_append_same [symmetric])
    ultimately show thesis using that by blast
  next
    case False
    have "bw_script w = Writes BLOCK_SIZE_MAX # (replicate n (Writes BLOCK_SIZE_MAX) @ a)" using assms(3) by simp
    note w = block_write_at_once [OF assms(1) [unfolded Block] this len False]
    show thesis by (rule that [OF _ w]) blast
  qed
  define w1 where "w1 = after_write env ?len (?w\<lparr>bw_script := s\<rparr>)"
  have ack: "ack_send_block sk devno ?len off =
      Some (0, \<lparr>sk_out = sk_out sk @ concat (map response_bytes (responses_of m)),
        sk_script = replicate n (Accepts SERVER_RESPONSE_SIZE) @ b\<rparr>)"
    using assms(4) Block by (simp add: ack_send_block_def send_response_at_once responses_of_def)
  have pend: "\<not> BINLOG_SIZE_LIMIT \<le> bw_pending_bytes w1"
    using ucast_below_binlog [of ?len] assms(2) by (simp add: w1_def after_write_frame not_le)
  have "msg_effect env m w sk = Some (w1\<lparr>bw_pending_bytes := 0\<rparr>,
      \<lparr>sk_out = sk_out sk @ concat (map response_bytes (responses_of m)),
       sk_script = replicate n (Accepts SERVER_RESPONSE_SIZE) @ b\<rparr>)"
    using Block s(2) ack pend by (simp add: msg_effect_def w1_def)
  then show ?thesis
    using s(1) Block by (auto simp: w1_def after_write_frame image_of_def)
next
  case CtlEndIncremental
  have "ack_send_done sk = Some (0, \<lparr>sk_out = sk_out sk @ concat (map response_bytes (responses_of m)),
        sk_script = replicate n (Accepts SERVER_RESPONSE_SIZE) @ b\<rparr>)"
    using assms(4) CtlEndIncremental by (simp add: ack_send_done_def send_response_at_once responses_of_def)
  moreover have "\<exists>a'. bw_script w = replicate n (Writes BLOCK_SIZE_MAX) @ a'"
    using assms(3) by (auto simp: replicate_append_same [symmetric])
  ultimately show ?thesis
    using CtlEndIncremental assms(2) by (auto simp: msg_effect_def fsync_all_result image_of_def)
next
  case CtlIncremental
  have "\<exists>a'. bw_script w = replicate n (Writes BLOCK_SIZE_MAX) @ a'"
    "\<exists>b'. sk_script sk = replicate n (Accepts SERVER_RESPONSE_SIZE) @ b'"
    using assms(3,4) by (auto simp: replicate_append_same [symmetric])
  then show ?thesis
    using CtlIncremental assms(2) by (auto simp: msg_effect_def image_of_def responses_of_def)
next
  case Unknown
  with assms(1) show ?thesis by (simp add: accepts_def)
qed

lemma effects_calm:
  assumes "list_all (accepts env w) ms"
    and "bw_pending_bytes w = 0" "calm ms w sk"
  shows "\<exists>w' sk'. effects env ms w sk = Some (w', sk') \<and>
    bw_files w' = fold (image_of (\<lambda>d. d_fd (bw_disks w ! unat d))) ms (bw_files w) \<and>
    sk_out sk' = sk_out sk @ concat (map response_bytes (concat (map responses_of ms)))"
  using assms
proof (induction ms arbitrary: w sk)
  case Nil
  then show ?case by simp
next
  case (Cons m ms)
  obtain a b where ab: "bw_script w = replicate (Suc (length ms)) (Writes BLOCK_SIZE_MAX) @ a"
      "sk_script sk = replicate (Suc (length ms)) (Accepts SERVER_RESPONSE_SIZE) @ b"
    using Cons.prems(3) by (auto simp: calm_def)
  have acc: "accepts env w m" using Cons.prems(1) by simp
  from msg_effect_calm [OF acc Cons.prems(2) ab] obtain w1 sk1 a' b' where
    1: "msg_effect env m w sk = Some (w1, sk1)" "bw_disks w1 = bw_disks w" "bw_pending_bytes w1 = 0"
      "bw_files w1 = image_of (\<lambda>d. d_fd (bw_disks w ! unat d)) m (bw_files w)"
      "bw_script w1 = replicate (length ms) (Writes BLOCK_SIZE_MAX) @ a'"
      "sk_out sk1 = sk_out sk @ concat (map response_bytes (responses_of m))"
      "sk_script sk1 = replicate (length ms) (Accepts SERVER_RESPONSE_SIZE) @ b'"
    by blast
  have "calm ms w1 sk1" using 1 by (auto simp: calm_def)
  moreover have "accepts env w1 = accepts env w" by (rule ext) (simp add: accepts_def 1(2) split: client_msg.split)
  ultimately show ?case using Cons.IH [of w1 sk1] Cons.prems(1) 1 by auto
qed

section \<open>The session table in the select loop\<close>

lemma session_foreach_fold:
  "session_foreach fst (\<lambda>i (g, x). Some (False, g, f (g ! i) x)) k (g, x) = Some (g, fold f (drop k g) x)"
proof (induction "length g - k" arbitrary: k x)
  case 0
  then show ?case by (simp add: session_foreach.simps [of fst _ k] session_count_def)
next
  case (Suc n)
  then have "k < length g" by simp
  then have "drop k g = g ! k # drop (Suc k) g" by (simp add: Cons_nth_drop_Suc)
  with Suc \<open>k < length g\<close> show ?case
    by (simp add: session_foreach.simps [of fst _ k] session_count_def)
qed

lemma rv_remove_length: "length (rv_sessions (rv_remove fd st)) \<le> length (rv_sessions st)"
proof -
  have "length (snd (session_remove fd g)) \<le> length g" for g
    by (induction g) (auto simp: split_beta)
  then show ?thesis by (simp add: rv_remove_def split_beta)
qed

lemma handle_session_length:
  assumes "handle_session zsize zd env now alloc i st = Some st'"
  shows "length (rv_sessions st') \<le> length (rv_sessions st)"
proof (cases alloc)
  case False
  then show ?thesis using assms rv_remove_length by (auto simp: handle_session_def Let_def)
next
  case True
  then obtain removed rx s w sk where "session_loop zsize zd env now (rv_rx st (s_fd (rv_sessions st ! i)))
      (rv_sessions st ! i) calloc_msg (rv_writer st) (rv_socks st (s_fd (rv_sessions st ! i))) = Some (removed, rx, s, w, sk)"
    using assms by (auto simp: handle_session_def Let_def split: option.splits)
  then show ?thesis
    using assms True rv_remove_length [of "s_fd (rv_sessions st ! i)" "st\<lparr>rv_sessions := (rv_sessions st)[i := s], rv_writer := w,
      rv_socks := (rv_socks st)(s_fd (rv_sessions st ! i) := sk), rv_rx := (rv_rx st)(s_fd (rv_sessions st ! i) := rx)\<rparr>"]
    by (cases removed) (auto simp: handle_session_def Let_def)
qed

text \<open>What every callback keeps, the walk over the table keeps.\<close>

lemma session_foreach_rel:
  assumes "session_foreach sessions cb i st = Some st'"
    and "\<And>i st stop st'. i < session_count (sessions st) \<Longrightarrow> cb i st = Some (stop, st') \<Longrightarrow> R st st'" "\<And>st. R st st" "\<And>a b c. R a b \<Longrightarrow> R b c \<Longrightarrow> R a c"
  shows "R st st'"
proof -
  have "(\<forall>i st stop st'. i < session_count (sessions st) \<longrightarrow> cb i st = Some (stop, st') \<longrightarrow> R st st') \<longrightarrow> R st st'"
  proof (rule session_foreach.raw_induct [OF _ assms(1)], intro impI)
    fix sf sessions cb i st r
    assume ih: "\<And>sessions cb i st r. sf sessions cb i st = Some r \<Longrightarrow>
        (\<forall>i st stop st'. i < session_count (sessions st) \<longrightarrow> cb i st = Some (stop, st') \<longrightarrow> R st st') \<longrightarrow> R st r"
      and body: "(if i < session_count (sessions st) then case cb i st of None \<Rightarrow> None
          | Some (stop, st') \<Rightarrow> if stop then Some st' else sf sessions cb (i + 1) st' else Some st) = Some r"
      and step: "\<forall>i st stop st'. i < session_count (sessions st) \<longrightarrow> cb i st = Some (stop, st') \<longrightarrow> R st st'"
    show "R st r"
    proof (cases "i < session_count (sessions st)")
      case True
      then obtain stop st1 where c: "cb i st = Some (stop, st1)" using body by (auto split: option.splits)
      then have "R st st1" using step True by blast
      moreover have "R st1 r"
        using ih [of sessions cb "i + 1" st1 r] step body True c assms(3) by (cases stop) auto
      ultimately show ?thesis by (rule assms(4))
    qed (use body assms(3) in simp)
  qed
  with assms(2) show ?thesis by blast
qed

lemma active_pass_length:
  assumes "session_foreach rv_sessions (handle_active_cb zsize zd env now alloc ready) i st = Some st'"
  shows "length (rv_sessions st') \<le> length (rv_sessions st)"
  by (rule session_foreach_rel [OF assms, where R = "\<lambda>st st'. length (rv_sessions st') \<le> length (rv_sessions st)"])
    (auto simp: handle_active_cb_def split: if_splits dest: handle_session_length)

lemma accept_conn_length:
  assumes "length (rv_sessions st) \<le> n" "int n \<le> max 0 max_connections" "n \<le> MAX_SESSIONS"
  shows "int (length (rv_sessions (accept_conn max_connections now alloc acc st))) \<le> max 0 max_connections \<and>
    length (rv_sessions (accept_conn max_connections now alloc acc st)) \<le> MAX_SESSIONS"
  using assms by (auto simp: accept_conn_def session_create_def session_count_def Let_def split: option.splits prod.splits)

lemma server_run_step:
  "server_run zsize zd env mc now alloc evs False st = Some (0, st)"
  "server_run zsize zd env mc now alloc [] True st = None"
  "server_run zsize zd env mc now alloc (Signal sig # evs) True st =
     server_run zsize zd env mc now alloc evs (signal_handler sig True) st"
  "server_run zsize zd env mc now alloc (SelectEintr # evs) True st = server_run zsize zd env mc now alloc evs True st"
  "server_run zsize zd env mc now alloc (SelectError # evs) True st = Some (0, st)"
  "server_run zsize zd env mc now alloc (SelectReady acc ready # evs) True st =
     (case session_foreach rv_sessions (handle_active_cb zsize zd env now alloc ready) 0 (accept_conn mc now alloc acc st) of
        None \<Rightarrow> None
      | Some st \<Rightarrow> server_run zsize zd env mc now alloc evs True st)"
  by (simp_all add: server_run.simps [of zsize zd env mc now alloc])

lemma server_run_bound:
  assumes "server_run zsize zd env mc now alloc evs running st = Some (rc, st')"
    and "int (length (rv_sessions st)) \<le> max 0 mc" "length (rv_sessions st) \<le> MAX_SESSIONS"
  shows "rc = 0 \<and> int (length (rv_sessions st')) \<le> max 0 mc \<and> length (rv_sessions st') \<le> MAX_SESSIONS"
  using assms
proof (induction evs arbitrary: running st)
  case Nil
  then show ?case by (cases running) (auto simp: server_run_step)
next
  case (Cons e evs)
  show ?case
  proof (cases running)
    case False
    with Cons.prems show ?thesis by (auto simp: server_run_step)
  next
    case True
    show ?thesis
    proof (cases e)
      case (SelectReady acc ready)
      let ?st = "accept_conn mc now alloc acc st"
      obtain st1 where st1: "session_foreach rv_sessions (handle_active_cb zsize zd env now alloc ready) 0 ?st = Some st1"
        "server_run zsize zd env mc now alloc evs True st1 = Some (rc, st')"
        using Cons.prems(1) True SelectReady by (auto simp: server_run_step split: option.splits)
      have "int (length (rv_sessions ?st)) \<le> max 0 mc \<and> length (rv_sessions ?st) \<le> MAX_SESSIONS"
        using accept_conn_length [OF order_refl Cons.prems(2,3)] .
      with active_pass_length [OF st1(1)] Cons.IH [OF st1(2)] show ?thesis by auto
    qed (use Cons True in \<open>auto simp: server_run_step\<close>)
  qed
qed

section \<open>Properties\<close>

lemma handle_session_frames:
  assumes z: "zstd_contract zc zsize zd"
    and s: "s = rv_sessions st ! i" "i < length (rv_sessions st)" "session_ok s" "pending s = []"
    and ms: "list_all2 (sent_as zc) ms fs" "concat chunks = concat fs"
      "\<forall>c \<in> set chunks. c \<noteq> [] \<and> length c \<le> RECV_CHUNK"
    and rx: "rv_rx st (s_fd s) = map Avail chunks"
    and e: "effects env ms (rv_writer st) (rv_socks st (s_fd s)) = Some (w', sk')"
  shows "\<exists>st'. handle_session zsize zd env now True i st = Some st' \<and> rv_writer st' = w' \<and>
    rv_socks st' (s_fd s) = sk' \<and> fds (rv_sessions st') = fds (rv_sessions st) \<and> rv_closed st' = rv_closed st"
proof -
  have part: "partial_of fs (pending s)"
  proof (cases fs)
    case (Cons f fs')
    then obtain m where "sent_as zc m f" using ms(1) by (auto simp: list_all2_Cons2)
    from decode_frame_sent [OF z this] Cons s(4) show ?thesis by (auto simp: partial_of_def frame_def be32_def)
  qed (simp add: partial_of_def s(4))
  have "pending s @ concat chunks = concat fs" using s(4) ms(2) by simp
  from session_loop_frames [OF z s(3) ms(1) part this ms(3) e, of now calloc_msg] obtain s' where
    "session_loop zsize zd env now (map Avail chunks) s calloc_msg (rv_writer st) (rv_socks st (s_fd s)) = Some (False, [], s', w', sk')"
    "s_fd s' = s_fd s" by blast
  moreover have "map s_fd ((rv_sessions st)[i := s']) = map s_fd (rv_sessions st)"
    using calculation(2) s(1,2) by (metis list_update_id map_update nth_map)
  ultimately show ?thesis
    using rx s(1) by (simp add: handle_session_def Let_def fds_def)
qed

text \<open>
  C3: end-to-end delivery.  Let a connection deliver the bytes the client sends for any
  messages, cut by TCP into pieces in any way, and let the disks and the socket work: one
  \<open>handle_session\<close> call writes every block to its disk at its offset, in the order sent, and
  answers with exactly one acknowledgement per block and one completion per end-of-round, in
  the same order, echoing the block's device, size and offset.  The connection stays open.
\<close>
theorem receiver_end_to_end:
  assumes "zstd_contract zc zsize zd"
    and "s = rv_sessions st ! i" "i < length (rv_sessions st)" "session_ok s" "pending s = []"
    and "list_all2 (sent_as zc) ms fs" "concat chunks = concat fs"
    and "\<forall>c \<in> set chunks. c \<noteq> [] \<and> length c \<le> RECV_CHUNK"
    and "rv_rx st (s_fd s) = map Avail chunks"
    and "list_all (accepts env (rv_writer st)) ms" "bw_pending_bytes (rv_writer st) = 0"
    and "calm ms (rv_writer st) (rv_socks st (s_fd s))"
  shows "\<exists>st'. handle_session zsize zd env now True i st = Some st' \<and>
    bw_files (rv_writer st') =
      fold (image_of (\<lambda>d. d_fd (bw_disks (rv_writer st) ! unat d))) ms (bw_files (rv_writer st)) \<and>
    sk_out (rv_socks st' (s_fd s)) =
      sk_out (rv_socks st (s_fd s)) @ concat (map response_bytes (concat (map responses_of ms))) \<and>
    fds (rv_sessions st') = fds (rv_sessions st) \<and> rv_closed st' = rv_closed st"
proof -
  from effects_calm [OF assms(10-12)] obtain w' sk' where
    e: "effects env ms (rv_writer st) (rv_socks st (s_fd s)) = Some (w', sk')"
      "bw_files w' = fold (image_of (\<lambda>d. d_fd (bw_disks (rv_writer st) ! unat d))) ms (bw_files (rv_writer st))"
      "sk_out sk' = sk_out (rv_socks st (s_fd s)) @ concat (map response_bytes (concat (map responses_of ms)))"
    by blast
  from handle_session_frames [OF assms(1-9) e(1), of now] e(2,3) show ?thesis by auto
qed

text \<open>A format that stores messages uncompressed behind one byte meets the zstd contract; with
  it, a receiver with one connection and one disk.\<close>

definition store_zc :: "int \<Rightarrow> bytes \<Rightarrow> u64 \<Rightarrow> bytes option" where
  "store_zc level m cap = (if length m + 1 \<le> unat cap then Some (0 # m) else None)"

definition store_zsize :: "bytes \<Rightarrow> content_size" where
  "store_zsize c = ContentSize (length c - 1)"

definition store_zd :: "bytes \<Rightarrow> nat \<Rightarrow> bytes option" where
  "store_zd c n = Some (tl c)"

lemma store_contract: "zstd_contract store_zc store_zsize store_zd"
  by (auto simp: zstd_contract_def store_zc_def store_zsize_def store_zd_def)

definition sample_frames :: "bytes list" where
  "sample_frames = [data_frame (0 # block_encoding 0 16 [7, 8]), frame (take CTL_END_INCREMENTAL_LEN CTL_END_INCREMENTAL)]"

definition sample_receiver :: receiver where
  "sample_receiver = \<lparr>rv_sessions = [new_session 0 5 ''10.0.0.1''],
     rv_writer = sample_writer\<lparr>bw_script := replicate 2 (Writes BLOCK_SIZE_MAX)\<rparr>,
     rv_socks = (\<lambda>_. \<lparr>sk_out = [], sk_script = replicate 2 (Accepts SERVER_RESPONSE_SIZE)\<rparr>),
     rv_rx = (\<lambda>_. [Avail (take 9 (concat sample_frames)), Avail (drop 9 (concat sample_frames))]),
     rv_closed = []\<rparr>"

lemma sample_sent: "list_all2 (sent_as store_zc) [Block 0 16 [7, 8], CtlEndIncremental] sample_frames"
proof -
  have "store_zc 3 (block_encoding 0 16 [7, 8]) (ZSTD_COMPRESS_BOUND (of_nat (length (block_encoding 0 16 [7, 8])))) =
      Some (0 # block_encoding 0 16 [7, 8])"
    by code_simp
  then have "sent_as store_zc (Block 0 16 [7, 8]) (data_frame (0 # block_encoding 0 16 [7, 8]))"
    by (auto simp: sent_as_def Let_def proto_consts)
  then show ?thesis by (simp add: sample_frames_def sent_as_def)
qed

theorem receiver_end_to_end_witness:
  "\<exists>st'. handle_session store_zsize store_zd sample_env 0 True 0 sample_receiver = Some st' \<and>
     bw_files (rv_writer st') 3 = image_write 16 [7, 8] (\<lambda>_. 0) \<and>
     sk_out (rv_socks st' 5) = response_bytes \<lparr>r_type = 0, r_devno = 0, r_size = 2, r_offset = 16\<rparr> @
       response_bytes \<lparr>r_type = 2, r_devno = 0, r_size = 0, r_offset = 0\<rparr>"
proof -
  let ?s = "new_session 0 5 ''10.0.0.1''" and ?ms = "[Block 0 16 [7, 8], CtlEndIncremental]"
  have len: "9 < length (concat sample_frames) \<and> length (concat sample_frames) \<le> RECV_CHUNK"
  proof -
    have "length (concat sample_frames) = 47" by code_simp
    then show ?thesis by (simp add: RECV_CHUNK_def)
  qed
  have 1: "?s = rv_sessions sample_receiver ! 0" "0 < length (rv_sessions sample_receiver)" "session_ok ?s" "pending ?s = []"
    by (simp_all add: sample_receiver_def session_ok_def pending_def new_session_def)
  have 2: "concat [take 9 (concat sample_frames), drop 9 (concat sample_frames)] = concat sample_frames"
    by simp
  have 3: "\<forall>c \<in> set [take 9 (concat sample_frames), drop 9 (concat sample_frames)]. c \<noteq> [] \<and> length c \<le> RECV_CHUNK"
  proof -
    have "\<forall>c \<in> set [take 9 xs, drop 9 xs]. c \<noteq> [] \<and> length c \<le> RECV_CHUNK"
      if "9 < length xs \<and> length xs \<le> RECV_CHUNK" for xs :: bytes
      using that by auto
    from this [OF len] show ?thesis .
  qed
  have 4: "rv_rx sample_receiver (s_fd ?s) = map Avail [take 9 (concat sample_frames), drop 9 (concat sample_frames)]"
    by (simp add: sample_receiver_def)
  have 5: "list_all (accepts sample_env (rv_writer sample_receiver)) ?ms"
    by (simp add: accepts_def sample_receiver_def sample_writer_def sample_env_def MAX_TARGET_DISKS_def proto_consts)
  have 6: "bw_pending_bytes (rv_writer sample_receiver) = 0"
    by (simp add: sample_receiver_def sample_writer_def)
  have 7: "calm ?ms (rv_writer sample_receiver) (rv_socks sample_receiver (s_fd ?s))"
    by (simp add: calm_def sample_receiver_def numeral_2_eq_2)
  from receiver_end_to_end [OF store_contract 1 sample_sent 2 3 4 5 6 7, of 0] obtain st' where
    h: "handle_session store_zsize store_zd sample_env 0 True 0 sample_receiver = Some st'"
    and f: "bw_files (rv_writer st') = fold (image_of (\<lambda>d. d_fd (bw_disks (rv_writer sample_receiver) ! unat d))) ?ms
      (bw_files (rv_writer sample_receiver))"
    and out: "sk_out (rv_socks st' (s_fd ?s)) = sk_out (rv_socks sample_receiver (s_fd ?s)) @
      concat (map response_bytes (concat (map responses_of ?ms)))"
    by blast
  have "bw_files (rv_writer st') 3 = image_write 16 [7, 8] (\<lambda>_. 0)"
    using f by (simp add: image_of_def sample_receiver_def sample_writer_def)
  moreover have "s_fd ?s = 5" by (simp add: new_session_def)
  ultimately show ?thesis using h out
    by (simp add: responses_of_def proto_consts) (simp add: sample_receiver_def)
qed

text \<open>
  The binlog alert is never sent.  The counter behind it is reset after every block, so it
  never exceeds one block, and a block's 32-bit length is below the 10 GB limit: whatever
  message is handled, all that goes to the client is (a prefix of) one response that is not a
  binlog response, and the counter is 0 again.
\<close>
theorem binlog_alert_unreachable:
  assumes "bw_pending_bytes w = 0" "handle_msg env now msg s w sk = Some (s', w', sk')"
  shows "bw_pending_bytes w' = 0 \<and>
    (\<exists>r n. r_type r \<noteq> RESPONSE_BINLOG \<and> sk_out sk' = sk_out sk @ take n (response_bytes r))"
proof (cases "m_type msg")
  case DECODE_DATA_BLOCK
  then obtain rc w1 where w1: "block_writer_write env (m_devno msg) (m_offset msg) (m_data msg) (m_data_len msg) w = Some (rc, w1)"
    using assms(2) by (auto simp: handle_msg_def Let_def split: option.splits)
  have none: "\<exists>r n. r_type r \<noteq> RESPONSE_BINLOG \<and> sk_out sk = sk_out sk @ take n (response_bytes r)"
    by (intro exI [of _ "\<lparr>r_type = RESPONSE_ACK, r_devno = 0, r_size = 0, r_offset = 0\<rparr>"] exI [of _ 0]) (simp add: proto_consts)
  from w1 show ?thesis
  proof (cases rule: block_writer_write_cases)
    case invalid
    then show ?thesis using assms none DECODE_DATA_BLOCK w1 by (auto simp: handle_msg_def Let_def)
  next
    case (failed n sc)
    then show ?thesis using assms none DECODE_DATA_BLOCK w1 by (auto simp: handle_msg_def Let_def)
  next
    case (written sc)
    then have pend: "\<not> BINLOG_SIZE_LIMIT \<le> bw_pending_bytes w1"
      using assms(1) ucast_below_binlog [of "m_data_len msg"] by (simp add: after_write_frame not_le)
    obtain rc1 sk1 where a: "ack_send_block sk (m_devno msg) (m_data_len msg) (m_offset msg) = Some (rc1, sk1)"
      using assms(2) DECODE_DATA_BLOCK w1 written(1) by (auto simp: handle_msg_def Let_def split: option.splits)
    have "w' = w1\<lparr>bw_pending_bytes := 0\<rparr>" "sk' = sk1"
      using assms(2) DECODE_DATA_BLOCK w1 written(1) a pend
      by (auto simp: handle_msg_def Let_def block_writer_pending_bytes_def)
    moreover have "\<exists>n. sk_out sk1 = sk_out sk @ take n (response_bytes \<lparr>r_type = RESPONSE_ACK, r_devno = m_devno msg,
        r_size = m_data_len msg, r_offset = m_offset msg\<rparr>)"
      using send_response_result [OF a [unfolded ack_send_block_def]] by (metis order_refl take_all)
    ultimately show ?thesis by (auto simp: proto_consts intro!: exI [of _ "\<lparr>r_type = RESPONSE_ACK, r_devno = m_devno msg,
        r_size = m_data_len msg, r_offset = m_offset msg\<rparr>"])
  qed
next
  case DECODE_CTL_END_INCREMENTAL
  then obtain rc1 where a: "ack_send_done sk = Some (rc1, sk')" "w' = snd (block_writer_fsync_all env w)"
    using assms(2) by (auto simp: handle_msg_def Let_def split: option.splits)
  have "\<exists>n. sk_out sk' = sk_out sk @ take n (response_bytes \<lparr>r_type = RESPONSE_SERVER_DONE, r_devno = 0, r_size = 0, r_offset = 0\<rparr>)"
    using send_response_result [OF a(1) [unfolded ack_send_done_def]] by (metis order_refl take_all)
  then show ?thesis using a(2) assms(1)
    by (auto simp: fsync_all_result proto_consts intro!: exI [of _ "\<lparr>r_type = RESPONSE_SERVER_DONE, r_devno = 0, r_size = 0, r_offset = 0\<rparr>"])
qed (use assms in \<open>auto simp: handle_msg_def Let_def proto_consts
    intro!: exI [of _ "\<lparr>r_type = RESPONSE_ACK, r_devno = 0, r_size = 0, r_offset = 0\<rparr>"] exI [of _ 0]\<close>)

text \<open>A decoded block for the witnesses.\<close>

definition sample_msg :: decoded_msg_t where
  "sample_msg = \<lparr>m_type = DECODE_DATA_BLOCK, m_devno = 0, m_offset = 16, m_data = [7, 8], m_data_len = 2\<rparr>"

definition sample_sock :: sock where
  "sample_sock = \<lparr>sk_out = [], sk_script = [Accepts 20]\<rparr>"

lemma sample_msg_handled:
  "\<exists>s' w' sk'. handle_msg sample_env 0 sample_msg (new_session 0 5 ''10.0.0.1'') sample_writer sample_sock = Some (s', w', sk')"
proof -
  have "handle_msg sample_env 0 sample_msg (new_session 0 5 ''10.0.0.1'') sample_writer sample_sock \<noteq> None"
    by code_simp
  then show ?thesis by auto
qed

theorem binlog_alert_unreachable_witness:
  "\<exists>s' w' sk'. handle_msg sample_env 0 sample_msg (new_session 0 5 ''10.0.0.1'') sample_writer sample_sock = Some (s', w', sk') \<and>
     bw_pending_bytes w' = 0"
  using sample_msg_handled binlog_alert_unreachable [of sample_writer sample_env 0 sample_msg]
  by (fastforce simp: sample_writer_def)



text \<open>
  C26: the receiver never holds more sessions than configured: through any sequence of signals
  and \<open>select\<close> results, the number of sessions stays within \<open>max_connections\<close> and the table's 16
  slots, and the loop ends with code 0.  What it hands to \<open>select\<close> is always the listening socket
  and exactly the descriptors of its sessions, with a bound above all of them.
\<close>
theorem server_run_sessions:
  assumes "server_run zsize zd env mc now alloc evs running st = Some (rc, st')"
    and "int (length (rv_sessions st)) \<le> max 0 mc" "length (rv_sessions st) \<le> MAX_SESSIONS"
  shows "rc = 0 \<and> int (session_count (rv_sessions st')) \<le> max 0 mc \<and> session_count (rv_sessions st') \<le> MAX_SESSIONS \<and>
    (\<exists>n. select_args listen_fd (rv_sessions st') = Some (insert listen_fd (set (fds (rv_sessions st'))), n) \<and>
      listen_fd < n \<and> (\<forall>fd \<in> set (fds (rv_sessions st')). fd < n))"
proof -
  let ?g = "rv_sessions st'"
  have c: "session_foreach fst collect_fds_cb 0 (g, x) = Some (g, fold (\<lambda>s. insert (s_fd s)) g x)" for g x
    using session_foreach_fold [of "\<lambda>s. insert (s_fd s)" 0 g x] by (simp add: collect_fds_cb_def [abs_def])
  have m: "session_foreach fst find_max_fd_cb 0 (g, x) =
      Some (g, fold (\<lambda>s m. if s_fd s > m then s_fd s else m) g x)" for g x
    using session_foreach_fold [of "\<lambda>s m. if s_fd s > m then s_fd s else m" 0 g x] by (simp add: find_max_fd_cb_def [abs_def])
  have set: "fold (\<lambda>s. insert (s_fd s)) g x = x \<union> set (fds g)" for g x
    by (induction g arbitrary: x) (auto simp: fds_def)
  have max: "x \<le> fold (\<lambda>s m. if s_fd s > m then s_fd s else m) g x \<and>
      (\<forall>fd \<in> set (fds g). fd \<le> fold (\<lambda>s m. if s_fd s > m then s_fd s else m) g x)" for g :: session_mgr and x
    by (induction g arbitrary: x) (fastforce simp: fds_def)+
  have "select_args listen_fd ?g = Some (insert listen_fd (set (fds ?g)),
      fold (\<lambda>s m. if s_fd s > m then s_fd s else m) ?g listen_fd + 1)"
    by (simp add: select_args_def c m set)
  with server_run_bound [OF assms] max [of listen_fd ?g] show ?thesis
    by (auto simp: session_count_def)
qed

theorem server_run_sessions_witness:
  "\<exists>st'. server_run store_zsize store_zd sample_env 7 0 True [SelectEintr, Signal 15] True sample_receiver
      = Some (0, st') \<and> session_count (rv_sessions st') \<le> 7"
proof -
  have r: "server_run store_zsize store_zd sample_env 7 0 True [SelectEintr, Signal 15] True sample_receiver
      = Some (0, sample_receiver)"
    by (simp add: server_run_step signal_handler_def)
  show ?thesis
    using server_run_sessions [OF r, of 3] r by (simp add: sample_receiver_def MAX_SESSIONS_def)
qed

text \<open>
  When a connection is removed while the ready sessions are handled, the session behind it
  in the table is passed over in that round: with two ready connections of which the first is
  closed by its peer, the round ends with the second one's data untouched.
\<close>
theorem removal_skips_next_session:
  assumes "rv_sessions st = [a, b]" "s_fd a \<noteq> s_fd b" "{s_fd a, s_fd b} \<subseteq> set ready"
    and "rv_rx st (s_fd a) = Avail [] # rx"
  shows "\<exists>st'. session_foreach rv_sessions (handle_active_cb zsize zd env now True ready) 0 st = Some st' \<and>
    rv_sessions st' = [b] \<and> rv_rx st' (s_fd b) = rv_rx st (s_fd b) \<and> rv_socks st' (s_fd b) = rv_socks st (s_fd b)"
proof -
  have l: "session_loop zsize zd env now (Avail [] # rx) a calloc_msg w sk = Some (True, rx, a, w, sk)" for w sk
    by (simp add: session_loop.simps [of zsize zd env now "Avail [] # rx"] Let_def)
  define st1 where "st1 = rv_remove (s_fd a) (st\<lparr>rv_sessions := [a, b],
      rv_socks := (rv_socks st)(s_fd a := rv_socks st (s_fd a)), rv_rx := (rv_rx st)(s_fd a := rx)\<rparr>)"
  have h: "handle_active_cb zsize zd env now True ready 0 st = Some (False, st1)"
    using assms l by (simp add: handle_active_cb_def handle_session_def Let_def st1_def)
  have st1: "rv_sessions st1 = [b]" "rv_rx st1 (s_fd b) = rv_rx st (s_fd b)" "rv_socks st1 (s_fd b) = rv_socks st (s_fd b)"
    using assms(2) by (simp_all add: st1_def rv_remove_def)
  have "session_foreach rv_sessions (handle_active_cb zsize zd env now True ready) 0 st = Some st1"
    using assms(1) h st1(1)
    by (simp add: session_foreach.simps [of _ _ 0] session_foreach.simps [of _ _ "Suc 0"] session_count_def)
  with st1 show ?thesis by blast
qed

theorem removal_skips_next_session_witness:
  "\<exists>st'. session_foreach rv_sessions (handle_active_cb store_zsize store_zd sample_env 0 True [5, 6]) 0
      (sample_receiver\<lparr>rv_sessions := [new_session 0 5 ''a'', new_session 0 6 ''b''],
        rv_rx := (\<lambda>fd. if fd = 5 then [Avail []] else [Avail [1]])\<rparr>) = Some st' \<and> rv_rx st' 6 = [Avail [1]]"
  using removal_skips_next_session [where st = "sample_receiver\<lparr>rv_sessions := [new_session 0 5 ''a'', new_session 0 6 ''b''],
        rv_rx := (\<lambda>fd. if fd = 5 then [Avail []] else [Avail [1]])\<rparr>" and ready = "[5, 6]" and zsize = store_zsize
      and zd = store_zd and env = sample_env and now = 0]
  by (fastforce simp: new_session_def)

section \<open>Whatever arrives\<close>

text \<open>The space of \<open>decoded_msg_t.data\<close>, and what \<open>ZSTD_decompress\<close> documents: it writes at most the capacity it is given.\<close>

definition DATA_CAPACITY :: nat where "DATA_CAPACITY = 1024 * 1024 + 4096"

definition decompress_bounded :: "(bytes \<Rightarrow> nat \<Rightarrow> bytes option) \<Rightarrow> bool" where
  "decompress_bounded zd \<longleftrightarrow> (\<forall>c n p. zd c n = Some p \<longrightarrow> length p \<le> n)"

definition msg_typed :: "decoded_msg_t \<Rightarrow> bool" where
  "msg_typed m \<longleftrightarrow> length (m_data m) \<le> DATA_CAPACITY"

lemma decode_frame_typed:
  assumes "decode_frame zsize zd p out = (ok, out')" "decompress_bounded zd" "msg_typed out"
  shows "msg_typed out'"
proof (cases "\<exists>out. decode_data_frame zsize zd (drop FRAME_MAGIC_LEN p) out = (ok, out') \<and> msg_typed out")
  case True
  then obtain out where d: "decode_data_frame zsize zd (drop FRAME_MAGIC_LEN p) out = (ok, out')" "msg_typed out" by blast
  show ?thesis
  proof (cases "out' = out")
    case False
    then have "\<exists>plain n. zd (drop FRAME_MAGIC_LEN p) n = Some plain \<and> n \<le> BLOCK_SIZE_MAX + 4096 \<and>
        (m_data out' = memwrite 0 plain (m_data out) \<or>
         (\<exists>k j. m_data out' = memwrite 0 (take k (drop j (memwrite 0 plain (m_data out)))) (memwrite 0 plain (m_data out))))"
      using d(1) by (fastforce simp: decode_data_frame_def Let_def split: if_splits content_size.splits option.splits prod.splits)
    then obtain plain n where plain: "zd (drop FRAME_MAGIC_LEN p) n = Some plain" "n \<le> BLOCK_SIZE_MAX + 4096"
        "m_data out' = memwrite 0 plain (m_data out) \<or>
         (\<exists>k j. m_data out' = memwrite 0 (take k (drop j (memwrite 0 plain (m_data out)))) (memwrite 0 plain (m_data out)))" by blast
    then have l: "length plain \<le> DATA_CAPACITY" using assms(2) plain(1,2) by (force simp: decompress_bounded_def DATA_CAPACITY_def proto_consts)
    have w: "length (memwrite 0 x y) = max (length y) (length x)" for x y :: bytes by (simp add: memwrite_def)
    let ?d = "memwrite 0 plain (m_data out)"
    have m: "length ?d \<le> DATA_CAPACITY" using l d(2) by (simp add: w msg_typed_def)
    then show ?thesis using plain(3) by (auto simp: msg_typed_def w)
  qed (use d(2) in simp)
next
  case False
  then have "m_data out' = m_data out"
    using assms by (auto simp: decode_frame_def decode_ctl_frame_def split: if_splits)
  then show ?thesis using assms(3) by (simp add: msg_typed_def)
qed

lemma protocol_decode_typed:
  assumes "protocol_decode zsize zd s buf out = (rc, s', out')" "decompress_bounded zd" "session_ok s" "msg_typed out"
  shows "session_ok s' \<and> msg_typed out' \<and>
    (rc = 1 \<longrightarrow> m_type out' = DECODE_DATA_BLOCK \<longrightarrow> unat (m_data_len out') \<le> length (m_data out'))"
proof (cases "s_recv_len s + length buf \<le> RECV_BUF_SIZE")
  case True
  from protocol_decode_cut [OF assms(3) True assms(1)] show ?thesis
    using decode_frame_typed [OF _ assms(2,4)] decode_frame_len [of zsize zd _ out out'] assms(4)
    by (auto split: cut_result.splits)
next
  case False
  then have "recv_append s buf = None" using recv_append_ok [OF assms(3), of buf] by simp
  then show ?thesis using assms by (simp add: protocol_decode_def)
qed

lemma drain_frames_typed:
  assumes "drain_frames zsize zd env now x w sk = Some (rc, s', msg', w', sk')" "decompress_bounded zd"
    and "session_ok (fst (snd x))" "msg_typed (snd (snd x))"
  shows "session_ok s' \<and> msg_typed msg'"
  using assms
proof (induction zsize zd env now x w sk rule: drain_frames.induct)
  case (1 zsize zd env now r t m w sk)
  show ?case
  proof (cases "r = 1")
    case True
    then obtain t1 w1 sk1 where h: "handle_msg env now m t w sk = Some (t1, w1, sk1)"
      "drain_frames zsize zd env now (protocol_decode zsize zd t1 [] m) w1 sk1 = Some (rc, s', msg', w', sk')"
      using "1.prems"(1) by (auto simp: drain_frames.simps [of zsize zd env now r] split: option.splits)
    have "session_ok t1" using handle_msg_buffer [OF h(1)] "1.prems"(3) by (simp add: session_ok_def)
    then have "session_ok (fst (snd (protocol_decode zsize zd t1 [] m))) \<and> msg_typed (snd (snd (protocol_decode zsize zd t1 [] m)))"
      using protocol_decode_typed [of zsize zd t1 "[]" m] "1.prems"(2,4) by (cases "protocol_decode zsize zd t1 [] m") auto
    then show ?thesis using "1.IH" [OF True h(1) refl refl h(2) "1.prems"(2)] by blast
  qed (use "1.prems" in simp)
qed

lemma session_loop_typed:
  assumes "session_loop zsize zd env now rx s msg w sk = Some (removed, rx', s', w', sk')" "decompress_bounded zd"
    and "session_ok s" "msg_typed msg"
  shows "session_ok s'"
  using assms
proof (induction zsize zd env now rx s msg w sk rule: session_loop.induct)
  case (1 zsize zd env now rx s msg w sk)
  note prems = "1.prems"(1) [unfolded session_loop.simps [of zsize zd env now rx]]
  show ?case
  proof (cases "\<exists>bs rx1. rx = Avail bs # rx1 \<and> bs \<noteq> []")
    case True
    then obtain bs rx1 where rx: "rx = Avail bs # rx1" "bs \<noteq> []" by blast
    define n where "n = min RECV_CHUNK (length bs)"
    then have n: "n \<noteq> 0" using rx(2) by (simp add: RECV_CHUNK_def)
    obtain r1 s1 m1 w1 sk1 where d: "drain_frames zsize zd env now (protocol_decode zsize zd s (take n bs) msg) w sk = Some (r1, s1, m1, w1, sk1)"
      using prems rx(1) n by (auto simp: Let_def n_def [symmetric] split: option.splits)
    have "session_ok (fst (snd (protocol_decode zsize zd s (take n bs) msg))) \<and> msg_typed (snd (snd (protocol_decode zsize zd s (take n bs) msg)))"
      using protocol_decode_typed [of zsize zd s "take n bs" msg] "1.prems"(2-4) by (cases "protocol_decode zsize zd s (take n bs) msg") auto
    with drain_frames_typed [OF d "1.prems"(2)] have t: "session_ok s1" "msg_typed m1" by blast+
    show ?thesis
      using prems "1.IH" [OF rx(1) refl n_def n d refl refl refl refl refl _ _ "1.prems"(2) t] rx(1) n d t
      by (auto simp: Let_def n_def [symmetric] split: if_splits)
  qed (use prems "1.prems" in \<open>auto simp: Let_def split: list.splits recv_outcome.splits\<close>)
qed

lemma rv_remove_subset: "set (rv_sessions (rv_remove fd st)) \<subseteq> set (rv_sessions st)"
proof -
  have "set (snd (session_remove fd g)) \<subseteq> set g" for g by (induction g) (auto simp: split_beta)
  then show ?thesis by (simp add: rv_remove_def split_beta)
qed

lemma handle_session_typed:
  assumes "handle_session zsize zd env now alloc i st = Some st'" "i < length (rv_sessions st)" "decompress_bounded zd"
    and "\<forall>s \<in> set (rv_sessions st). session_ok s"
  shows "\<forall>s \<in> set (rv_sessions st'). session_ok s"
proof (cases alloc)
  case True
  let ?s = "rv_sessions st ! i"
  obtain removed rx s w sk where l: "session_loop zsize zd env now (rv_rx st (s_fd ?s)) ?s calloc_msg (rv_writer st) (rv_socks st (s_fd ?s)) = Some (removed, rx, s, w, sk)"
    using assms(1) True by (auto simp: handle_session_def Let_def split: option.splits)
  have "session_ok s" using session_loop_typed [OF l assms(3)] assms(2,4) by (simp add: msg_typed_def calloc_msg_def)
  then have "\<forall>x \<in> set ((rv_sessions st)[i := s]). session_ok x" using assms(4) set_update_subset_insert by fastforce
  moreover have "set (rv_sessions st') \<subseteq> set ((rv_sessions st)[i := s])"
    using assms(1) True l rv_remove_subset [of "s_fd ?s" "st\<lparr>rv_sessions := (rv_sessions st)[i := s], rv_writer := w,
        rv_socks := (rv_socks st)(s_fd ?s := sk), rv_rx := (rv_rx st)(s_fd ?s := rx)\<rparr>"]
    by (auto simp: handle_session_def Let_def split: if_splits)
  ultimately show ?thesis by blast
qed (use assms rv_remove_subset in \<open>fastforce simp: handle_session_def Let_def\<close>)

lemma server_run_typed:
  assumes "server_run zsize zd env mc now alloc evs running st = Some (rc, st')" "decompress_bounded zd"
    and "\<forall>s \<in> set (rv_sessions st). session_ok s"
  shows "\<forall>s \<in> set (rv_sessions st'). session_ok s"
  using assms(1,3)
proof (induction evs arbitrary: running st)
  case Nil
  then show ?case by (cases running) (auto simp: server_run_step)
next
  case (Cons e evs)
  let ?ok = "\<lambda>st. \<forall>s \<in> set (rv_sessions st). session_ok s"
  have pass: "?ok st \<longrightarrow> ?ok st'" if "session_foreach rv_sessions (handle_active_cb zsize zd env now alloc ready) i st = Some st'" for ready i st st'
    by (rule session_foreach_rel [OF that, where R = "\<lambda>st st'. ?ok st \<longrightarrow> ?ok st'"])
      (auto simp: handle_active_cb_def session_count_def split: if_splits dest: handle_session_typed [OF _ _ assms(2)])
  show ?case
  proof (cases running)
    case True
    show ?thesis
    proof (cases e)
      case (SelectReady acc ready)
      then obtain st1 where st1: "session_foreach rv_sessions (handle_active_cb zsize zd env now alloc ready) 0 (accept_conn mc now alloc acc st) = Some st1"
        "server_run zsize zd env mc now alloc evs True st1 = Some (rc, st')"
        using Cons.prems(1) True by (auto simp: server_run_step split: option.splits)
      have "?ok (accept_conn mc now alloc acc st)"
        using Cons.prems(2) by (auto simp: accept_conn_def session_create_def new_session_def session_ok_def Let_def split: option.splits)
      then show ?thesis using Cons.IH [OF st1(2)] pass [OF st1(1)] by blast
    qed (use Cons True in \<open>auto simp: server_run_step\<close>)
  qed (use Cons.prems in \<open>auto simp: server_run_step\<close>)
qed

text \<open>
  C9: No input spoils the receiver's buffers.  Through any sequence of events of the select loop and
  whatever bytes the connections deliver (frames or not), every session keeps its receive buffer within
  the 4 MB allocated for it, with no more pending bytes than were written.  And whatever bytes come
  next, decoding leaves the message within the space of \<open>decoded_msg_t\<close>, and the length of a block it
  reports is covered by the bytes decoded.
\<close>
theorem receiver_well_typed:
  assumes "server_run zsize zd env mc now alloc evs running st = Some (rc, st')" "decompress_bounded zd"
    and "\<forall>s \<in> set (rv_sessions st). session_ok s"
  shows "\<forall>s \<in> set (rv_sessions st'). session_ok s \<and>
    (\<forall>buf m. msg_typed m \<longrightarrow> (case protocol_decode zsize zd s buf m of (drc, s', m') \<Rightarrow>
       session_ok s' \<and> length (m_data m') \<le> DATA_CAPACITY \<and>
       (drc = 1 \<longrightarrow> m_type m' = DECODE_DATA_BLOCK \<longrightarrow> unat (m_data_len m') \<le> length (m_data m'))))"
proof
  fix s assume "s \<in> set (rv_sessions st')"
  then have "session_ok s" using server_run_typed [OF assms] by blast
  then show "session_ok s \<and> (\<forall>buf m. msg_typed m \<longrightarrow> (case protocol_decode zsize zd s buf m of (drc, s', m') \<Rightarrow>
       session_ok s' \<and> length (m_data m') \<le> DATA_CAPACITY \<and>
       (drc = 1 \<longrightarrow> m_type m' = DECODE_DATA_BLOCK \<longrightarrow> unat (m_data_len m') \<le> length (m_data m'))))"
    using protocol_decode_typed [OF _ assms(2)] by (fastforce simp: msg_typed_def split: prod.split)
qed

theorem receiver_well_typed_witness:
  "session_ok (hd (rv_sessions sample_receiver)) \<and>
   length (m_data (snd (snd (protocol_decode store_zsize (\<lambda>c n. Some (take n c)) (hd (rv_sessions sample_receiver)) [0, 0, 0, 4, 0x61, 0x62, 0x63, 9] calloc_msg))))
     \<le> DATA_CAPACITY"
proof -
  let ?zd = "\<lambda>c n :: nat. Some (take n c :: bytes)"
  have r: "server_run store_zsize ?zd sample_env 7 0 True [SelectEintr, Signal 15] True sample_receiver = Some (0, sample_receiver)"
    by (simp add: server_run_step signal_handler_def)
  have s: "\<forall>s \<in> set (rv_sessions sample_receiver). session_ok s" by (simp add: sample_receiver_def new_session_def session_ok_def)
  have "decompress_bounded ?zd" by (simp add: decompress_bounded_def)
  from receiver_well_typed [OF r this s] have t: "session_ok (hd (rv_sessions sample_receiver)) \<and>
      (\<forall>buf m. msg_typed m \<longrightarrow> (case protocol_decode store_zsize ?zd (hd (rv_sessions sample_receiver)) buf m of (drc, s', m') \<Rightarrow>
        session_ok s' \<and> length (m_data m') \<le> DATA_CAPACITY \<and>
        (drc = 1 \<longrightarrow> m_type m' = DECODE_DATA_BLOCK \<longrightarrow> unat (m_data_len m') \<le> length (m_data m'))))"
    by (simp add: sample_receiver_def)
  have "msg_typed calloc_msg" by (simp add: msg_typed_def calloc_msg_def)
  with t show ?thesis by (metis (mono_tags, lifting) case_prod_unfold)
qed

end
