(* ===== verification/Genuine.thy ===== *)
theory Genuine
  imports Migrate Receiver
begin

text \<open>
  What the client's operations put on the sockets and into the tracking database, whatever the
  environment does.  The source is given by \<open>blk\<close>: the block with key (device, offset) has the
  contents \<open>blk device offset\<close>.  A frame is genuine when it carries such a block (or a control message).

  \<open>client_ok blk D s\<close> is the invariant of the client in full mode, relative to a set \<open>D\<close> of keys that
  may be acknowledged; \<open>honest\<close> relates the states before and after an operation that preserves it and
  extends every socket by genuine frames only.  It is reflexive and transitive, so every operation
  of \<^verbatim>\<open>client/main.c\<close> up to an iteration of the transfer loop (\<open>transfer_block\<close>) is handled by composing
  the lemmas of its parts.
\<close>

section \<open>Sockets\<close>

text \<open>A connection on which a send has failed stays broken.\<close>

definition dead :: "send_outcome list \<Rightarrow> bool" where
  "dead script \<longleftrightarrow> list_all (\<lambda>x. x \<in> {Accepts 0, Interrupted, Fails}) script"

fun sturdy :: "send_outcome list \<Rightarrow> bool" where
  "sturdy [] = True"
| "sturdy (Accepts k # s) = (if k = 0 then dead s else sturdy s)"
| "sturdy (WouldBlock # s) = sturdy s"
| "sturdy (x # s) = dead s"

lemma dead_sturdy: "dead s \<Longrightarrow> sturdy s"
  by (cases s rule: sturdy.cases) (auto simp: dead_def)

lemma send_loop_dead:
  assumes "send_loop script out data sent = Some (rc, fd)" "dead script"
  shows "sk_out fd = out \<and> dead (sk_script fd)"
  using assms
proof (cases "sent < length data")
  case True
  show ?thesis
  proof (cases script)
    case (Cons x s)
    then show ?thesis using assms True by (cases x) (auto simp: dead_def)
  qed (use assms True in simp)
qed (use assms in auto)

lemma send_loop_sturdy:
  "\<lbrakk>send_loop script out data sent = Some (rc, fd); sturdy script; sent \<le> length data\<rbrakk> \<Longrightarrow>
    sturdy (sk_script fd) \<and> (rc = 0 \<or> dead (sk_script fd))"
proof (induction script arbitrary: out sent)
  case Nil
  then show ?case by (cases "sent < length data") auto
next
  case (Cons x s)
  show ?case
  proof (cases "sent < length data")
    case True
    consider k where "x = Accepts k" "0 < k" | "x = Accepts 0" | "x = WouldBlock" | "x = Interrupted" | "x = Fails"
      by (metis gr0I send_outcome.exhaust)
    then show ?thesis
    proof cases
      case 1
      then show ?thesis
        using Cons.prems True Cons.IH [of "out @ take k (drop sent data)" "sent + min k (length data - sent)" for k] by auto
    qed (use Cons.prems True Cons.IH [of out sent] in \<open>auto intro: dead_sturdy\<close>)
  qed (use Cons.prems in auto)
qed

section \<open>Genuine frames\<close>

definition genuine :: "(u32 \<Rightarrow> u64 \<Rightarrow> bytes) \<Rightarrow> client_msg \<Rightarrow> bool" where
  "genuine blk m = (case m of Block d off data \<Rightarrow> data = blk d off | Unknown \<Rightarrow> False | _ \<Rightarrow> True)"

text \<open>\<open>x\<close> is a beginning of genuine frames, complete unless the connection is dead.\<close>

definition genuine_frames ::
  "(int \<Rightarrow> bytes \<Rightarrow> u64 \<Rightarrow> bytes option) \<Rightarrow> (u32 \<Rightarrow> u64 \<Rightarrow> bytes) \<Rightarrow> client_msg list \<Rightarrow> bytes list \<Rightarrow> bool" where
  "genuine_frames zc blk ms fs \<longleftrightarrow> list_all2 (sent_as zc) ms fs \<and> list_all (genuine blk) ms"

definition extends ::
  "(int \<Rightarrow> bytes \<Rightarrow> u64 \<Rightarrow> bytes option) \<Rightarrow> (u32 \<Rightarrow> u64 \<Rightarrow> bytes) \<Rightarrow> sock \<Rightarrow> sock \<Rightarrow> bool" where
  "extends zc blk sk sk' \<longleftrightarrow>
     (\<exists>x rest ms fs. genuine_frames zc blk ms fs \<and> sk_out sk' = sk_out sk @ x \<and> x @ rest = concat fs \<and>
        (rest = [] \<or> dead (sk_script sk'))) \<and>
     (dead (sk_script sk) \<longrightarrow> sk_out sk' = sk_out sk \<and> dead (sk_script sk'))"

lemma genuine_frames_append:
  "\<lbrakk>genuine_frames zc blk ms fs; genuine_frames zc blk ms' fs'\<rbrakk> \<Longrightarrow> genuine_frames zc blk (ms @ ms') (fs @ fs')"
  by (auto simp: genuine_frames_def intro: list_all2_appendI)

lemma extends_refl [simp]: "extends zc blk sk sk"
  unfolding extends_def by (intro conjI exI [of _ "[]"]) (auto simp: genuine_frames_def)

lemma extends_trans:
  assumes "extends zc blk a b" "extends zc blk b c"
  shows "extends zc blk a c"
proof -
  obtain x rest ms fs where 1: "genuine_frames zc blk ms fs" "sk_out b = sk_out a @ x" "x @ rest = concat fs"
    "rest = [] \<or> dead (sk_script b)" using assms(1) unfolding extends_def by blast
  obtain y rest' ms' fs' where 2: "genuine_frames zc blk ms' fs'" "sk_out c = sk_out b @ y" "y @ rest' = concat fs'"
    "rest' = [] \<or> dead (sk_script c)" using assms(2) unfolding extends_def by blast
  have "\<exists>z rest ms fs. genuine_frames zc blk ms fs \<and> sk_out c = sk_out a @ z \<and> z @ rest = concat fs \<and>
      (rest = [] \<or> dead (sk_script c))"
  proof (cases "dead (sk_script b)")
    case True
    then have "sk_out c = sk_out a @ x" "dead (sk_script c)" using assms(2) 1(2) by (auto simp: extends_def)
    then show ?thesis using 1(1,3) by blast
  next
    case False
    then have "genuine_frames zc blk (ms @ ms') (fs @ fs')" "sk_out c = sk_out a @ (x @ y)"
      "(x @ y) @ rest' = concat (fs @ fs')" using 1 2 by (auto intro: genuine_frames_append)
    then show ?thesis using 2(4) by blast
  qed
  then show ?thesis using assms by (auto simp: extends_def)
qed

text \<open>Sending the whole or, at the end of a connection, a part of one frame.\<close>

lemma send_all_extends:
  assumes "send_all sk f = Some (rc, sk')" "sturdy (sk_script sk)" "genuine_frames zc blk [m] [f]"
  shows "extends zc blk sk sk' \<and> sturdy (sk_script sk')"
proof -
  have d: "dead (sk_script sk) \<Longrightarrow> sk_out sk' = sk_out sk \<and> dead (sk_script sk')"
    using send_loop_dead assms(1) by (auto simp: send_all_def)
  have s: "sturdy (sk_script sk')" "rc = 0 \<or> dead (sk_script sk')"
    using send_loop_sturdy assms(1,2) by (auto simp: send_all_def)
  obtain n where n: "sk_out sk' = sk_out sk @ take n f" "n = length f \<or> dead (sk_script sk')"
    using send_all_result [OF assms(1)] s(2) by (metis take_all order_refl zero_neq_neg_one)
  have "take n f @ drop n f = concat [f]" by simp
  then have "extends zc blk sk sk'"
    unfolding extends_def using n assms(3) d by (metis drop_all order_refl)
  then show ?thesis using s(1) by simp
qed


lemma wire_send_cases:
  fixes zc
  assumes "wire_send zc sk msg level scratch = Some (rc, scratch', sk')" "zstd_fits zc" "length msg < 2 ^ 40"
  shows "sk' = sk \<or> (\<exists>c. zc level msg (ZSTD_COMPRESS_BOUND (of_nat (length msg))) = Some c \<and>
    send_all sk (data_frame c) = Some (rc, sk'))"
proof (cases "sk' = sk")
  case False
  let ?b = "ZSTD_COMPRESS_BOUND (of_nat (length msg))"
  note bound = unat_ZSTD_COMPRESS_BOUND [OF assms(3)]
  have room: "?b + 3 + 4 \<le> of_nat (length scratch)" and "\<exists>c. zc level msg ?b = Some c"
    using assms(1) False by (auto simp: wire_send_def Let_def proto_consts not_less split: if_splits option.splits)
  then obtain c where c: "zc level msg ?b = Some c" by blast
  have lc: "length c \<le> length msg + length msg div 8 + 64" using assms(2) c bound by (force simp: zstd_fits_def)
  have "unat (?b + 3 + 4) = length msg + length msg div 8 + 71"
    using assms(3) bound by (simp add: unat_plus_simple unat_word_ariths)
  moreover have "unat (of_nat (length scratch) :: u64) \<le> length scratch" by (simp add: unat_of_nat take_bit_nat_less_eq_self)
  ultimately have fits: "7 + length c \<le> length scratch" using room lc by (simp add: word_le_nat_alt)
  have len64: "unat (of_nat n :: u64) = n" if "n < 2 ^ 42" for n using that by (simp add: unat_of_nat)
  have tot: "unat (7 + of_nat (length c) :: u64) = 7 + length c"
    using len64 [of "7 + length c"] lc assms(3) by simp
  have pay: "ucast (3 + of_nat (length c) :: u64) = (3 + of_nat (length c) :: u32)"
    using ucast_of_nat_32 [of "3 + length c"] by simp
  define s3 where "s3 = memwrite 0 (le32 (host_to_be32 (of_nat (3 + length c))))
      (memwrite 4 FRAME_MAGIC (memwrite 7 c scratch))"
  have "\<not> of_nat (length scratch) < ?b + of_nat FRAME_MAGIC_LEN + of_nat TCP_FRAME_HEADER_SIZE"
    using room by (simp add: proto_consts not_less)
  then have "wire_send zc sk msg level scratch = map_option (\<lambda>(rc, fd'). (rc, s3, fd')) (send_all sk (take (7 + length c) s3))"
    using c by (simp add: wire_send_def s3_def proto_consts tot pay Let_def)
  then have "map_option (\<lambda>(rc, fd'). (rc, s3, fd')) (send_all sk (data_frame c)) = Some (rc, scratch', sk')"
    using assms(1) scratch_frame [OF fits] by (simp add: s3_def)
  then show ?thesis using c by auto
qed simp

section \<open>The client's invariant\<close>

definition entry_ok :: "(u32 \<Rightarrow> u64 \<Rightarrow> bytes) \<Rightarrow> queue_entry_t \<Rightarrow> bool" where
  "entry_ok blk e \<longleftrightarrow> (\<forall>p. e_payload e = Some p \<longrightarrow>
     take (e_payload_len e) p = block_encoding (e_devno e) (e_offset e) (blk (e_devno e) (e_offset e)))"

definition block_hash :: "(u32 \<Rightarrow> u64 \<Rightarrow> bytes) \<Rightarrow> u32 \<times> u64 \<Rightarrow> u64" where
  "block_hash blk k = (case k of (d, off) \<Rightarrow> hash_block (blk d off) (length (blk d off)) (hash_seed off))"

definition tracked_ok :: "(u32 \<Rightarrow> u64 \<Rightarrow> bytes) \<Rightarrow> (u32 \<times> u64) set \<Rightarrow> sqlite_db \<Rightarrow> bool" where
  "tracked_ok blk D db \<longleftrightarrow> (\<forall>k h a. view db k = Some (h, a) \<longrightarrow> h = block_hash blk k \<and> (a \<longrightarrow> k \<in> D))"

definition acks_in :: "(u32 \<times> u64) set \<Rightarrow> server_response_t list \<Rightarrow> bool" where
  "acks_in D rs \<longleftrightarrow> (\<forall>r \<in> set rs. is_ack r \<longrightarrow> resp_key r \<in> D)"

definition client_ok :: "(u32 \<Rightarrow> u64 \<Rightarrow> bytes) \<Rightarrow> (u32 \<times> u64) set \<Rightarrow> client \<Rightarrow> bool" where
  "client_ok blk D s \<longleftrightarrow> \<not> m_dry_run s \<and> \<not> m_tail_send s \<and> writer_ok (m_writer s) \<and>
     queue_ok (m_queue s) \<and> list_all (entry_ok blk) (q_entries (m_queue s)) \<and> tracked_ok blk D (m_db s) \<and>
     (\<forall>fd. sturdy (sk_script (x_socks s fd))) \<and> (\<forall>fd. \<exists>rs. x_rx s fd = rx_of rs \<and> acks_in D rs)"

definition honest ::
  "(int \<Rightarrow> bytes \<Rightarrow> u64 \<Rightarrow> bytes option) \<Rightarrow> (u32 \<Rightarrow> u64 \<Rightarrow> bytes) \<Rightarrow> (u32 \<times> u64) set \<Rightarrow> client \<Rightarrow> client \<Rightarrow> bool" where
  "honest zc blk D s s' \<longleftrightarrow> (client_ok blk D s \<longrightarrow> client_ok blk D s' \<and> x_disk s' = x_disk s \<and>
     (\<forall>fd. extends zc blk (x_socks s fd) (x_socks s' fd)))"

text \<open>The source holds blocks of at most 1 MB, and the compressor keeps to its capacity.\<close>

definition sendable :: "(int \<Rightarrow> bytes \<Rightarrow> u64 \<Rightarrow> bytes option) \<Rightarrow> (u32 \<Rightarrow> u64 \<Rightarrow> bytes) \<Rightarrow> bool" where
  "sendable zc blk \<longleftrightarrow> zstd_fits zc \<and> (\<forall>d off. length (blk d off) \<le> BLOCK_SIZE)"

lemma honest_refl [simp]: "honest zc blk D s s"
  by (simp add: honest_def)

lemma honest_trans: "\<lbrakk>honest zc blk D a b; honest zc blk D b c\<rbrakk> \<Longrightarrow> honest zc blk D a c"
  unfolding honest_def by (metis extends_trans)

text \<open>Fields the invariant does not mention.\<close>

lemma honest_other [simp]:
  "honest zc blk D s (s\<lparr>x_tick := n\<rparr>)" "honest zc blk D s (s\<lparr>m_pool := p\<rparr>)" "honest zc blk D s (s\<lparr>m_timer := tm\<rparr>)"
  "honest zc blk D s (s\<lparr>m_server_done_rcvd := b\<rparr>)"
  by (simp_all add: honest_def client_ok_def)

lemma honest_ask [simp]: "honest zc blk D s (snd (ask f s))" "honest zc blk D s t \<Longrightarrow> honest zc blk D s (snd (ask f t))"
  using honest_trans by (auto simp: ask_def)

lemma honest_queue:
  assumes "\<And>q. queue_ok q \<Longrightarrow> list_all (entry_ok blk) (q_entries q) \<Longrightarrow> queue_ok (f q) \<and> list_all (entry_ok blk) (q_entries (f q))"
  shows "honest zc blk D s (s\<lparr>m_queue := f (m_queue s)\<rparr>)"
  using assms by (simp add: honest_def client_ok_def)

section \<open>Acknowledgements\<close>

lemma ack_entries_ok: "list_all (entry_ok blk) es \<Longrightarrow> list_all (entry_ok blk) (ack_entries d off es)"
  by (induction es) (auto simp: entry_ok_def)

lemma tracked_ok_mark:
  assumes "tracked_ok blk D db" "(d, off) \<in> D"
  shows "tracked_ok blk D (snd (sqlite_block_mark_acked eng db d off))"
  using assms exec_view [of "MarkAcked eng d off" db] by (cases eng) (auto simp: tracked_ok_def split: if_splits)

lemma tracked_ok_upsert:
  assumes "tracked_ok blk D db"
  shows "tracked_ok blk D (snd (sqlite_block_upsert_v eng db d off sz (block_hash blk (d, off)) 0 v))"
  using assms exec_view [of "Upsert eng d off sz (block_hash blk (d, off)) 0 v" db]
  by (cases eng) (auto simp: tracked_ok_def split: if_splits)

lemma run_sql_honest:
  assumes "\<And>eng db. tracked_ok blk D db \<Longrightarrow> tracked_ok blk D (snd (stmt eng db))"
  shows "honest zc blk D s (run_sql stmt s)"
  using assms by (simp add: honest_def client_ok_def run_sql_def ask_def)

lemma handle_response_honest:
  assumes "is_ack r \<longrightarrow> resp_key r \<in> D"
  shows "honest zc blk D s (handle_response r s)"
proof (cases "is_ack r")
  case True
  let ?s = "s\<lparr>m_queue := queue_ack (m_queue s) (r_devno r) (r_offset r)\<rparr>"
  have "honest zc blk D s ?s" by (rule honest_queue) (simp add: queue_ack_ok, simp add: queue_ack_def ack_entries_ok)
  moreover have "honest zc blk D ?s (mark_acked (r_devno r) (r_offset r) ?s)"
    using assms True tracked_ok_mark by (auto simp: mark_acked_def resp_key_def intro: run_sql_honest)
  ultimately show ?thesis
    using True honest_trans by (fastforce simp: handle_response_def is_ack_def ack_block_def Let_def)
next
  case False
  then show ?thesis by (simp add: handle_response_def is_ack_def)
qed

lemma ack_loop_honest: "honest zc blk D s (ack_loop fd s)"
proof (cases "client_ok blk D s")
  case True
  then obtain rs where rs: "x_rx s fd = rx_of rs" "acks_in D rs" by (auto simp: client_ok_def)
  have "honest zc blk D t (fold handle_response rs t)" if "acks_in D rs" for rs t
    using that by (induction rs arbitrary: t) (auto simp: acks_in_def intro: honest_trans handle_response_honest)
  then have "honest zc blk D s (fold handle_response rs s)" using rs(2) by blast
  moreover have "honest zc blk D t (t\<lparr>x_rx := (x_rx u)(fd := [])\<rparr>)" if "x_rx u = x_rx t" for t u
    using that unfolding honest_def client_ok_def
    by (auto simp: acks_in_def rx_of_def intro: exI [of _ "[]"])
  moreover have "x_rx (fold handle_response rs t) = x_rx t" for t by (induction rs arbitrary: t) simp_all
  ultimately show ?thesis unfolding ack_loop_rx_of [OF rs(1)] by (metis honest_trans)
qed (simp add: honest_def)

lemma fold_honest: "(\<And>x t. honest zc blk D t (f x t)) \<Longrightarrow> honest zc blk D s (fold f xs s)"
  by (induction xs arbitrary: s) (auto intro: honest_trans)

lemma process_ack_honest: "honest zc blk D s (process_ack s)"
proof (cases "client_ok blk D s")
  case True
  then have "\<not> m_dry_run s" by (simp add: client_ok_def)
  then show ?thesis
    unfolding process_ack_def by (simp add: Let_def) (rule fold_honest, simp add: ack_loop_honest)
qed (simp add: honest_def)

section \<open>Sending\<close>

lemma sent_block:
  assumes "sendable zc blk" "wire_send zc sk (block_encoding d off (blk d off)) level scratch = Some (rc, scratch', sk')"
    and "sturdy (sk_script sk)"
  shows "extends zc blk sk sk' \<and> sturdy (sk_script sk')"
proof -
  have len: "length (blk d off) \<le> BLOCK_SIZE" and fits: "zstd_fits zc" using assms(1) by (simp_all add: sendable_def)
  have "length (block_encoding d off (blk d off)) < 2 ^ 40"
    using length_block_encoding [of d off "blk d off"] len by (simp add: BLOCK_SIZE_def)
  from wire_send_cases [OF assms(2) fits this] show ?thesis
  proof
    assume "\<exists>c. zc level (block_encoding d off (blk d off)) (ZSTD_COMPRESS_BOUND (of_nat (length (block_encoding d off (blk d off))))) = Some c \<and>
      send_all sk (data_frame c) = Some (rc, sk')"
    then obtain c where c: "zc level (block_encoding d off (blk d off)) (ZSTD_COMPRESS_BOUND (of_nat (length (block_encoding d off (blk d off))))) = Some c"
      "send_all sk (data_frame c) = Some (rc, sk')" by blast
    have "genuine_frames zc blk [Block d off (blk d off)] [data_frame c]"
      using c(1) len by (auto simp: genuine_frames_def sent_as_def genuine_def Let_def BLOCK_SIZE_def proto_consts)
    from send_all_extends [OF c(2) assms(3) this] show ?thesis .
  qed (use assms(3) in simp)
qed

lemma honest_socket:
  assumes "extends zc blk (x_socks s fd) sk \<and> sturdy (sk_script sk)" "honest zc blk D (s\<lparr>x_socks := (x_socks s)(fd := sk)\<rparr>) s'"
  shows "honest zc blk D s s'"
proof -
  have "honest zc blk D s (s\<lparr>x_socks := (x_socks s)(fd := sk)\<rparr>)" using assms(1) by (auto simp: honest_def client_ok_def)
  then show ?thesis using assms(2) by (rule honest_trans)
qed

lemma rate_window_honest: "honest zc blk D s (rate_window n s)"
  by (simp add: honest_def client_ok_def rate_window_def ask_def Let_def)

lemma send_entry_honest:
  assumes "sendable zc blk" "entry_ok blk e" "send_entry zc i e s = Some (rc, s')"
  shows "honest zc blk D s s'"
proof (cases "client_ok blk D s")
  case True
  let ?fd = "c_fd (p_conns (m_pool s) ! i)"
  obtain p rc1 scratch sk where p: "e_payload e = Some p" and
    w: "wire_send zc (x_socks s ?fd) (take (e_payload_len e) p) (m_zstd_level s)
        (case c_send_scratch (p_conns (m_pool s) ! i) of None \<Rightarrow> [] | Some b \<Rightarrow> b) = Some (rc1, scratch, sk)"
    using assms(3) by (auto simp: send_entry_def Let_def split: option.splits)
  have "extends zc blk (x_socks s ?fd) sk \<and> sturdy (sk_script sk)"
    using sent_block [OF assms(1)] w p assms(2) True by (simp add: entry_ok_def client_ok_def)
  moreover have "honest zc blk D (s\<lparr>x_socks := (x_socks s)(?fd := sk)\<rparr>) s'"
    using assms(3) p w
    by (auto simp: send_entry_def ask_def upd_conn_def release_def Let_def split: if_splits
        intro!: honest_trans [OF _ rate_window_honest]) (simp_all add: honest_def client_ok_def)
  ultimately show ?thesis by (rule honest_socket)
qed (simp add: honest_def)

lemma flush_one_honest:
  assumes "sendable zc blk" "flush_one zc s = Some (rc, s')"
  shows "honest zc blk D s s'"
proof (cases "client_ok blk D s")
  case True
  then have q: "queue_ok (m_queue s)" "list_all (entry_ok blk) (q_entries (m_queue s))" "\<not> m_dry_run s"
    by (simp_all add: client_ok_def)
  obtain prc e q where pop: "queue_pop (m_queue s) zero_entry = (prc, e, q)" by (metis prod_cases3)
  show ?thesis
  proof (cases "q_count (m_queue s) = 0")
    case True
    then show ?thesis using assms(2) pop by (auto simp: flush_one_def queue_pop_def)
  next
    case False
    then have e: "prc = 0" "queue_ok q" "q_entries q = q_entries (m_queue s)" "entry_ok blk e"
      using pop_ok [OF q(1) pop] pop q by (auto simp: queue_pop_def Let_def queue_ok_def list_all_length split: if_splits)
    have "honest zc blk D s (s\<lparr>m_queue := q\<rparr>)" using e q by (simp add: honest_def client_ok_def)
    moreover have "honest zc blk D t (snd (acquire t))" for t
      by (simp add: honest_def client_ok_def acquire_def ask_def split: prod.split)
    ultimately have a: "honest zc blk D s (snd (acquire (s\<lparr>m_queue := q\<rparr>)))" using honest_trans by blast
    obtain c s1 where "acquire (s\<lparr>m_queue := q\<rparr>) = (c, s1)" by fastforce
    then show ?thesis
      using assms(2) pop e(1) q(3) a honest_trans [OF _ send_entry_honest [OF assms(1) e(4)]]
      by (auto simp: flush_one_def split: option.splits)
  qed
qed (simp add: honest_def)

lemma drain_honest: "\<lbrakk>drain zc s = Some s'; sendable zc blk\<rbrakk> \<Longrightarrow> honest zc blk D s s'"
proof (induction zc s arbitrary: s' rule: drain.induct)
  case (1 zc s)
  then obtain rc s1 where f: "flush_one zc s = Some (rc, s1)" by (auto simp: drain.simps [of zc s] split: option.splits)
  then have "honest zc blk D s1 s'"
    using "1.IH" [OF f refl _ _ "1.prems"(2)] "1.prems"(1) by (cases "rc > 0") (auto simp: drain.simps [of zc s])
  with flush_one_honest [OF "1.prems"(2) f] show ?case by (rule honest_trans)
qed

lemma force_drain_honest: "\<lbrakk>force_drain zc s = Some s'; sendable zc blk\<rbrakk> \<Longrightarrow> honest zc blk D s s'"
proof (induction zc s arbitrary: s' rule: force_drain.induct)
  case (1 zc s)
  let ?t = "snd (ask x_running s)"
  consider "s' = s" | "s' = ?t" | s2 where "queue_count (m_queue s) > 0" "fst (ask x_running s)" "drain zc ?t = Some s2"
      "force_drain zc (process_ack s2) = Some s'"
    using "1.prems"(1) by (auto simp: force_drain.simps [of zc s] split: if_splits option.splits prod.splits)
  then show ?case
  proof cases
    case 3
    then have "honest zc blk D (process_ack s2) s'" using "1.IH" [OF 3(1) refl prod.collapse _ 3(3) 3(4) "1.prems"(2)] 3(2) by simp
    moreover have "honest zc blk D s s2" using honest_trans drain_honest [OF 3(3) "1.prems"(2)] honest_ask(1) by blast
    ultimately show ?thesis using honest_trans process_ack_honest by blast
  qed simp_all
qed

lemma push_entries_ok:
  assumes "queue_ok q" "list_all (entry_ok blk) (q_entries q)" "payload = block_encoding d off (blk d off)"
  shows "queue_ok (snd (queue_push al q d off h payload)) \<and> list_all (entry_ok blk) (q_entries (snd (queue_push al q d off h payload)))"
proof
  show "list_all (entry_ok blk) (q_entries (snd (queue_push al q d off h payload)))"
    using assms(2,3) set_update_subset_insert by (fastforce simp: queue_push_def Let_def list_all_iff entry_ok_def)
  show "queue_ok (snd (queue_push al q d off h payload))"
    using push_ok(1) [OF assms(1) prod.collapse [symmetric]] assms(1)
    by (cases "fst (queue_push al q d off h payload) = -1") (auto simp: queue_push_def Let_def split: if_splits)
qed

lemma queue_push_honest:
  assumes "payload = block_encoding d off (blk d off)" "queue_push al (m_queue s) d off h payload = (rc, q)"
  shows "honest zc blk D s (s\<lparr>m_queue := q\<rparr>)"
proof -
  have q: "q = snd (queue_push al (m_queue s) d off h payload)" using assms(2) by simp
  show ?thesis unfolding q by (rule honest_queue) (rule push_entries_ok [where blk = blk, OF _ _ assms(1)])
qed

lemma push_retry_honest:
  assumes "push_retry zc d off h payload retry s = Some (ok, s')"
    and "payload = block_encoding d off (blk d off)" "sendable zc blk"
  shows "honest zc blk D s s'"
proof -
  have "payload = block_encoding d off (blk d off) \<longrightarrow> sendable zc blk \<longrightarrow> honest zc blk D s (snd (ok, s'))"
  proof (rule push_retry.raw_induct [OF _ assms(1)], intro impI)
    fix rec zc d off h payload retry s r
    assume ih: "\<And>zc d off h payload retry s r. rec zc d off h payload retry s = Some r \<Longrightarrow>
        payload = block_encoding d off (blk d off) \<longrightarrow> sendable zc blk \<longrightarrow> honest zc blk D s (snd r)"
      and body: "(let (al, s) = ask x_alloc s; (rc, q) = queue_push al (m_queue s) d off h payload; s = s\<lparr>m_queue := q\<rparr>
         in if rc = 0 then Some (True, s)
            else let (run, s) = ask x_running s in
              if \<not> run then Some (False, s)
              else if rc = 2 \<or> rc = -1 then
                case drain zc s of None \<Rightarrow> None
                | Some s \<Rightarrow> let s = process_ack s in
                    if retry + 1 > 600 then case force_drain zc s of None \<Rightarrow> None | Some s \<Rightarrow> rec zc d off h payload 0 s
                    else rec zc d off h payload (retry + 1) s
              else rec zc d off h payload retry s) = Some r"
      and pl: "payload = block_encoding d off (blk d off)" and sb: "sendable zc blk"
    define t where "t = snd (ask x_alloc s)"
    obtain rc q where push: "queue_push (fst (ask x_alloc s)) (m_queue t) d off h payload = (rc, q)" by fastforce
    define u where "u = t\<lparr>m_queue := q\<rparr>"
    define v where "v = snd (ask x_running u)"
    have u: "honest zc blk D s u" unfolding u_def t_def
      using honest_trans queue_push_honest [where blk = blk, OF pl push [unfolded t_def]] honest_ask(1) by blast
    then have v: "honest zc blk D s v" by (simp add: v_def)
    have rec: "honest zc blk D s (snd r)" if "rec zc d off h payload n x = Some r" "honest zc blk D s x" for n x
      using ih [OF that(1)] pl sb that(2) honest_trans by blast
    have w: "honest zc blk D s (process_ack x)" if "drain zc v = Some x" for x
      using honest_trans v drain_honest [OF that sb] process_ack_honest by blast
    have y: "honest zc blk D s x" if "drain zc v = Some z" "force_drain zc (process_ack z) = Some x" for x z
      using honest_trans w [OF that(1)] force_drain_honest [OF that(2) sb] by blast
    show "honest zc blk D s (snd r)"
      using body push u v rec w y
      by (auto simp: split_beta Let_def t_def [symmetric] u_def [symmetric] v_def [symmetric] split: if_splits option.splits)
  qed
  with assms(2,3) show ?thesis by simp
qed

lemma queue_block_honest:
  assumes "queue_block zc d off (blk d off) (block_hash blk (d, off)) s = Some (rc, s')" "sendable zc blk"
  shows "honest zc blk D s s'"
proof (cases "client_ok blk D s")
  case True
  define t where "t = snd (ask x_alloc s)"
  have len: "unat (of_nat (length (blk d off)) :: u32) = length (blk d off)"
  proof -
    have "length (blk d off) < 2 ^ 32" using assms(2) le_less_trans [of "length (blk d off)" BLOCK_SIZE] by (simp add: sendable_def BLOCK_SIZE_def)
    then show ?thesis by (simp add: unat_of_nat)
  qed
  obtain wrc w where w: "msgpack_encode_block (\<lambda>_. fst (ask x_alloc s)) (m_writer t) d off (blk d off) (of_nat (length (blk d off))) = Some (wrc, w)"
    using assms(1) by (auto simp: queue_block_def t_def split_beta Let_def split: option.splits)
  have enc: "writer_ok w" "wrc = 0 \<Longrightarrow> w_contents w = block_encoding d off (blk d off)"
    using msgpack_encode_block_appends [of "m_writer t" "of_nat (length (blk d off))" "blk d off" "\<lambda>_. fst (ask x_alloc s)" d off] True w
    by (auto simp: appends_def len t_def ask_def client_ok_def w_contents_def split: option.splits)
  have u: "honest zc blk D s (t\<lparr>m_writer := w\<rparr>)" using enc(1) by (simp add: honest_def client_ok_def t_def ask_def)
  show ?thesis
  proof (cases "wrc = 0")
    case False
    then show ?thesis using assms(1) w u by (simp add: queue_block_def t_def split_beta Let_def)
  next
    case True
    then obtain ok v where p: "push_retry zc d off (block_hash blk (d, off)) (w_contents w) 0 (t\<lparr>m_writer := w\<rparr>) = Some (ok, v)"
      using assms(1) w by (auto simp: queue_block_def t_def split_beta Let_def split: option.splits)
    have v: "honest zc blk D s v" using honest_trans u push_retry_honest [OF p enc(2) [OF True] assms(2)] by blast
    have "honest zc blk D v (run_sql (\<lambda>eng db. sqlite_block_upsert_v eng db d off sz (block_hash blk (d, off)) 0 ver) v)" for sz ver
      by (intro run_sql_honest tracked_ok_upsert)
    then show ?thesis
      using assms(1) w True p v honest_trans by (cases ok) (auto simp: queue_block_def t_def split_beta Let_def)
  qed
qed (simp add: honest_def)

lemma send_block_honest:
  assumes "send_block zc reader d off roff s = Some (rc, s')" "sendable zc blk"
    and "\<And>data. block_reader_read (x_disk s (x_tick s)) reader roff (of_nat BLOCK_SIZE) = (0, data) \<Longrightarrow> data \<noteq> [] \<Longrightarrow> data = blk d off"
  shows "honest zc blk D s s'"
proof (cases "client_ok blk D s")
  case True
  obtain rrc data where r: "block_reader_read (x_disk s (x_tick s)) reader roff (of_nat BLOCK_SIZE) = (rrc, data)" by fastforce
  let ?t = "s\<lparr>x_tick := x_tick s + 2\<rparr>"
  show ?thesis
  proof (cases "rrc = 0 \<and> data \<noteq> [] \<and> sqlite_block_acked (x_sql s (x_tick s + 1)) (m_db s) d off \<noteq> 1")
    case sent: True
    then have "data = blk d off" using assms(3) r by auto
    then have "queue_block zc d off (blk d off) (block_hash blk (d, off)) ?t = Some (rc, s')"
      using assms(1) r sent True by (simp add: send_block_def ask_def Let_def block_hash_def client_ok_def)
    then show ?thesis using honest_trans queue_block_honest assms(2) honest_other(1) by blast
  next
    case False
    then show ?thesis using assms(1) r by (auto simp: send_block_def ask_def Let_def split: if_splits)
  qed
qed (simp add: honest_def)

section \<open>Reconnection\<close>

lemma do_reconnect_honest:
  assumes "do_reconnect s = Some s'"
  shows "honest zc blk D s s'"
proof -
  have aq: "honest zc blk D s (snd (acquire s))" for s
    by (simp add: honest_def client_ok_def acquire_def ask_def split: prod.split)
  have loop: "honest zc blk D t t'" if "reconnect_loop t = Some t'" for t t'
  proof (rule reconnect_loop.raw_induct [OF _ that])
    fix rec s r
    assume ih: "\<And>s r. rec s = Some r \<Longrightarrow> honest zc blk D s r"
      and body: "(if pool_count (m_pool s) < int SOCKET_POOL_TARGET then
          (case acquire s of (None, s') \<Rightarrow> Some s' | (Some i, s') \<Rightarrow> rec (release i s')) else Some s) = Some r"
    obtain c s1 where a: "acquire s = (c, s1)" by fastforce
    have s1: "honest zc blk D s s1" using aq [of s] a by simp
    have "honest zc blk D s r" if "rec (release i s1) = Some r" for i
      using honest_trans [OF s1 honest_trans [OF _ ih [OF that]]] by (simp add: release_def)
    then show "honest zc blk D s r" using body a s1 by (auto split: if_splits option.splits)
  qed
  then show ?thesis
    using assms honest_trans [OF honest_trans [OF honest_ask(1) honest_other(2)] loop]
    by (auto simp: do_reconnect_def split_beta Let_def split: if_splits)
qed

section \<open>The transfer loop\<close>

text \<open>A reader shows the source: whenever it delivers data for a disk offset, this is the block there.\<close>

definition entry_source :: "(u32 \<Rightarrow> u64 \<Rightarrow> bytes) \<Rightarrow> (nat \<Rightarrow> nat \<Rightarrow> u64 \<Rightarrow> u32 \<Rightarrow> bytes option) \<Rightarrow> reader_entry_t \<Rightarrow> bool" where
  "entry_source blk disk e \<longleftrightarrow> (\<forall>t off data.
     block_reader_read (disk t) (re_reader e) (if re_is_vss e then off - re_partition_offset e else off) (of_nat BLOCK_SIZE) = (0, data) \<longrightarrow>
     data \<noteq> [] \<longrightarrow> data = blk (re_devno e) off)"

lemma honest_disk: "\<lbrakk>honest zc blk D s t; client_ok blk D s\<rbrakk> \<Longrightarrow> x_disk t = x_disk s"
  by (simp add: honest_def)

text \<open>To show that an operation is honest one may use the invariant, and that the disk is the one of an earlier state.\<close>

lemma honest_after:
  assumes "honest zc blk D r s" "client_ok blk D r \<Longrightarrow> x_disk s = x_disk r \<Longrightarrow> honest zc blk D s s'"
  shows "honest zc blk D r s'"
proof (cases "client_ok blk D r")
  case True
  from honest_trans [OF assms(1) assms(2) [OF True honest_disk [OF assms(1) True]]] show ?thesis .
qed (simp add: honest_def)

lemma send_from_source:
  assumes "send_block zc (re_reader e) (re_devno e) off (if re_is_vss e then off - re_partition_offset e else off) s = Some (rc, s')"
    and "sendable zc blk" "entry_source blk (x_disk s) e"
  shows "honest zc blk D s s'"
  using assms(3) by (intro send_block_honest [OF assms(1,2)]) (auto simp: entry_source_def)

lemma retransmit_loop_honest:
  assumes "retransmit_loop zc readers keys s = Some s'" "sendable zc blk" "list_all (entry_source blk (x_disk s)) readers"
  shows "honest zc blk D s s'"
  using assms
proof (induction keys arbitrary: s)
  case (Cons k keys)
  obtain d off where k: "k = (d, off)" by fastforce
  define t where "t = snd (ask x_running s)"
  have t: "honest zc blk D s t" "x_disk t = x_disk s" by (simp_all add: t_def, simp add: ask_def)
  show ?case
  proof (cases "find (covers d off) readers")
    case None
    then show ?thesis
      using Cons honest_trans [OF t(1)] t(2) by (auto simp: k t_def split_beta Let_def split: if_splits)
  next
    case (Some e)
    then have e: "re_devno e = d" "entry_source blk (x_disk t) e"
      using Cons.prems(3) t(2) by (auto simp: find_Some_iff covers_def list_all_length)
    show ?thesis
    proof (cases "fst (ask x_running s)")
      case False
      then show ?thesis using Cons.prems(1) t(1) by (simp add: k split_beta t_def)
    next
      case True
      then obtain rc u where u: "send_block zc (re_reader e) d off (if re_is_vss e then off - re_partition_offset e else off) t = Some (rc, u)"
          "retransmit_loop zc readers keys u = Some s'"
        using Cons.prems(1) Some by (auto simp: k split_beta t_def Let_def split: option.splits)
      have "honest zc blk D s u" using honest_trans [OF t(1)] send_from_source [of zc e off t rc u] u(1) e Cons.prems(2) by blast
      then show ?thesis using Cons.IH [OF u(2)] Cons.prems(2,3) by (elim honest_after) simp
    qed
  qed
qed simp

lemma wait_backpressure_honest: "\<lbrakk>wait_backpressure zc s = Some s'; sendable zc blk\<rbrakk> \<Longrightarrow> honest zc blk D s s'"
proof (induction zc s arbitrary: s' rule: wait_backpressure.induct)
  case (1 zc s)
  let ?t = "snd (ask x_running s)"
  consider "s' = s" | "s' = ?t" | s2 where "queue_should_backpressure (m_queue s)" "fst (ask x_running s)"
      "drain zc (process_ack ?t) = Some s2" "wait_backpressure zc s2 = Some s'"
    using "1.prems"(1) by (auto simp: wait_backpressure.simps [of zc s] split: if_splits option.splits prod.splits)
  then show ?case
  proof cases
    case 3
    have "honest zc blk D s2 s'" using "1.IH" [OF 3(1) refl prod.collapse _ 3(3) 3(4) "1.prems"(2)] 3(2) by simp
    moreover have "honest zc blk D ?t s2" using honest_trans [OF process_ack_honest drain_honest [OF 3(3) "1.prems"(2)]] .
    ultimately show ?thesis using honest_trans [OF honest_ask(1)] honest_trans by blast
  qed simp_all
qed

lemma full_timer_honest:
  assumes "full_timer zc readers ev s = Some s'" "sendable zc blk" "list_all (entry_source blk (x_disk s)) readers"
  shows "honest zc blk D s s'"
proof (cases "client_ok blk D s")
  case True
  then have m: "\<not> m_tail_send s" "\<not> m_dry_run s" by (simp_all add: client_ok_def)
  have r: "honest zc blk D s s'" if re: "do_retransmit zc readers s = Some s'"
  proof -
    obtain keys where "retransmit_loop zc readers keys (snd (ask x_sql s)) = Some s'"
      using re by (auto simp: do_retransmit_def split_beta Let_def)
    from retransmit_loop_honest [OF this assms(2)] assms(3) show ?thesis
      using honest_trans [OF honest_ask(1)] by (simp add: ask_def)
  qed
  show ?thesis using assms(1) m r do_reconnect_honest by (auto simp: full_timer_def split: timer_event_t.splits)
qed (simp add: honest_def)

lemma timer_loop_honest:
  assumes "timer_loop leave h now s = Some s'"
    and "\<And>ev s s'. h ev s = Some s' \<Longrightarrow> x_disk s = disk \<Longrightarrow> honest zc blk D s s'" "x_disk s = disk"
  shows "honest zc blk D s s'"
proof -
  have "(\<forall>ev s s'. h ev s = Some s' \<longrightarrow> x_disk s = disk \<longrightarrow> honest zc blk D s s') \<longrightarrow> x_disk s = disk \<longrightarrow> honest zc blk D s s'"
  proof (rule timer_loop.raw_induct [OF _ assms(1)], intro impI)
    fix rec leave h now s r
    assume ih: "\<And>leave h now s r. rec leave h now s = Some r \<Longrightarrow>
        (\<forall>ev s s'. h ev s = Some s' \<longrightarrow> x_disk s = disk \<longrightarrow> honest zc blk D s s') \<longrightarrow> x_disk s = disk \<longrightarrow> honest zc blk D s r"
      and body: "(let ev = timer_check (m_timer s) now in
        if ev = TIMER_NONE then Some s
        else case h ev s of None \<Rightarrow> None
          | Some s \<Rightarrow> let (t, s) = ask x_clock s; s = s\<lparr>m_timer := timer_reset t (m_timer s) ev\<rparr>
              in if leave \<and> m_all_done s then Some s else let (now, s) = ask x_clock s in rec leave h now s) = Some r"
      and h: "\<forall>ev s s'. h ev s = Some s' \<longrightarrow> x_disk s = disk \<longrightarrow> honest zc blk D s s'" and d: "x_disk s = disk"
    show "honest zc blk D s r"
    proof (cases "timer_check (m_timer s) now = TIMER_NONE")
      case True
      then show ?thesis using body by simp
    next
      case False
      then obtain s1 where s1: "h (timer_check (m_timer s) now) s = Some s1" using body by (auto simp: Let_def split: option.splits)
      define t where "t = (snd (ask x_clock s1))\<lparr>m_timer := timer_reset (fst (ask x_clock s1)) (m_timer (snd (ask x_clock s1))) (timer_check (m_timer s) now)\<rparr>"
      have s1h: "honest zc blk D s s1" using h s1 d by blast
      have t: "honest zc blk D s t" unfolding t_def by (rule honest_trans [OF honest_ask(2) [OF s1h] honest_other(3)])
      have "r = t \<or> rec leave h (fst (ask x_clock t)) (snd (ask x_clock t)) = Some r"
        using body False s1 by (auto simp: Let_def split_beta t_def split: if_splits)
      then show ?thesis
      proof
        assume rec: "rec leave h (fst (ask x_clock t)) (snd (ask x_clock t)) = Some r"
        show ?thesis
          by (rule honest_after [OF honest_ask(2) [OF t]]) (use ih [OF rec] h d in blast)
      qed (use t in simp)
    qed
  qed
  with assms(2,3) show ?thesis by blast
qed

lemma transfer_block_honest:
  assumes "transfer_block zc readers e b s = Some (ok, s')" "sendable zc blk"
    and "entry_source blk (x_disk s) e" "list_all (entry_source blk (x_disk s)) readers"
  shows "honest zc blk D s s'"
proof -
  let ?off = "re_partition_offset e + b * of_nat BLOCK_SIZE"
  have roff: "(if re_is_vss e then b * of_nat BLOCK_SIZE else ?off) = (if re_is_vss e then ?off - re_partition_offset e else ?off)" by simp
  obtain s1 rc s2 s3 where w: "wait_backpressure zc s = Some s1"
    "send_block zc (re_reader e) (re_devno e) ?off (if re_is_vss e then ?off - re_partition_offset e else ?off) s1 = Some (rc, s2)"
    "drain zc s2 = Some s3"
    "timer_loop False (full_timer zc readers) (fst (ask x_clock (process_ack s3))) (snd (ask x_clock (process_ack s3))) = Some s'"
    using assms(1) unfolding transfer_block_def Let_def roff by (auto simp: split_beta split: option.splits)
  have "honest zc blk D s s2"
    by (rule honest_after [OF wait_backpressure_honest [OF w(1) assms(2)]])
      (rule send_from_source [OF w(2) assms(2)], use assms(3) in simp)
  then have "honest zc blk D s s3" by (rule honest_trans) (rule drain_honest [OF w(3) assms(2)])
  then have "honest zc blk D s (snd (ask x_clock (process_ack s3)))" by (intro honest_ask(2) honest_trans [OF _ process_ack_honest])
  then show ?thesis
    by (rule honest_after) (rule timer_loop_honest [OF w(4), where disk = "x_disk s"], auto intro: full_timer_honest assms(2) simp: assms(4))
qed

lemma transfer_blocks_honest:
  assumes "transfer_blocks zc readers e b k sent s = Some (n, s')" "sendable zc blk"
    and "entry_source blk (x_disk s) e" "list_all (entry_source blk (x_disk s)) readers"
  shows "honest zc blk D s s'"
  using assms
proof (induction k arbitrary: b sent s)
  case (Suc k)
  let ?t = "snd (ask x_running s)"
  have d: "x_disk ?t = x_disk s" by (simp add: ask_def)
  consider "s' = ?t" | ok u m where "transfer_block zc readers e b ?t = Some (ok, u)" "transfer_blocks zc readers e (b + 1) k m u = Some (n, s')"
    using Suc.prems(1) by (auto simp: split_beta split: if_splits option.splits)
  then show ?case
  proof cases
    case 2
    have "honest zc blk D s u"
      using honest_trans [OF honest_ask(1) transfer_block_honest [OF 2(1) Suc.prems(2)]] Suc.prems(3,4) d by simp
    then show ?thesis by (rule honest_after) (use Suc.IH [OF 2(2)] Suc.prems in simp)
  qed simp
qed simp

text \<open>So the whole transfer of the partitions sends nothing but the source.\<close>

lemma transfer_partitions_honest:
  assumes "transfer_partitions zc readers es sent s = Some (n, s')" "sendable zc blk"
    and "list_all (entry_source blk (x_disk s)) es" "list_all (entry_source blk (x_disk s)) readers"
  shows "honest zc blk D s s'"
  using assms
proof (induction es arbitrary: sent s)
  case (Cons e es)
  define t where "t = (snd (ask x_running s))\<lparr>m_total_blocks := m_total_blocks s + clamp_blocks e\<rparr>"
  have t: "honest zc blk D s t" "x_disk t = x_disk s" by (simp_all add: t_def honest_def client_ok_def ask_def)
  consider "s' = snd (ask x_running s)" | m u where "transfer_blocks zc readers e 0 (unat (clamp_blocks e)) sent t = Some (m, u)"
      "transfer_partitions zc readers es m u = Some (n, s')"
    using Cons.prems(1) by (auto simp: split_beta Let_def t_def ask_def split: if_splits option.splits)
  then show ?case
  proof cases
    case 2
    have "honest zc blk D s u"
      using honest_trans [OF t(1) transfer_blocks_honest [OF 2(1) Cons.prems(2)]] Cons.prems(3,4) t(2) by simp
    then show ?thesis by (rule honest_after) (use Cons.IH [OF 2(2)] Cons.prems in simp)
  qed simp
qed simp

end
