(* ===== verification/End_To_End.thy ===== *)
theory End_To_End
  imports Genuine
begin

text \<open>
  Client, network and receiver together.  The receiver's half of the argument comes first: fed a
  beginning of genuine frames, in any pieces and with any errors, a session performs the effects of
  some of the messages, in order, and what has been written to the target disks of a coherent
  source stays correct.
\<close>

section \<open>What a session does with genuine frames\<close>

fun rx_data :: "recv_outcome list \<Rightarrow> bytes" where
  "rx_data [] = []"
| "rx_data (Avail bs # rx) = bs @ rx_data rx"
| "rx_data (_ # rx) = rx_data rx"

lemma rx_data_append [simp]: "rx_data (rx @ rx') = rx_data rx @ rx_data rx'"
  by (induction rx rule: rx_data.induct) simp_all

lemma genuine_nonempty:
  assumes "zstd_contract zc zsize zd" "genuine_frames zc blk ms fs"
  shows "\<forall>f \<in> set fs. f \<noteq> []"
proof
  fix f assume "f \<in> set fs"
  then obtain m where "sent_as zc m f"
    using assms(2) by (metis genuine_frames_def in_set_conv_nth list_all2_conv_all_nth)
  from decode_frame_sent [OF assms(1) this] show "f \<noteq> []" by (auto simp: frame_def be32_def)
qed

lemma partial_bound:
  assumes "zstd_contract zc zsize zd" "genuine_frames zc blk ms fs" "partial_of fs b"
  shows "length b \<le> 0x130004"
proof (cases fs)
  case (Cons f fs')
  then obtain m where "sent_as zc m f" using assms(2) by (auto simp: genuine_frames_def list_all2_Cons2)
  from decode_frame_sent [OF assms(1) this] show ?thesis using assms(3) Cons by (auto simp: partial_of_def)
qed (use assms(3) in \<open>simp add: partial_of_def\<close>)

text \<open>A piece that has arrived: the frames it completes are handled, the rest is kept.\<close>

lemma drain_genuine:
  assumes z: "zstd_contract zc zsize zd" and g: "genuine_frames zc blk ms fs"
    and s: "session_ok s" "partial_of fs (pending s)" "pending s @ c @ rest = concat fs" "length c \<le> RECV_CHUNK"
    and d: "drain_frames zsize zd env now (protocol_decode zsize zd s c msg) w sk = Some (rc, s', msg', w', sk')"
  shows "\<exists>k. effects env (take k ms) w sk = Some (w', sk') \<and> session_ok s' \<and> s_fd s' = s_fd s \<and>
    partial_of (drop k fs) (pending s') \<and> pending s' @ rest = concat (drop k fs)"
proof -
  have "(pending s @ c) @ rest = concat fs" using s(3) by simp
  from split_at_frame [OF genuine_nonempty [OF z g] this] obtain k t where
    k: "pending s @ c = concat (take k fs) @ t" "partial_of (drop k fs) t" "t @ rest = concat (drop k fs)" by blast
  have l: "list_all2 (sent_as zc) (take k ms) (take k fs)" "list_all2 (sent_as zc) (drop k ms) (drop k fs)"
    using g by (auto simp: genuine_frames_def)
  obtain out' where p: "parse_stream zsize zd (pending s @ c) msg = (0, take k ms, t, out')"
    using parse_stream_frames [OF z l k(2), of msg] by (auto simp: k(1))
  have room: "s_recv_len s + length c \<le> RECV_BUF_SIZE"
    using partial_bound [OF z g s(2)] s(1,4) by (simp add: length_pending RECV_BUF_SIZE_def RECV_CHUNK_def)
  from drain_parse [OF s(1) room p, where env = env and w = w and sk = sk and now = now] d k(2,3) show ?thesis
    by (auto split: option.splits intro!: exI [of _ k])
qed

lemma genuine_drop: "genuine_frames zc blk ms fs \<Longrightarrow> genuine_frames zc blk (drop k ms) (drop k fs)"
  by (auto simp: genuine_frames_def list_all_iff dest: in_set_dropD)

lemma session_loop_genuine:
  assumes "session_loop zsize zd env now rx s msg w sk = Some (removed, rx', s', w', sk')"
    and "zstd_contract zc zsize zd" "genuine_frames zc blk ms fs" "session_ok s" "partial_of fs (pending s)"
      "pending s @ rx_data rx @ rest = concat fs"
  shows "\<exists>k. effects env (take k ms) w sk = Some (w', sk') \<and> s_fd s' = s_fd s \<and>
    (removed \<or> session_ok s' \<and> partial_of (drop k fs) (pending s') \<and> pending s' @ rx_data rx' @ rest = concat (drop k fs))"
  using assms
proof (induction zsize zd env now rx s msg w sk arbitrary: ms fs rule: session_loop.induct)
  case (1 zsize zd env now rx s msg w sk)
  note prems = "1.prems"(1) [unfolded session_loop.simps [of zsize zd env now rx]]
  show ?case
  proof (cases "\<exists>bs rx1. rx = Avail bs # rx1 \<and> bs \<noteq> []")
    case True
    then obtain bs rx1 where rx: "rx = Avail bs # rx1" "bs \<noteq> []" by blast
    define n where "n = min RECV_CHUNK (length bs)"
    then have n: "n \<noteq> 0" using rx(2) by (simp add: RECV_CHUNK_def)
    define rx2 where "rx2 = (if n < length bs then Avail (drop n bs) # rx1 else rx1)"
    obtain r1 s1 m1 w1 sk1 where d: "drain_frames zsize zd env now (protocol_decode zsize zd s (take n bs) msg) w sk = Some (r1, s1, m1, w1, sk1)"
      using prems rx(1) n by (auto simp: Let_def n_def [symmetric] split: option.splits)
    have data: "take n bs @ rx_data rx2 = rx_data rx" by (auto simp: rx2_def rx(1) n_def)
    then have "pending s @ take n bs @ (rx_data rx2 @ rest) = concat fs" using "1.prems"(6) by (metis append_assoc)
    from drain_genuine [OF "1.prems"(2-5) this _ d] obtain k where
      k: "effects env (take k ms) w sk = Some (w1, sk1)" "session_ok s1" "s_fd s1 = s_fd s"
        "partial_of (drop k fs) (pending s1)" "pending s1 @ rx_data rx2 @ rest = concat (drop k fs)"
      by (auto simp: n_def)
    show ?thesis
    proof (cases "r1 < 0")
      case True
      then have "removed" "s' = s1" "w' = w1" "sk' = sk1"
        using prems rx(1) n d by (auto simp: Let_def n_def [symmetric])
      then show ?thesis using k by blast
    next
      case False
      then have l: "session_loop zsize zd env now rx2 s1 m1 w1 sk1 = Some (removed, rx', s', w', sk')"
        using prems rx(1) n d by (simp add: Let_def n_def [symmetric] rx2_def)
      from "1.IH" [OF rx(1) refl n_def n d refl refl refl refl rx2_def False, OF l "1.prems"(2) genuine_drop [OF "1.prems"(3)] k(2,4,5)]
      obtain j where j: "effects env (take j (drop k ms)) w1 sk1 = Some (w', sk')" "s_fd s' = s_fd s1"
        "removed \<or> session_ok s' \<and> partial_of (drop j (drop k fs)) (pending s') \<and> pending s' @ rx_data rx' @ rest = concat (drop j (drop k fs))"
        by blast
      have "effects env (take (k + j) ms) w sk = Some (w', sk')" using k(1) j(1) by (simp add: take_add effects_append)
      then show ?thesis using j(2,3) k(3) by (intro exI [of _ "k + j"]) (simp add: add.commute)
    qed
  next
    case False
    then have "w' = w \<and> sk' = sk \<and> s' = s \<and> (removed \<or> rx_data rx' = rx_data rx)"
      using prems by (auto simp: Let_def split: list.splits recv_outcome.splits)
    then show ?thesis using "1.prems" by (intro exI [of _ 0]) auto
  qed
qed

section \<open>What is on the target\<close>

text \<open>Blocks that overlap agree: they are parts of one image per disk.\<close>

definition coherent :: "(u32 \<Rightarrow> u64 \<Rightarrow> bytes) \<Rightarrow> bool" where
  "coherent blk \<longleftrightarrow> (\<forall>d off i off' j. i < length (blk d off) \<longrightarrow> j < length (blk d off') \<longrightarrow>
     unat off + i = unat off' + j \<longrightarrow> blk d off ! i = blk d off' ! j)"

definition disks_apart :: "block_writer \<Rightarrow> bool" where
  "disks_apart w \<longleftrightarrow> length (bw_disks w) = MAX_TARGET_DISKS \<and> (\<forall>i j. i < MAX_TARGET_DISKS \<longrightarrow> j < MAX_TARGET_DISKS \<longrightarrow> 0 \<le> d_fd (bw_disks w ! i) \<longrightarrow>
     d_fd (bw_disks w ! i) = d_fd (bw_disks w ! j) \<longrightarrow> i = j)"

definition on_target :: "(u32 \<Rightarrow> u64 \<Rightarrow> bytes) \<Rightarrow> block_writer \<Rightarrow> (u32 \<times> u64) set" where
  "on_target blk w = {(d, off). 0 \<le> sint d \<and> sint d < int MAX_TARGET_DISKS \<and> 0 \<le> d_fd (bw_disks w ! unat d) \<and>
     (\<forall>i < length (blk d off). bw_files w (d_fd (bw_disks w ! unat d)) (unat off + i) = blk d off ! i)}"

lemma on_target_cong: "\<lbrakk>bw_disks w' = bw_disks w; bw_files w' = bw_files w\<rbrakk> \<Longrightarrow> on_target blk w' = on_target blk w"
  by (simp add: on_target_def)

lemma disks_apart_cong: "bw_disks w' = bw_disks w \<Longrightarrow> disks_apart w' = disks_apart w"
  by (simp add: disks_apart_def)

text \<open>Writing a beginning of a block does not harm what is there; the whole block is then there.\<close>

lemma on_target_write:
  fixes d :: u32 and w :: block_writer
  defines "fd \<equiv> d_fd (bw_disks w ! unat d)"
  assumes "coherent blk" "disks_apart w" "0 \<le> sint d" "sint d < int MAX_TARGET_DISKS" "0 \<le> fd"
    and "bw_disks w' = bw_disks w"
    and "bw_files w' = (bw_files w)(fd := image_write (unat off) (take n (blk d off)) (bw_files w fd))"
  shows "on_target blk w \<subseteq> on_target blk w'" "length (blk d off) \<le> n \<Longrightarrow> (d, off) \<in> on_target blk w'"
proof -
  have idx: "unat d < MAX_TARGET_DISKS" by (rule devno_index [OF assms(4,5)])
  show "on_target blk w \<subseteq> on_target blk w'"
  proof (rule subrelI)
    fix e o' assume k: "(e, o') \<in> on_target blk w"
    then have e: "unat e < MAX_TARGET_DISKS" "0 \<le> d_fd (bw_disks w ! unat e)" by (auto simp: on_target_def devno_index)
    have same: "e = d" if "d_fd (bw_disks w ! unat e) = fd"
    proof -
      have "unat e = unat d" using assms(3) [unfolded disks_apart_def, THEN conjunct2] that e idx unfolding fd_def by blast
      then show ?thesis by (rule unsigned_word_eqI)
    qed
    have "image_write (unat off) (take n (blk d off)) (bw_files w fd) (unat o' + i) = blk d o' ! i"
      if i: "i < length (blk d o')" "bw_files w fd (unat o' + i) = blk d o' ! i" for i
    proof (cases "unat off \<le> unat o' + i \<and> unat o' + i < unat off + length (take n (blk d off))")
      case True
      then have "unat o' + i - unat off < length (blk d off)" "unat off + (unat o' + i - unat off) = unat o' + i" by auto
      then have "blk d off ! (unat o' + i - unat off) = blk d o' ! i"
        using assms(2) [unfolded coherent_def, rule_format, OF _ i(1)] by blast
      moreover have "unat o' + i - unat off < n" using True by auto
      ultimately show ?thesis using True by (simp add: image_write_def)
    qed (use i(2) in \<open>auto simp: image_write_def\<close>)
    then show "(e, o') \<in> on_target blk w'"
      using k same assms(7,8) by (auto simp: on_target_def fd_def)
  qed
  show "(d, off) \<in> on_target blk w'" if "length (blk d off) \<le> n"
    using that assms by (auto simp: on_target_def image_write_def)
qed

section \<open>Responses\<close>

text \<open>A response is sent whole or not at all.\<close>

definition atomic_sends :: "send_outcome list \<Rightarrow> bool" where
  "atomic_sends script \<longleftrightarrow> list_all (\<lambda>x. \<forall>k. x = Accepts k \<longrightarrow> k = 0 \<or> SERVER_RESPONSE_SIZE \<le> k) script"

definition answers_ok :: "(u32 \<times> u64) set \<Rightarrow> sock \<Rightarrow> bool" where
  "answers_ok D sk \<longleftrightarrow> atomic_sends (sk_script sk) \<and>
     (\<exists>rs. sk_out sk = concat (map response_bytes rs) \<and> acks_in D rs)"

lemma answers_ok_mono: "\<lbrakk>answers_ok D sk; D \<subseteq> D'\<rbrakk> \<Longrightarrow> answers_ok D' sk"
  unfolding answers_ok_def acks_in_def by blast

lemma send_response_atomic:
  assumes "send_response_loop script out (response_bytes r) 0 = Some (rc, sk)" "atomic_sends script"
  shows "atomic_sends (sk_script sk) \<and> (sk_out sk = out \<or> sk_out sk = out @ response_bytes r)"
  using assms
proof (induction script)
  case Nil
  then show ?case by (simp add: resp.enc_width SERVER_RESPONSE_SIZE_def)
next
  case (Cons x s)
  have len: "length (response_bytes r) = SERVER_RESPONSE_SIZE" "0 < SERVER_RESPONSE_SIZE"
    by (rule resp.enc_width, simp add: SERVER_RESPONSE_SIZE_def)
  show ?case
  proof (cases x)
    case (Accepts k)
    then consider "k = 0" | "SERVER_RESPONSE_SIZE \<le> k" using Cons.prems(2) by (auto simp: atomic_sends_def)
    then show ?thesis using Cons len Accepts by cases (auto simp: atomic_sends_def)
  qed (use Cons len in \<open>auto simp: atomic_sends_def\<close>)
qed

lemma send_response_answers:
  assumes "send_response sk r = Some (rc, sk')" "answers_ok D sk" "is_ack r \<longrightarrow> resp_key r \<in> D"
  shows "answers_ok D sk'"
proof -
  obtain rs where rs: "sk_out sk = concat (map response_bytes rs)" "acks_in D rs" "atomic_sends (sk_script sk)"
    using assms(2) by (auto simp: answers_ok_def)
  from send_response_atomic [OF assms(1) [unfolded send_response_def] rs(3)] show ?thesis
  proof (elim conjE disjE)
    assume "sk_out sk' = sk_out sk @ response_bytes r" "atomic_sends (sk_script sk')"
    then show ?thesis using rs assms(3) unfolding answers_ok_def acks_in_def by (intro conjI exI [of _ "rs @ [r]"]) auto
  qed (use rs in \<open>auto simp: answers_ok_def\<close>)
qed

section \<open>Effects of genuine messages\<close>

lemma ack_key [simp]:
  "is_ack \<lparr>r_type = RESPONSE_ACK, r_devno = d, r_size = n, r_offset = off\<rparr>"
  "\<not> is_ack \<lparr>r_type = RESPONSE_BINLOG, r_devno = d, r_size = n, r_offset = off\<rparr>"
  "\<not> is_ack \<lparr>r_type = RESPONSE_SERVER_DONE, r_devno = d, r_size = n, r_offset = off\<rparr>"
  "resp_key \<lparr>r_type = ty, r_devno = d, r_size = n, r_offset = off\<rparr> = (d, off)"
  by (simp_all add: is_ack_def resp_key_def proto_consts)

definition advances :: "(u32 \<Rightarrow> u64 \<Rightarrow> bytes) \<Rightarrow> block_writer \<Rightarrow> sock \<Rightarrow> block_writer \<Rightarrow> sock \<Rightarrow> bool" where
  "advances blk w sk w' sk' \<longleftrightarrow> bw_disks w' = bw_disks w \<and> on_target blk w \<subseteq> on_target blk w' \<and>
     (answers_ok (on_target blk w) sk \<longrightarrow> answers_ok (on_target blk w') sk') \<and> (\<exists>x. sk_out sk' = sk_out sk @ x)"

lemma advances_refl: "advances blk w sk w sk"
  by (simp add: advances_def)

lemma advances_trans: "\<lbrakk>advances blk w sk w1 sk1; advances blk w1 sk1 w2 sk2\<rbrakk> \<Longrightarrow> advances blk w sk w2 sk2"
  unfolding advances_def by auto

lemma send_response_grows: "send_response sk r = Some (rc, sk') \<Longrightarrow> \<exists>x. sk_out sk' = sk_out sk @ x"
  using send_response_result by blast

lemma send_response_advances:
  assumes "send_response sk r = Some (rc, sk')" "is_ack r \<longrightarrow> resp_key r \<in> on_target blk w"
  shows "advances blk w sk w sk'"
  using send_response_answers [OF assms(1)] send_response_grows [OF assms(1)] assms(2) by (auto simp: advances_def)

lemma writer_advances:
  "\<lbrakk>bw_disks w' = bw_disks w; on_target blk w \<subseteq> on_target blk w'\<rbrakk> \<Longrightarrow> advances blk w sk w' sk"
  by (auto simp: advances_def intro: answers_ok_mono)

lemma msg_effect_advances:
  assumes "msg_effect env m w sk = Some (w', sk')" "genuine blk m" "coherent blk" "disks_apart w"
    and "\<forall>d off. length (blk d off) \<le> BLOCK_SIZE"
  shows "advances blk w sk w' sk'"
proof (cases m)
  case (Block d off data)
  have data: "data = blk d off" using assms(2) Block by (simp add: genuine_def)
  have len: "unat (of_nat (length data) :: u32) = length data"
  proof -
    have "length data < 2 ^ 32" using assms(5) data le_less_trans [of "length data" BLOCK_SIZE] by (simp add: BLOCK_SIZE_def)
    then show ?thesis by (simp add: unat_of_nat)
  qed
  obtain rc w1 where w: "block_writer_write env d off data (of_nat (length data)) w = Some (rc, w1)"
    using assms(1) Block by (auto simp: msg_effect_def split: option.splits)
  have w1: "bw_disks w1 = bw_disks w" "on_target blk w \<subseteq> on_target blk w1" "rc = 0 \<Longrightarrow> (d, off) \<in> on_target blk w1"
  proof -
    have "bw_disks w1 = bw_disks w \<and> on_target blk w \<subseteq> on_target blk w1 \<and> (rc = 0 \<longrightarrow> (d, off) \<in> on_target blk w1)"
      using w
    proof (cases rule: block_writer_write_cases)
      case (failed n s)
      then show ?thesis
        using on_target_write(1) [OF assms(3,4), of d w1 off n] by (simp add: len [unfolded data] data)
    next
      case (written s)
      then show ?thesis
        using on_target_write [OF assms(3,4), of d w1 off "length (blk d off)"] by (simp add: len [unfolded data] data after_write_frame)
    qed simp
    then show "bw_disks w1 = bw_disks w" "on_target blk w \<subseteq> on_target blk w1" "rc = 0 \<Longrightarrow> (d, off) \<in> on_target blk w1"
      by blast+
  qed
  then have step: "advances blk w sk w1 sk" by (intro writer_advances)
  have reset: "on_target blk (w1\<lparr>bw_pending_bytes := 0\<rparr>) = on_target blk w1" by (rule on_target_cong) simp_all
  have clear: "advances blk w1 x (w1\<lparr>bw_pending_bytes := 0\<rparr>) x" for x by (rule writer_advances) (simp_all add: reset)
  show ?thesis
  proof (cases "rc = 0")
    case False
    then show ?thesis using assms(1) Block w step by (simp add: msg_effect_def)
  next
    case True
    then obtain arc sk1 where a: "ack_send_block sk d (of_nat (length data)) off = Some (arc, sk1)"
      using assms(1) Block w by (auto simp: msg_effect_def split: option.splits)
    have "advances blk w1 sk w1 sk1"
      by (rule send_response_advances [OF a [unfolded ack_send_block_def]]) (simp add: w1(3) True)
    then have ack: "advances blk w sk (w1\<lparr>bw_pending_bytes := 0\<rparr>) sk1" using step clear advances_trans by blast
    have "advances blk w1 sk1 w1 sk2" if "ack_send_binlog sk1 d (of_nat (length data)) off = Some (brc, sk2)" for brc sk2
      by (rule send_response_advances [OF that [unfolded ack_send_binlog_def]]) simp
    then have "advances blk (w1\<lparr>bw_pending_bytes := 0\<rparr>) sk1 (w1\<lparr>bw_pending_bytes := 0\<rparr>) sk2"
      if "ack_send_binlog sk1 d (of_nat (length data)) off = Some (brc, sk2)" for brc sk2
      using that by (simp add: advances_def reset)
    then show ?thesis
      using assms(1) Block w True a ack advances_trans by (auto simp: msg_effect_def split: if_splits)
  qed
next
  case CtlEndIncremental
  then obtain rc where a: "ack_send_done sk = Some (rc, sk')" "w' = snd (block_writer_fsync_all env w)"
    using assms(1) by (auto simp: msg_effect_def)
  have "advances blk w sk w sk'" by (rule send_response_advances [OF a(1) [unfolded ack_send_done_def]]) simp
  moreover have "on_target blk w' = on_target blk w" by (rule on_target_cong) (simp_all add: a(2) fsync_all_result)
  then have "advances blk w sk' w' sk'" by (intro writer_advances) (simp_all add: a(2) fsync_all_result)
  ultimately show ?thesis by (rule advances_trans)
qed (use assms(1,2) in \<open>auto simp: msg_effect_def genuine_def advances_refl\<close>)

lemma effects_advance:
  assumes "effects env ms w sk = Some (w', sk')" "list_all (genuine blk) ms" "coherent blk" "disks_apart w"
    and "\<forall>d off. length (blk d off) \<le> BLOCK_SIZE"
  shows "advances blk w sk w' sk'"
  using assms
proof (induction ms arbitrary: w sk)
  case (Cons m ms)
  then obtain w1 sk1 where 1: "msg_effect env m w sk = Some (w1, sk1)" "effects env ms w1 sk1 = Some (w', sk')"
    by (auto split: option.splits)
  have gen: "genuine blk m" "list_all (genuine blk) ms" using Cons.prems(2) by simp_all
  have a: "advances blk w sk w1 sk1" by (rule msg_effect_advances [OF 1(1) gen(1) Cons.prems(3-5)])
  then have "disks_apart w1" using Cons.prems(4) disks_apart_cong [of w1 w] by (simp add: advances_def)
  from advances_trans [OF a Cons.IH [OF 1(2) gen(2) Cons.prems(3) this Cons.prems(5)]] show ?case .
qed (simp add: advances_refl)

section \<open>Client, network and receiver\<close>

text \<open>
  \<open>sy_up g\<close> is the number of bytes of the client's connection \<open>peer g\<close> that the network has handed to
  the receiver's descriptor \<open>g\<close>, \<open>sy_down g\<close> the number of responses it has brought back.
\<close>

record system =
  sy_client :: client
  sy_server :: receiver
  sy_up :: "int \<Rightarrow> nat"
  sy_down :: "int \<Rightarrow> nat"

text \<open>New bytes join those that wait in the client's socket.\<close>

definition inbox :: "recv_outcome list \<Rightarrow> bytes \<Rightarrow> recv_outcome list" where
  "inbox rx bs = (if bs = [] then rx else [Avail (rx_data rx @ bs)])"

text \<open>
  The steps: the client sends or flushes a block, looks for responses or reconnects, or does an iteration
  of the transfer loop, timers included, without a break; the network
  delivers some bytes to the receiver, breaks or closes the connection, or brings complete responses
  back; the receiver accepts a connection with an unused descriptor or handles one of its sessions.
  A block is read from the source (or not at all); time, allocation and the disks are unrestricted.
\<close>

inductive sys_step ::
  "(int \<Rightarrow> bytes \<Rightarrow> u64 \<Rightarrow> bytes option) \<Rightarrow> (bytes \<Rightarrow> content_size) \<Rightarrow> (bytes \<Rightarrow> nat \<Rightarrow> bytes option) \<Rightarrow>
   (int \<Rightarrow> int) \<Rightarrow> (u32 \<Rightarrow> u64 \<Rightarrow> bytes) \<Rightarrow> system \<Rightarrow> system \<Rightarrow> bool"
  for zc zsize zd peer blk where
  send: "\<lbrakk>send_block zc reader d off roff (sy_client y) = Some (rc, c);
     \<And>data. block_reader_read (x_disk (sy_client y) (x_tick (sy_client y))) reader roff (of_nat BLOCK_SIZE) = (0, data) \<Longrightarrow>
       data \<noteq> [] \<Longrightarrow> data = blk d off\<rbrakk> \<Longrightarrow> sys_step zc zsize zd peer blk y (y\<lparr>sy_client := c\<rparr>)"
| transfer: "\<lbrakk>transfer_block zc readers e b (sy_client y) = Some (ok, c); entry_source blk (x_disk (sy_client y)) e;
     list_all (entry_source blk (x_disk (sy_client y))) readers\<rbrakk> \<Longrightarrow> sys_step zc zsize zd peer blk y (y\<lparr>sy_client := c\<rparr>)"
| flush: "flush_one zc (sy_client y) = Some (rc, c) \<Longrightarrow> sys_step zc zsize zd peer blk y (y\<lparr>sy_client := c\<rparr>)"
| responses: "sys_step zc zsize zd peer blk y (y\<lparr>sy_client := process_ack (sy_client y)\<rparr>)"
| reconnect: "do_reconnect (sy_client y) = Some c \<Longrightarrow> sys_step zc zsize zd peer blk y (y\<lparr>sy_client := c\<rparr>)"
| up: "drop (sy_up y g) (sk_out (x_socks (sy_client y) (peer g))) = bs @ later \<Longrightarrow> bs \<noteq> [] \<Longrightarrow>
     sys_step zc zsize zd peer blk y
       (y\<lparr>sy_server := (sy_server y)\<lparr>rv_rx := (rv_rx (sy_server y))(g := rv_rx (sy_server y) g @ [Avail bs])\<rparr>,
          sy_up := (sy_up y)(g := sy_up y g + length bs)\<rparr>)"
| hangup: "x \<in> {RecvError, RecvBlocks, Avail []} \<Longrightarrow> sys_step zc zsize zd peer blk y
       (y\<lparr>sy_server := (sy_server y)\<lparr>rv_rx := (rv_rx (sy_server y))(g := rv_rx (sy_server y) g @ [x])\<rparr>\<rparr>)"
| accept: "\<lbrakk>g \<notin> set (fds (rv_sessions (sy_server y))); sy_up y g = 0; rv_rx (sy_server y) g = []\<rbrakk> \<Longrightarrow>
     sys_step zc zsize zd peer blk y (y\<lparr>sy_server := accept_conn mc now alloc (Some (Some (g, ip))) (sy_server y)\<rparr>)"
| serve: "\<lbrakk>j < length (rv_sessions (sy_server y)); handle_session zsize zd env now alloc j (sy_server y) = Some v\<rbrakk> \<Longrightarrow>
     sys_step zc zsize zd peer blk y (y\<lparr>sy_server := v\<rparr>)"
| down: "drop (SERVER_RESPONSE_SIZE * sy_down y g) (sk_out (rv_socks (sy_server y) g)) = concat (map response_bytes rs) @ later \<Longrightarrow>
     sys_step zc zsize zd peer blk y
       (y\<lparr>sy_client := (sy_client y)\<lparr>x_rx := (x_rx (sy_client y))(peer g :=
            inbox (x_rx (sy_client y) (peer g)) (concat (map response_bytes rs)))\<rparr>,
          sy_down := (sy_down y)(g := sy_down y g + length rs)\<rparr>)"

text \<open>Before the first step nothing is in flight; blocks that a former run recorded as acknowledged are there.\<close>

definition sys_start :: "(u32 \<Rightarrow> u64 \<Rightarrow> bytes) \<Rightarrow> system \<Rightarrow> bool" where
  "sys_start blk y \<longleftrightarrow>
     (let c = sy_client y; v = sy_server y; w = rv_writer v in
      \<not> m_dry_run c \<and> \<not> m_tail_send c \<and> writer_ok (m_writer c) \<and>
      queue_ok (m_queue c) \<and> list_all (entry_ok blk) (q_entries (m_queue c)) \<and> tracked_ok blk (on_target blk w) (m_db c) \<and>
      (\<forall>fd. sk_out (x_socks c fd) = [] \<and> sturdy (sk_script (x_socks c fd)) \<and> x_rx c fd = []) \<and>
      disks_apart w \<and> rv_sessions v = [] \<and>
      (\<forall>g. rv_rx v g = [] \<and> sk_out (rv_socks v g) = [] \<and> atomic_sends (sk_script (rv_socks v g)) \<and> sy_up y g = 0 \<and> sy_down y g = 0))"

section \<open>The invariant of the system\<close>

definition stream_ok :: "(int \<Rightarrow> bytes \<Rightarrow> u64 \<Rightarrow> bytes option) \<Rightarrow> (u32 \<Rightarrow> u64 \<Rightarrow> bytes) \<Rightarrow> sock \<Rightarrow> bool" where
  "stream_ok zc blk sk \<longleftrightarrow>
     (\<exists>ms fs rest. genuine_frames zc blk ms fs \<and> sk_out sk @ rest = concat fs \<and> (rest = [] \<or> dead (sk_script sk)))"

text \<open>What a session has kept, what waits in its socket and what is still on the way make up genuine frames.\<close>

definition aligned ::
  "(int \<Rightarrow> bytes \<Rightarrow> u64 \<Rightarrow> bytes option) \<Rightarrow> (u32 \<Rightarrow> u64 \<Rightarrow> bytes) \<Rightarrow> session_t \<Rightarrow> recv_outcome list \<Rightarrow> nat \<Rightarrow> sock \<Rightarrow> bool" where
  "aligned zc blk s rx n sk \<longleftrightarrow> session_ok s \<and> n \<le> length (sk_out sk) \<and>
     (\<exists>ms fs rest. genuine_frames zc blk ms fs \<and> partial_of fs (pending s) \<and>
        pending s @ rx_data rx @ drop n (sk_out sk) @ rest = concat fs \<and> (rest = [] \<or> dead (sk_script sk)))"

definition sys_ok ::
  "(int \<Rightarrow> bytes \<Rightarrow> u64 \<Rightarrow> bytes option) \<Rightarrow> (int \<Rightarrow> int) \<Rightarrow> (u32 \<Rightarrow> u64 \<Rightarrow> bytes) \<Rightarrow> system \<Rightarrow> bool" where
  "sys_ok zc peer blk y \<longleftrightarrow>
     (let c = sy_client y; v = sy_server y; D = on_target blk (rv_writer v) in
      client_ok blk D c \<and> (\<forall>fd. stream_ok zc blk (x_socks c fd)) \<and> disks_apart (rv_writer v) \<and>
      distinct (fds (rv_sessions v)) \<and> (\<forall>g. answers_ok D (rv_socks v g)) \<and>
      (\<forall>s \<in> set (rv_sessions v). aligned zc blk s (rv_rx v (s_fd s)) (sy_up y (s_fd s)) (x_socks c (peer (s_fd s)))))"

lemma partial_append:
  "\<lbrakk>partial_of fs b; \<forall>f \<in> set fs'. f \<noteq> []\<rbrakk> \<Longrightarrow> partial_of (fs @ fs') b"
  by (cases fs; cases fs') (auto simp: partial_of_def)

lemma stream_extends:
  assumes "stream_ok zc blk sk" "extends zc blk sk sk'"
  shows "stream_ok zc blk sk'"
proof -
  obtain ms fs rest where 1: "genuine_frames zc blk ms fs" "sk_out sk @ rest = concat fs" "rest = [] \<or> dead (sk_script sk)"
    using assms(1) by (auto simp: stream_ok_def)
  obtain x rest' ms' fs' where 2: "genuine_frames zc blk ms' fs'" "sk_out sk' = sk_out sk @ x" "x @ rest' = concat fs'"
    "rest' = [] \<or> dead (sk_script sk')" using assms(2) unfolding extends_def by blast
  show ?thesis
  proof (cases "dead (sk_script sk)")
    case True
    then show ?thesis using assms(2) 1 unfolding stream_ok_def extends_def by auto
  next
    case False
    then have "sk_out sk' @ rest' = concat (fs @ fs')" using 1 2 by simp
    then show ?thesis using genuine_frames_append [OF 1(1) 2(1)] 2(4) unfolding stream_ok_def by blast
  qed
qed

lemma aligned_extends:
  assumes "aligned zc blk s rx n sk" "extends zc blk sk sk'" "zstd_contract zc zsize zd"
  shows "aligned zc blk s rx n sk'"
proof -
  obtain ms fs rest where 1: "session_ok s" "n \<le> length (sk_out sk)" "genuine_frames zc blk ms fs" "partial_of fs (pending s)"
    "pending s @ rx_data rx @ drop n (sk_out sk) @ rest = concat fs" "rest = [] \<or> dead (sk_script sk)"
    using assms(1) by (auto simp: aligned_def)
  obtain x rest' ms' fs' where 2: "genuine_frames zc blk ms' fs'" "sk_out sk' = sk_out sk @ x" "x @ rest' = concat fs'"
    "rest' = [] \<or> dead (sk_script sk')" using assms(2) unfolding extends_def by blast
  show ?thesis
  proof (cases "dead (sk_script sk)")
    case True
    then show ?thesis using assms(2) 1 unfolding aligned_def extends_def by auto
  next
    case False
    then have "pending s @ rx_data rx @ drop n (sk_out sk') @ rest' = concat (fs @ fs')" "n \<le> length (sk_out sk')"
      using 1 2 by simp_all
    then show ?thesis
      using genuine_frames_append [OF 1(3) 2(1)] partial_append [OF 1(4) genuine_nonempty [OF assms(3) 2(1)]] 1(1) 2(4)
      unfolding aligned_def by blast
  qed
qed

lemma client_step_ok:
  assumes "sys_ok zc peer blk y" "honest zc blk (on_target blk (rv_writer (sy_server y))) (sy_client y) c" "zstd_contract zc zsize zd"
  shows "sys_ok zc peer blk (y\<lparr>sy_client := c\<rparr>)"
proof -
  have ok: "client_ok blk (on_target blk (rv_writer (sy_server y))) c"
    and ext: "extends zc blk (x_socks (sy_client y) fd) (x_socks c fd)" for fd
    using assms(1,2) by (simp_all add: sys_ok_def honest_def Let_def)
  have "stream_ok zc blk (x_socks c fd)" for fd
    by (rule stream_extends [OF _ ext]) (use assms(1) in \<open>simp add: sys_ok_def Let_def\<close>)
  moreover have "aligned zc blk s (rv_rx (sy_server y) (s_fd s)) (sy_up y (s_fd s)) (x_socks c (peer (s_fd s)))"
    if "s \<in> set (rv_sessions (sy_server y))" for s
    by (rule aligned_extends [OF _ ext assms(3)]) (use assms(1) that in \<open>simp add: sys_ok_def Let_def\<close>)
  ultimately show ?thesis using assms(1) ok by (simp add: sys_ok_def Let_def)
qed

text \<open>Bytes that arrive at the receiver, or the end of a connection.\<close>

lemma arrival_ok:
  assumes "sys_ok zc peer blk y"
    and "drop (sy_up y g) (sk_out (x_socks (sy_client y) (peer g))) = bs @ later" "rx_data rx = bs"
  shows "sys_ok zc peer blk (y\<lparr>sy_server := (sy_server y)\<lparr>rv_rx := (rv_rx (sy_server y))(g := rv_rx (sy_server y) g @ rx)\<rparr>,
      sy_up := (sy_up y)(g := sy_up y g + length bs)\<rparr>)"
proof -
  let ?out = "sk_out (x_socks (sy_client y) (peer g))"
  have later: "drop (sy_up y g + length bs) ?out = later"
    using assms(2) by (metis add.commute append_eq_conv_conj drop_drop)
  have "aligned zc blk s (rv_rx (sy_server y) g @ rx) (sy_up y g + length bs) (x_socks (sy_client y) (peer g))"
    if "aligned zc blk s (rv_rx (sy_server y) g) (sy_up y g) (x_socks (sy_client y) (peer g))" for s
  proof -
    have "sy_up y g + length bs \<le> length ?out"
      using that arg_cong [OF assms(2), of length] by (auto simp: aligned_def)
    then show ?thesis using that by (simp add: aligned_def assms(2,3) later)
  qed
  then show ?thesis using assms(1) by (auto simp: sys_ok_def Let_def)
qed

lemma accept_ok:
  assumes "sys_ok zc peer blk y" "g \<notin> set (fds (rv_sessions (sy_server y)))" "sy_up y g = 0" "rv_rx (sy_server y) g = []"
    and "zstd_contract zc zsize zd"
  shows "sys_ok zc peer blk (y\<lparr>sy_server := accept_conn mc now alloc (Some (Some (g, ip))) (sy_server y)\<rparr>)"
proof -
  let ?v = "sy_server y" and ?v' = "accept_conn mc now alloc (Some (Some (g, ip))) (sy_server y)"
  have frame: "rv_writer ?v' = rv_writer ?v" "rv_socks ?v' = rv_socks ?v" "rv_rx ?v' = rv_rx ?v"
    and sessions: "rv_sessions ?v' = rv_sessions ?v \<or> rv_sessions ?v' = rv_sessions ?v @ [new_session now g ip]"
    by (auto simp: accept_conn_def session_create_def Let_def)
  obtain ms fs rest where s: "genuine_frames zc blk ms fs" "sk_out (x_socks (sy_client y) (peer g)) @ rest = concat fs"
    "rest = [] \<or> dead (sk_script (x_socks (sy_client y) (peer g)))"
    using assms(1) by (fastforce simp: sys_ok_def stream_ok_def Let_def)
  have "partial_of fs []" using genuine_nonempty [OF assms(5) s(1)] by (cases fs) (auto simp: partial_of_def)
  then have "aligned zc blk (new_session now g ip) (rv_rx ?v g) (sy_up y g) (x_socks (sy_client y) (peer g))"
    using s assms(3,4) unfolding aligned_def by (auto simp: new_session_def session_ok_def pending_def)
  then show ?thesis
    using sessions assms(1,2) by (auto simp: sys_ok_def Let_def frame fds_def new_session_def)
qed

text \<open>Responses on their way back.\<close>

lemma responses_prefix:
  "concat (map response_bytes rs) @ later = concat (map response_bytes xs) \<Longrightarrow> \<exists>ys. xs = rs @ ys"
proof (induction rs arbitrary: xs)
  case (Cons r rs)
  then obtain x xs' where xs: "xs = x # xs'"
    using resp.enc_width [of r] by (cases xs) (auto simp: SERVER_RESPONSE_SIZE_def)
  have e: "response_bytes r @ (concat (map response_bytes rs) @ later) = response_bytes x @ concat (map response_bytes xs')"
    using Cons.prems xs by simp
  then have "r = x" by (metis resp.dec_enc)
  then show ?case using Cons.IH [of xs'] e xs by simp
qed simp

lemma drop_responses: "drop (SERVER_RESPONSE_SIZE * n) (concat (map response_bytes rs)) = concat (map response_bytes (drop n rs))"
proof (induction n arbitrary: rs)
  case (Suc n)
  show ?case
  proof (cases rs)
    case (Cons r rs')
    have "drop (SERVER_RESPONSE_SIZE * Suc n) (concat (map response_bytes rs)) =
        drop (SERVER_RESPONSE_SIZE * n) (concat (map response_bytes rs'))"
      using resp.enc_width [of r] by (simp add: Cons)
    then show ?thesis using Suc [of rs'] Cons by simp
  qed simp
qed simp

lemma inbox_rx_of: "inbox (rx_of old) (concat (map response_bytes rs)) = rx_of (old @ rs)"
proof (cases rs)
  case (Cons r rs')
  have "response_bytes r \<noteq> []" using resp.enc_width [of r] by (auto simp: SERVER_RESPONSE_SIZE_def)
  then show ?thesis using Cons by (auto simp: inbox_def rx_of_def)
qed (simp add: inbox_def)

lemma return_ok:
  assumes "sys_ok zc peer blk y"
    and "drop (SERVER_RESPONSE_SIZE * n) (sk_out (rv_socks (sy_server y) g)) = concat (map response_bytes rs) @ later"
  shows "sys_ok zc peer blk (y\<lparr>sy_client := (sy_client y)\<lparr>x_rx := (x_rx (sy_client y))(peer g :=
      inbox (x_rx (sy_client y) (peer g)) (concat (map response_bytes rs)))\<rparr>, sy_down := dn\<rparr>)"
proof -
  let ?D = "on_target blk (rv_writer (sy_server y))"
  obtain all where all: "sk_out (rv_socks (sy_server y) g) = concat (map response_bytes all)" "acks_in ?D all"
    using assms(1) by (fastforce simp: sys_ok_def answers_ok_def Let_def)
  obtain old where old: "x_rx (sy_client y) (peer g) = rx_of old" "acks_in ?D old"
    using assms(1) by (fastforce simp: sys_ok_def client_ok_def Let_def)
  have "concat (map response_bytes rs) @ later = concat (map response_bytes (drop n all))"
    using assms(2) by (simp add: all(1) drop_responses)
  from responses_prefix [OF this] have "set rs \<subseteq> set all"
    by (metis Un_upper1 order_trans set_append set_drop_subset)
  then have "acks_in ?D (old @ rs)" using all(2) old(2) by (auto simp: acks_in_def)
  then show ?thesis
    using assms(1) by (auto simp: sys_ok_def client_ok_def Let_def old(1) inbox_rx_of)
qed

text \<open>The receiver handles a session.\<close>

lemma client_ok_mono: "\<lbrakk>client_ok blk D c; D \<subseteq> D'\<rbrakk> \<Longrightarrow> client_ok blk D' c"
  unfolding client_ok_def tracked_ok_def acks_in_def by blast

lemma remove_sessions:
  assumes "distinct (fds (rv_sessions v))"
  shows "rv_sessions (rv_remove fd v) = filter (\<lambda>s. s_fd s \<noteq> fd) (rv_sessions v)"
  using session_remove_distinct [OF assms] by (simp add: rv_remove_def split: prod.split) (metis snd_conv)

lemma remove_frame [simp]:
  "rv_socks (rv_remove fd v) = rv_socks v" "rv_rx (rv_remove fd v) = rv_rx v" "rv_writer (rv_remove fd v) = rv_writer v"
  by (simp_all add: rv_remove_def split: prod.split)

lemma drop_session_ok:
  assumes "sys_ok zc peer blk y"
  shows "sys_ok zc peer blk (y\<lparr>sy_server := rv_remove fd (sy_server y)\<rparr>)"
proof -
  have d: "distinct (fds (rv_sessions (sy_server y)))" using assms by (simp add: sys_ok_def Let_def)
  have "rv_sessions (rv_remove fd (sy_server y)) = filter (\<lambda>s. s_fd s \<noteq> fd) (rv_sessions (sy_server y))"
    by (rule remove_sessions [OF d])
  moreover have "distinct (fds (filter P g))" if "distinct (fds g)" for P and g :: session_mgr
    using that by (simp add: fds_def distinct_map_filter)
  ultimately show ?thesis using assms d by (simp add: sys_ok_def Let_def)
qed

lemma session_served:
  assumes "session_loop zsize zd env now rx s msg w sk = Some (removed, rx', s', w', sk')" "aligned zc blk s rx n sk0"
    and "zstd_contract zc zsize zd" "coherent blk" "\<forall>d off. length (blk d off) \<le> BLOCK_SIZE" "disks_apart w"
  shows "advances blk w sk w' sk' \<and> s_fd s' = s_fd s \<and> (removed \<or> aligned zc blk s' rx' n sk0)"
proof -
  obtain ms fs rest where f: "session_ok s" "n \<le> length (sk_out sk0)" "genuine_frames zc blk ms fs"
      "partial_of fs (pending s)" "pending s @ rx_data rx @ (drop n (sk_out sk0) @ rest) = concat fs"
      "rest = [] \<or> dead (sk_script sk0)"
    using assms(2) by (auto simp: aligned_def)
  from session_loop_genuine [OF assms(1,3) f(3,1,4,5)] obtain k where
    k: "effects env (take k ms) w sk = Some (w', sk')" "s_fd s' = s_fd s"
      "removed \<or> session_ok s' \<and> partial_of (drop k fs) (pending s') \<and>
        pending s' @ rx_data rx' @ drop n (sk_out sk0) @ rest = concat (drop k fs)"
    by auto
  have "list_all (genuine blk) (take k ms)" using f(3) by (auto simp: genuine_frames_def list_all_iff dest: in_set_takeD)
  note adv = effects_advance [OF k(1) this assms(4,6,5)]
  have "removed \<or> aligned zc blk s' rx' n sk0"
    using k(3) f(2,6) genuine_drop [OF f(3), of k] unfolding aligned_def by blast
  with adv k(2) show ?thesis by blast
qed

lemma updated_sessions:
  assumes "distinct (fds g)" "j < length g" "s_fd s' = s_fd (g ! j)"
  shows "fds (g[j := s']) = fds g" "\<lbrakk>t \<in> set (g[j := s']); t \<noteq> s'\<rbrakk> \<Longrightarrow> t \<in> set g \<and> s_fd t \<noteq> s_fd s'"
proof -
  show "fds (g[j := s']) = fds g" using assms(2,3) by (simp add: fds_def map_update list_update_same_conv)
  assume t: "t \<in> set (g[j := s'])" "t \<noteq> s'"
  then obtain i where i: "i < length g" "i \<noteq> j" "t = g ! i"
    using assms(2) by (auto simp: in_set_conv_nth nth_list_update split: if_splits)
  then have "fds g ! i \<noteq> fds g ! j" using nth_eq_iff_index_eq [OF assms(1), of i j] assms(2) by (simp add: fds_def)
  then show "t \<in> set g \<and> s_fd t \<noteq> s_fd s'" using i assms(2,3) by (auto simp: fds_def)
qed

text \<open>The receiver after a session has been served, whichever sessions are left.\<close>

lemma server_updated:
  assumes "sys_ok zc peer blk y" "advances blk (rv_writer (sy_server y)) (rv_socks (sy_server y) g) w sk"
    and "rv_writer v = w" "rv_socks v = (rv_socks (sy_server y))(g := sk)" "distinct (fds (rv_sessions v))"
    and "\<And>t. t \<in> set (rv_sessions v) \<Longrightarrow>
      aligned zc blk t (rv_rx v (s_fd t)) (sy_up y (s_fd t)) (x_socks (sy_client y) (peer (s_fd t)))"
  shows "sys_ok zc peer blk (y\<lparr>sy_server := v\<rparr>)"
proof -
  let ?D = "on_target blk (rv_writer (sy_server y))"
  have ok: "client_ok blk ?D (sy_client y)" "answers_ok ?D (rv_socks (sy_server y) x)" "disks_apart (rv_writer (sy_server y))" for x
    using assms(1) by (simp_all add: sys_ok_def Let_def)
  have D: "?D \<subseteq> on_target blk w" "disks_apart w" "answers_ok (on_target blk w) sk"
    using assms(2) ok(3) ok(2) [of g] disks_apart_cong [of w "rv_writer (sy_server y)"] by (auto simp: advances_def)
  show ?thesis
    using assms client_ok_mono [OF ok(1) D(1)] answers_ok_mono [OF ok(2) D(1)] D(2,3) by (simp add: sys_ok_def Let_def)
qed

lemma serve_ok:
  assumes y: "sys_ok zc peer blk y" and z: "zstd_contract zc zsize zd"
    and blk: "coherent blk" "\<forall>d off. length (blk d off) \<le> BLOCK_SIZE"
    and j: "j < length (rv_sessions (sy_server y))" "handle_session zsize zd env now alloc j (sy_server y) = Some v"
  shows "sys_ok zc peer blk (y\<lparr>sy_server := v\<rparr>)"
proof (cases alloc)
  case False
  then show ?thesis using j(2) drop_session_ok [OF y] by (auto simp: handle_session_def Let_def)
next
  case True
  let ?v = "sy_server y" and ?c = "sy_client y"
  define s where "s = rv_sessions ?v ! j"
  define g where "g = s_fd s"
  obtain removed rx s' w sk where l: "session_loop zsize zd env now (rv_rx ?v g) s calloc_msg (rv_writer ?v) (rv_socks ?v g) =
      Some (removed, rx, s', w, sk)"
    using j(2) True by (auto simp: handle_session_def Let_def s_def g_def split: option.splits)
  define u where "u = ?v\<lparr>rv_sessions := (rv_sessions ?v)[j := s'], rv_writer := w, rv_socks := (rv_socks ?v)(g := sk), rv_rx := (rv_rx ?v)(g := rx)\<rparr>"
  have v: "v = (if removed then rv_remove g u else u)"
    using j(2) True l by (auto simp: handle_session_def Let_def s_def g_def u_def)
  have ok: "distinct (fds (rv_sessions ?v))" "disks_apart (rv_writer ?v)"
    and al: "\<And>s. s \<in> set (rv_sessions ?v) \<Longrightarrow> aligned zc blk s (rv_rx ?v (s_fd s)) (sy_up y (s_fd s)) (x_socks ?c (peer (s_fd s)))"
    using y by (simp_all add: sys_ok_def Let_def)
  from al [of s] j(1) have "aligned zc blk s (rv_rx ?v g) (sy_up y g) (x_socks ?c (peer g))" by (simp add: s_def g_def)
  from session_served [OF l this z blk ok(2)] have served: "advances blk (rv_writer ?v) (rv_socks ?v g) w sk" "s_fd s' = g"
    "removed \<or> aligned zc blk s' rx (sy_up y g) (x_socks ?c (peer g))" by (auto simp: g_def)
  have same: "s_fd s' = s_fd (rv_sessions ?v ! j)" using served(2) by (simp add: g_def s_def)
  note upd = updated_sessions [OF ok(1) j(1) same]
  have frame: "rv_writer v = w" "rv_socks v = (rv_socks ?v)(g := sk)" "rv_rx v = (rv_rx ?v)(g := rx)"
    using v by (simp_all add: u_def)
  have d: "distinct (fds (rv_sessions u))" using upd(1) ok(1) by (simp add: u_def)
  have left: "rv_sessions v = (if removed then filter (\<lambda>s. s_fd s \<noteq> g) (rv_sessions u) else rv_sessions u)"
    using remove_sessions [OF d] v by simp
  show ?thesis
  proof (rule server_updated [OF y served(1) frame(1,2)])
    show "distinct (fds (rv_sessions v))" using d by (simp add: left fds_def distinct_map_filter)
    fix t assume t: "t \<in> set (rv_sessions v)"
    then have m: "t \<in> set ((rv_sessions ?v)[j := s'])" by (auto simp: left u_def split: if_splits)
    show "aligned zc blk t (rv_rx v (s_fd t)) (sy_up y (s_fd t)) (x_socks ?c (peer (s_fd t)))"
    proof (cases "t = s'")
      case True
      then show ?thesis using t served(2,3) by (auto simp: left frame(3) split: if_splits)
    next
      case False
      then show ?thesis using upd(2) [OF m] al served(2) by (simp add: frame(3))
    qed
  qed
qed

lemma sys_step_ok:
  assumes "sys_step zc zsize zd peer blk y y'" "sys_ok zc peer blk y" "zstd_contract zc zsize zd"
    and "coherent blk" "\<forall>d off. length (blk d off) \<le> BLOCK_SIZE"
  shows "sys_ok zc peer blk y'"
proof -
  have sb: "sendable zc blk" using assms(3,5) by (auto simp: sendable_def zstd_contract_def zstd_fits_def)
  show ?thesis
    using assms(1)
  proof (cases rule: sys_step.cases)
    case (send reader d off roff rc c)
    then show ?thesis using client_step_ok [OF assms(2) send_block_honest [OF _ sb] assms(3)] by blast
  next
    case (transfer readers e b ok c)
    then show ?thesis using client_step_ok [OF assms(2) transfer_block_honest [OF _ sb] assms(3)] by blast
  next
    case (flush rc c)
    then show ?thesis using client_step_ok [OF assms(2) flush_one_honest [OF sb] assms(3)] by blast
  next
    case responses
    then show ?thesis using client_step_ok [OF assms(2) process_ack_honest assms(3)] by blast
  next
    case (reconnect c)
    then show ?thesis using client_step_ok [OF assms(2) do_reconnect_honest assms(3)] by blast
  next
    case (up g bs later)
    then show ?thesis using arrival_ok [OF assms(2), of g bs later "[Avail bs]"] by simp
  next
    case (hangup x g)
    then show ?thesis using arrival_ok [OF assms(2), of g "[]" _ "[x]"] by (auto simp: fun_upd_idem)
  next
    case (accept g mc now alloc ip)
    then show ?thesis using accept_ok [OF assms(2) _ _ _ assms(3)] by blast
  next
    case (serve j env now alloc v)
    then show ?thesis using serve_ok [OF assms(2-5)] by blast
  next
    case (down g rs later)
    then show ?thesis using return_ok [OF assms(2)] by blast
  qed
qed

lemma sys_start_ok:
  assumes "sys_start blk y"
  shows "sys_ok zc peer blk y"
proof -
  have "stream_ok zc blk sk" if "sk_out sk = []" for sk
    unfolding stream_ok_def using that by (intro exI [of _ "[]"]) (simp add: genuine_frames_def)
  moreover have "answers_ok D sk" if "sk_out sk = []" "atomic_sends (sk_script sk)" for D sk
    unfolding answers_ok_def using that by (auto intro!: exI [of _ "[]"] simp: acks_in_def)
  moreover have "\<exists>rs. [] = rx_of rs \<and> acks_in D rs" for D by (rule exI [of _ "[]"]) (simp add: rx_of_def acks_in_def)
  ultimately show ?thesis
    using assms by (simp add: sys_start_def sys_ok_def client_ok_def Let_def fds_def)
qed

lemma sys_run_ok:
  assumes "(sys_step zc zsize zd peer blk)\<^sup>*\<^sup>* y y'" "sys_ok zc peer blk y" "zstd_contract zc zsize zd"
    and "coherent blk" "\<forall>d off. length (blk d off) \<le> BLOCK_SIZE"
  shows "sys_ok zc peer blk y'"
  using assms(1,2) by (induction rule: rtranclp_induct) (auto intro: sys_step_ok [OF _ _ assms(3-5)])

text \<open>One pass of the receiver's select loop over its ready sessions is a sequence of these steps.\<close>

lemma select_pass_steps:
  assumes "session_foreach rv_sessions (handle_active_cb zsize zd env now alloc ready) i (sy_server y) = Some v"
  shows "(sys_step zc zsize zd peer blk)\<^sup>*\<^sup>* y (y\<lparr>sy_server := v\<rparr>)"
proof -
  let ?steps = "(sys_step zc zsize zd peer blk)\<^sup>*\<^sup>*"
  have "\<forall>y'. sy_server y' = sy_server y \<longrightarrow> ?steps y' (y'\<lparr>sy_server := v\<rparr>)"
  proof (rule session_foreach_rel [OF assms, where R = "\<lambda>v v'. \<forall>y. sy_server y = v \<longrightarrow> ?steps y (y\<lparr>sy_server := v'\<rparr>)"])
    fix i v stop v'
    assume cb: "i < session_count (rv_sessions v)" "handle_active_cb zsize zd env now alloc ready i v = Some (stop, v')"
    show "\<forall>y. sy_server y = v \<longrightarrow> ?steps y (y\<lparr>sy_server := v'\<rparr>)"
    proof (cases "s_fd (rv_sessions v ! i) \<in> set ready")
      case True
      then show ?thesis using cb by (auto simp: handle_active_cb_def session_count_def intro!: r_into_rtranclp serve)
    next
      case False
      then show ?thesis using cb by (auto simp: handle_active_cb_def)
    qed
  next
    fix a b c
    assume ab: "\<forall>y. sy_server y = a \<longrightarrow> ?steps y (y\<lparr>sy_server := b\<rparr>)" and bc: "\<forall>y. sy_server y = b \<longrightarrow> ?steps y (y\<lparr>sy_server := c\<rparr>)"
    show "\<forall>y. sy_server y = a \<longrightarrow> ?steps y (y\<lparr>sy_server := c\<rparr>)"
    proof (intro allI impI)
      fix y :: system assume "sy_server y = a"
      then have "?steps y (y\<lparr>sy_server := b\<rparr>)" using ab by blast
      moreover have "?steps (y\<lparr>sy_server := b\<rparr>) (y\<lparr>sy_server := b\<rparr>\<lparr>sy_server := c\<rparr>)"
        using bc [rule_format, of "y\<lparr>sy_server := b\<rparr>"] by simp
      ultimately show "?steps y (y\<lparr>sy_server := c\<rparr>)" by simp
    qed
  qed auto
  then show ?thesis by blast
qed

lemma acked_placed:
  assumes "sys_ok zc peer blk y" "view (m_db (sy_client y)) (d, off) = Some (h, True)"
  shows "h = block_hash blk (d, off)" "(d, off) \<in> on_target blk (rv_writer (sy_server y))"
proof -
  have "tracked_ok blk (on_target blk (rv_writer (sy_server y))) (m_db (sy_client y))"
    using assms(1) by (simp add: sys_ok_def client_ok_def Let_def)
  then show "h = block_hash blk (d, off)" "(d, off) \<in> on_target blk (rv_writer (sy_server y))"
    using assms(2) by (auto simp: tracked_ok_def)
qed


section \<open>A concrete run\<close>

text \<open>A client with one connection and one block in its queue.\<close>

definition wired_pool :: "bytes \<Rightarrow> socket_pool_t" where
  "wired_pool b = lone_pool\<lparr>p_conns := (p_conns lone_pool)[6 := zero_conn\<lparr>c_fd := 9, c_send_scratch := Some b\<rparr>]\<rparr>"

definition wired_client :: "u64 \<Rightarrow> client" where
  "wired_client h = (sample_client (wired_pool (replicate SEND_SCRATCH_SIZE 0)) (snd (sqlite_block_upsert_v Runs empty_db 0 16 2 h 0 0)))
     \<lparr>m_queue := snd (queue_push True (snd (queue_init True)) 0 16 h (block_encoding 0 16 [7, 8])),
      x_socks := \<lambda>_. \<lparr>sk_out = [], sk_script = [Accepts 100]\<rparr>\<rparr>"

lemma wired_conns: "p_conns (wired_pool b) = [zero_conn\<lparr>c_fd := SOCKET_ERR\<rparr>, zero_conn\<lparr>c_fd := SOCKET_ERR\<rparr>, zero_conn\<lparr>c_fd := SOCKET_ERR\<rparr>,
    zero_conn\<lparr>c_fd := SOCKET_ERR\<rparr>, zero_conn\<lparr>c_fd := SOCKET_ERR\<rparr>, zero_conn\<lparr>c_fd := SOCKET_ERR\<rparr>, zero_conn\<lparr>c_fd := 9, c_send_scratch := Some b\<rparr>]"
  by (simp add: wired_pool_def lone_pool_def numeral_eq_Suc)

lemma wired_pool_slot: "\<exists>p. pool_acquire (None, Refused) 0 (wired_pool b) = (Some 6, p) \<and> c_fd (p_conns p ! 6) = 9 \<and>
    c_send_scratch (p_conns p ! 6) = Some b"
proof -
  have "p_next_index (wired_pool b) = 0" by (simp add: wired_pool_def lone_pool_def)
  then have "scan_idle (p_conns (wired_pool b)) (p_next_index (wired_pool b)) [0..<SOCKET_POOL_TARGET] = Some 6"
    by (simp add: wired_conns proto_consts upt_rec SOCKET_ERR_def zero_conn_def)
  then show ?thesis by (simp add: pool_acquire_def) (simp add: wired_conns)
qed

lemma wired_pool_ok: "pool_ok (wired_pool b)"
  unfolding pool_ok_def wired_conns open_slots_def by (simp add: wired_pool_def lone_pool_def proto_consts zero_conn_def SOCKET_ERR_def)

lemma wired_queue:
  "queue_ok (m_queue (wired_client h))" "q_list (m_queue (wired_client h)) = [\<lparr>e_devno = 0, e_offset = 16, e_hash = h,
    e_payload = Some (block_encoding 0 16 [7, 8]), e_payload_len = length (block_encoding 0 16 [7, 8]), e_pending = True\<rparr>]"
proof -
  let ?msg = "block_encoding 0 16 [7, 8]" and ?q = "snd (queue_init True)"
  have "length ?msg \<le> 100" by code_simp
  then have "length ?msg \<le> QUEUE_ENTRY_MAX_PAYLOAD" by (simp add: QUEUE_ENTRY_MAX_PAYLOAD_def)
  then obtain q where "queue_push True ?q 0 16 h ?msg = (0, q)" "queue_ok q"
    "q_list q = [\<lparr>e_devno = 0, e_offset = 16, e_hash = h, e_payload = Some ?msg, e_payload_len = length ?msg, e_pending = True\<rparr>]"
    using queue_push_free [OF queue_init_ok(1), of True ?msg 0 16 h] queue_init_ok(2) [of True]
    by (auto simp: queue_init_def BACKPRESSURE_QUEUE_DEPTH_def)
  then show "queue_ok (m_queue (wired_client h))" "q_list (m_queue (wired_client h)) = [\<lparr>e_devno = 0, e_offset = 16, e_hash = h,
      e_payload = Some ?msg, e_payload_len = length ?msg, e_pending = True\<rparr>]"
    by (simp_all add: wired_client_def)
qed

lemma wired_frame: "length (data_frame (0 # block_encoding 0 16 [7, 8])) \<le> 100"
    "data_frame (0 # block_encoding 0 16 [7, 8]) \<noteq> []"
    "store_zc 1 (block_encoding 0 16 [7, 8]) (ZSTD_COMPRESS_BOUND (of_nat (length (block_encoding 0 16 [7, 8])))) = Some (0 # block_encoding 0 16 [7, 8])"
  by code_simp+

lemma wired_takes: "takes [Accepts 100] (length (data_frame (0 # block_encoding 0 16 [7, 8])))"
proof -
  have "takes [Accepts 100] n" if "n \<le> 100" for n using that by (cases n) simp_all
  from this [OF wired_frame(1)] show ?thesis .
qed

definition wired_blk :: "u32 \<Rightarrow> u64 \<Rightarrow> bytes" where
  "wired_blk d off = (if d = 0 \<and> off = 16 then [7, 8] else [])"

definition wired_system :: system where
  "wired_system = \<lparr>sy_client = wired_client (block_hash wired_blk (0, 16)),
     sy_server = sample_receiver\<lparr>rv_sessions := [], rv_rx := \<lambda>_. []\<rparr>, sy_up = \<lambda>_. 0, sy_down = \<lambda>_. 0\<rparr>"

lemma wired_start: "sys_start wired_blk wired_system"
proof -
  let ?c = "wired_client (block_hash wired_blk (0, 16))"
  have "list_all (entry_ok wired_blk) (q_entries (snd (queue_init True)))"
    by (simp add: queue_init_def list_all_iff entry_ok_def zero_entry_def)
  then have q: "queue_ok (m_queue ?c) \<and> list_all (entry_ok wired_blk) (q_entries (m_queue ?c))"
    using push_entries_ok [OF queue_init_ok(1), of wired_blk True "block_encoding 0 16 [7, 8]" 0 16 True "block_hash wired_blk (0, 16)"]
    by (simp add: wired_client_def wired_blk_def)
  have "view empty_db = (\<lambda>_. None)" by (simp add: view_def row_of_def empty_db_def fun_eq_iff)
  then have rows: "tracked_ok wired_blk D (m_db ?c)" for D
    by (simp add: tracked_ok_def wired_client_def sample_client_def view_upsert)
  have apart: "disks_apart (rv_writer sample_receiver)"
    by (auto simp: disks_apart_def sample_receiver_def sample_writer_def MAX_TARGET_DISKS_def nth_Cons' split: if_splits)
  show ?thesis
    using q rows apart unfolding sys_start_def Let_def wired_system_def
    by (simp add: wired_client_def sample_client_def msgpack_writer_init_def writer_ok_def sample_receiver_def atomic_sends_def list_all_iff)
qed

lemma wired_flush:
  "\<exists>s'. flush_one store_zc (wired_client h) = Some (1, s') \<and> sk_out (x_socks s' 9) = data_frame (0 # block_encoding 0 16 [7, 8]) \<and>
    m_db s' = m_db (wired_client h) \<and> \<not> m_dry_run s' \<and> \<not> m_tail_send s' \<and> (\<forall>t. x_sql s' t = Runs) \<and> x_rx s' = (\<lambda>_. []) \<and>
    9 \<in> open_fds (m_pool s') [0..<SOCKET_POOL_TARGET]"
proof -
  let ?s = "wired_client h" and ?msg = "block_encoding 0 16 [7, 8]"
  obtain p where p: "pool_acquire (None, Refused) 0 (wired_pool (replicate SEND_SCRATCH_SIZE 0)) = (Some 6, p)" "c_fd (p_conns p ! 6) = 9"
    "c_send_scratch (p_conns p ! 6) = Some (replicate SEND_SCRATCH_SIZE 0)" using wired_pool_slot by blast
  have s: "\<not> m_dry_run ?s" "pool_ok (m_pool ?s)" "pool_acquire (x_net ?s (x_tick ?s)) (x_time ?s (x_tick ?s + 1)) (m_pool ?s) = (Some 6, p)"
    "takes (sk_script (x_socks ?s 9)) (length (data_frame (0 # ?msg)))"
    "store_zc (m_zstd_level ?s) ?msg (ZSTD_COMPRESS_BOUND (of_nat (length ?msg))) = Some (0 # ?msg)"
    "sk_out (x_socks ?s 9) = []" "\<not> m_tail_send ?s" "\<forall>t. x_sql ?s t = Runs" "x_rx ?s = (\<lambda>_. [])"
    using wired_pool_ok p(1) wired_takes wired_frame(3) by (simp_all add: wired_client_def sample_client_def)
  have "zstd_fits store_zc" using store_contract by (auto simp: zstd_contract_def zstd_fits_def)
  from flush_one_sends [OF s(1) wired_queue(1) wired_queue(2) _ _ refl _ this s(5,2,3) p(3) _ p(2) [symmetric] s(4)] s(6-9) show ?thesis
    by (auto simp: proto_consts)
qed

lemma wired_serve:
  "\<exists>st'. handle_session store_zsize store_zd sample_env 0 True 0
      (sample_receiver\<lparr>rv_rx := (\<lambda>_. [])(5 := [Avail (data_frame (0 # block_encoding 0 16 [7, 8]))])\<rparr>) = Some st' \<and>
    sk_out (rv_socks st' 5) = response_bytes \<lparr>r_type = RESPONSE_ACK, r_devno = 0, r_size = 2, r_offset = 16\<rparr>"
proof -
  let ?m = "Block 0 16 [7, 8]" and ?f = "data_frame (0 # block_encoding 0 16 [7, 8])"
  let ?st = "sample_receiver\<lparr>rv_rx := (\<lambda>_. [])(5 := [Avail ?f])\<rparr>"
  have server: "session_ok (rv_sessions ?st ! 0)" "pending (rv_sessions ?st ! 0) = []" "list_all (accepts sample_env (rv_writer ?st)) [?m]"
    "bw_pending_bytes (rv_writer ?st) = 0" "calm [?m] (rv_writer ?st) (rv_socks ?st 5)"
    "s_fd (rv_sessions ?st ! 0) = 5" "0 < length (rv_sessions ?st)" "sk_out (rv_socks ?st 5) = []"
    by (simp_all add: sample_receiver_def session_ok_def pending_def new_session_def accepts_def sample_writer_def sample_env_def
        MAX_TARGET_DISKS_def proto_consts calm_def numeral_2_eq_2)
  obtain w sk where e: "effects sample_env [?m] (rv_writer ?st) (rv_socks ?st 5) = Some (w, sk)"
    "sk_out sk = response_bytes \<lparr>r_type = RESPONSE_ACK, r_devno = 0, r_size = 2, r_offset = 16\<rparr>"
    using effects_calm [OF server(3-5)] server(8) by (auto simp: responses_of_def)
  have "list_all2 (sent_as store_zc) [?m] [?f]"
    using wired_frame(3) by (auto simp: sent_as_def Let_def proto_consts)
  moreover have "\<forall>c \<in> set [?f]. c \<noteq> [] \<and> length c \<le> RECV_CHUNK" using wired_frame(1,2) by (simp add: RECV_CHUNK_def)
  moreover have "concat [?f] = concat [?f]" "rv_rx ?st (s_fd (rv_sessions ?st ! 0)) = map Avail [?f]" using server(6) by simp_all
  ultimately show ?thesis
    using handle_session_frames [OF store_contract refl server(7,1,2), of "[?m]" "[?f]" "[?f]" sample_env w sk 0] e server(6) by auto
qed

lemma wired_run:
  "\<exists>y. (sys_step store_zc store_zsize store_zd (\<lambda>_. 9) wired_blk)\<^sup>*\<^sup>* wired_system y \<and>
     view (m_db (sy_client y)) (0, 16) = Some (block_hash wired_blk (0, 16), True)"
proof -
  let ?step = "sys_step store_zc store_zsize store_zd (\<lambda>_. 9) wired_blk" and ?f = "data_frame (0 # block_encoding 0 16 [7, 8])"
  let ?h = "block_hash wired_blk (0, 16)" and ?r = "\<lparr>r_type = RESPONSE_ACK, r_devno = 0, r_size = 2, r_offset = 16\<rparr>"
  obtain s' where s': "flush_one store_zc (wired_client ?h) = Some (1, s')" "sk_out (x_socks s' 9) = ?f" "m_db s' = m_db (wired_client ?h)"
    "\<not> m_dry_run s'" "\<not> m_tail_send s'" "\<forall>t. x_sql s' t = Runs" "x_rx s' = (\<lambda>_. [])" "9 \<in> open_fds (m_pool s') [0..<SOCKET_POOL_TARGET]"
    using wired_flush by blast
  obtain st' where st': "handle_session store_zsize store_zd sample_env 0 True 0 (sample_receiver\<lparr>rv_rx := (\<lambda>_. [])(5 := [Avail ?f])\<rparr>) = Some st'"
    "sk_out (rv_socks st' 5) = response_bytes ?r" using wired_serve by blast
  let ?y1 = "wired_system\<lparr>sy_server := sample_receiver\<lparr>rv_rx := \<lambda>_. []\<rparr>\<rparr>"
  let ?y2 = "?y1\<lparr>sy_client := s'\<rparr>"
  let ?y3 = "?y2\<lparr>sy_server := sample_receiver\<lparr>rv_rx := (\<lambda>_. [])(5 := [Avail ?f])\<rparr>, sy_up := (\<lambda>_. 0)(5 := length ?f)\<rparr>"
  let ?y4 = "?y3\<lparr>sy_server := st'\<rparr>"
  let ?s5 = "s'\<lparr>x_rx := \<lambda>f. if f = 9 then [Avail (response_bytes ?r)] else []\<rparr>"
  let ?y5 = "?y4\<lparr>sy_client := ?s5, sy_down := (\<lambda>_. 0)(5 := 1)\<rparr>"
  let ?y6 = "?y5\<lparr>sy_client := process_ack ?s5\<rparr>"
  have "?step wired_system ?y1"
    using accept [of 5 wired_system store_zc store_zsize store_zd "\<lambda>_. 9" wired_blk 7 0 True "''10.0.0.1''"]
    by (simp add: wired_system_def accept_conn_def session_create_def session_count_def MAX_SESSIONS_def sample_receiver_def fds_def Let_def)
  moreover have "?step ?y1 ?y2" using flush [of store_zc ?y1 1 s'] s'(1) by (simp add: wired_system_def)
  moreover have "?step ?y2 ?y3"
    using up [of ?y2 5 "\<lambda>_. 9" ?f "[]"] s'(2) wired_frame(2) by (simp add: wired_system_def fun_upd_def cong: if_cong)
  moreover have "?step ?y3 ?y4" using serve [of 0 ?y3] st'(1) by (simp add: sample_receiver_def)
  moreover have "?step ?y4 ?y5"
  proof -
    have "response_bytes ?r \<noteq> []" using resp.enc_width [of ?r] by (auto simp: SERVER_RESPONSE_SIZE_def)
    then show ?thesis
      using down [of ?y4 5 "[?r]" "[]" store_zc store_zsize store_zd "\<lambda>_. 9" wired_blk] st'(2) s'(7)
      by (simp add: wired_system_def inbox_def fun_upd_def cong: if_cong)
  qed
  moreover have "?step ?y5 ?y6" using responses [of store_zc store_zsize store_zd "\<lambda>_. 9" wired_blk ?y5] by simp
  ultimately have run: "?step\<^sup>*\<^sup>* wired_system ?y6" by (meson converse_rtranclp_into_rtranclp rtranclp.rtrancl_refl)
  have "view (m_db (wired_client ?h)) (0, 16) = Some (?h, False)" by (simp add: wired_client_def sample_client_def view_upsert)
  then have acked: "view (m_db (sy_client ?y6)) (0, 16) = Some (?h, True)"
    using process_ack_one [OF s'(4,5,6,8), of ?r ?h False] s'(3) by simp
  with run show ?thesis by blast
qed

lemma wired_source: "coherent wired_blk" "\<forall>d off. length (wired_blk d off) \<le> BLOCK_SIZE"
  by (auto simp: coherent_def wired_blk_def BLOCK_SIZE_def)


end
