(* ===== verification/Log.thy ===== *)
theory Log
  imports Config
begin

text \<open>
  The log module, \<^verbatim>\<open>client/log.c\<close> (the receiver's copy is in \<open>Server_Log\<close>).  The state is the
  level and the open stream; \<open>log_write\<close> returns the line it puts on the stream.  Opening the log file, the broken-down
  local time and the expansion of the format string are arguments; the lock around the output makes a line one step.
\<close>

definition LOG_LEVEL_TRACE :: int where "LOG_LEVEL_TRACE = 1"
definition LOG_LEVEL_DEBUG :: int where "LOG_LEVEL_DEBUG = 2"
definition LOG_LEVEL_INFO :: int where "LOG_LEVEL_INFO = 3"
definition LOG_LEVEL_WARN :: int where "LOG_LEVEL_WARN = 4"
definition LOG_LEVEL_ERROR :: int where "LOG_LEVEL_ERROR = 5"

lemmas log_levels = LOG_LEVEL_TRACE_def LOG_LEVEL_DEBUG_def LOG_LEVEL_INFO_def LOG_LEVEL_WARN_def LOG_LEVEL_ERROR_def

datatype stream = Stderr | LogFile string

record log_state =
  g_log_level :: int
  g_log_file :: "stream option"

text \<open>\<open>tm\<close> with the years since 1900 and the months from 0, as in C.\<close>

record tm_t =
  tm_year :: int
  tm_mon :: int
  tm_mday :: int
  tm_hour :: int
  tm_min :: int
  tm_sec :: int

definition log_init :: "(string \<Rightarrow> bool) \<Rightarrow> int \<Rightarrow> string option \<Rightarrow> log_state \<Rightarrow> int \<times> log_state" where
  "log_init opens level filepath g =
     (let g = g\<lparr>g_log_level := level\<rparr> in
      case filepath of
        None \<Rightarrow> (0, g\<lparr>g_log_file := Some Stderr\<rparr>)
      | Some path \<Rightarrow> if opens path then (0, g\<lparr>g_log_file := Some (LogFile path)\<rparr>) else (-1, g\<lparr>g_log_file := None\<rparr>))"

text \<open>The stream closed, if it is not the standard error stream, and the state after it.\<close>

definition log_close :: "log_state \<Rightarrow> stream option \<times> log_state" where
  "log_close g = (if g_log_file g \<noteq> Some Stderr then g_log_file g else None, g\<lparr>g_log_file := None\<rparr>)"

definition log_tag :: "int \<Rightarrow> string" where
  "log_tag level =
     (if level = 1 then ''[TRACE]'' else if level = 2 then ''[DEBUG]'' else if level = 3 then ''[INFO ]''
      else if level = 4 then ''[WARN ]'' else if level = 5 then ''[ERROR]'' else ''[     ]'')"

text \<open>The conversion \<open>%0nd\<close>; \<open>strrchr\<close> returns the rest of the string from the last occurrence on.\<close>

definition pad_d :: "nat \<Rightarrow> int \<Rightarrow> string" where
  "pad_d n i =
     (if i < 0 then CHR ''-'' # replicate (n - 1 - length (fmt_d (- i))) (CHR ''0'') @ fmt_d (- i)
      else replicate (n - length (fmt_d i)) (CHR ''0'') @ fmt_d i)"

definition log_time :: "tm_t \<Rightarrow> string" where
  "log_time t =
     snprintf 32 (pad_d 4 (tm_year t + 1900) @ CHR ''/'' # pad_d 2 (tm_mon t + 1) @ CHR ''/'' # pad_d 2 (tm_mday t) @ CHR '' '' #
       pad_d 2 (tm_hour t) @ CHR '':'' # pad_d 2 (tm_min t) @ CHR '':'' # pad_d 2 (tm_sec t))"

fun strrchr :: "string \<Rightarrow> char \<Rightarrow> string option" where
  "strrchr [] c = None"
| "strrchr (x # xs) c = (case strrchr xs c of Some r \<Rightarrow> Some r | None \<Rightarrow> if x = c then Some (x # xs) else None)"

definition log_fname :: "string \<Rightarrow> string" where
  "log_fname file =
     (case (case strrchr file (CHR ''/'') of None \<Rightarrow> strrchr file (CHR 0x5C) | Some r \<Rightarrow> Some r) of
        None \<Rightarrow> file
      | Some r \<Rightarrow> tl r)"

definition log_write :: "tm_t \<Rightarrow> int \<Rightarrow> string \<Rightarrow> int \<Rightarrow> string \<Rightarrow> log_state \<Rightarrow> (stream \<times> string) option" where
  "log_write now level file line msg g =
     (if level < g_log_level g then None
      else
        case g_log_file g of
          None \<Rightarrow> None
        | Some f \<Rightarrow> Some (f, log_tag level @ CHR '' '' # log_time now @ CHR '' '' # log_fname file @ CHR '':'' # fmt_d line @
            '' -| '' @ snprintf 4096 msg @ [CHR 0x0A]))"

section \<open>The name of the source file\<close>

lemma strrchr_None: "strrchr s c = None \<longleftrightarrow> c \<notin> set s"
  by (induction s) (auto split: option.splits)

lemma strrchr_last: "c \<notin> set t \<Longrightarrow> strrchr (s @ c # t) c = Some (c # t)"
  by (induction s) (simp_all add: strrchr_None [THEN iffD2])

lemma log_fname_last: "CHR ''/'' \<notin> set name \<Longrightarrow> log_fname (dir @ CHR ''/'' # name) = name"
  by (simp add: log_fname_def strrchr_last)

lemma log_fname_windows:
  assumes "CHR ''/'' \<notin> set dir" "CHR ''/'' \<notin> set name" "CHR 0x5C \<notin> set name"
  shows "log_fname (dir @ CHR 0x5C # name) = name"
  using assms strrchr_None [of "dir @ CHR 0x5C # name" "CHR ''/''"] by (simp add: log_fname_def strrchr_last)

text \<open>
  After \<open>log_init\<close> a message is written exactly when its level is at least the configured one and the log is open:
  on the standard error stream without a path, in the file when it can be opened, and nowhere when it cannot; after
  \<open>log_close\<close> nothing is written.
\<close>
theorem log_write_iff:
  assumes "log_init opens level path g = (rc, g')"
  shows "(log_write now l file line msg g' \<noteq> None \<longleftrightarrow> level \<le> l \<and> rc = 0) \<and>
    (rc = 0 \<longleftrightarrow> (\<forall>p. path = Some p \<longrightarrow> opens p)) \<and>
    (log_write now l file line msg g' = Some (f, s) \<longrightarrow> f = (case path of None \<Rightarrow> Stderr | Some p \<Rightarrow> LogFile p)) \<and>
    log_write now l file line msg (snd (log_close g')) = None"
  using assms by (auto simp: log_init_def log_write_def log_close_def Let_def split: option.splits if_splits)

end
