(* ===== verification/Server_Log.thy ===== *)
theory Server_Log
  imports Log
begin

text \<open>
  The receiver's copy of the log module, \<^verbatim>\<open>server/log.c\<close>.  It keeps a level and a stream of its own and differs from
  the client's in the buffer for the time, 64 bytes instead of 32.  The table of level tags and the name of the
  source file are computed as in \<open>Log\<close>.
\<close>

definition server_log_init :: "(string \<Rightarrow> bool) \<Rightarrow> int \<Rightarrow> string option \<Rightarrow> log_state \<Rightarrow> int \<times> log_state" where
  "server_log_init opens level filepath g =
     (let g = g\<lparr>g_log_level := level\<rparr> in
      case filepath of
        Some path \<Rightarrow>
          (let g = g\<lparr>g_log_file := if opens path then Some (LogFile path) else None\<rparr> in
           if g_log_file g = None then (-1, g) else (0, g))
      | None \<Rightarrow> (0, g\<lparr>g_log_file := Some Stderr\<rparr>))"

definition server_log_close :: "log_state \<Rightarrow> stream option \<times> log_state" where
  "server_log_close g =
     (if g_log_file g \<noteq> None \<and> g_log_file g \<noteq> Some Stderr then g_log_file g else None, g\<lparr>g_log_file := None\<rparr>)"

definition server_log_time :: "tm_t \<Rightarrow> string" where
  "server_log_time t =
     snprintf 64 (pad_d 4 (tm_year t + 1900) @ CHR ''/'' # pad_d 2 (tm_mon t + 1) @ CHR ''/'' # pad_d 2 (tm_mday t) @ CHR '' '' #
       pad_d 2 (tm_hour t) @ CHR '':'' # pad_d 2 (tm_min t) @ CHR '':'' # pad_d 2 (tm_sec t))"

definition server_log_write :: "tm_t \<Rightarrow> int \<Rightarrow> string \<Rightarrow> int \<Rightarrow> string \<Rightarrow> log_state \<Rightarrow> (stream \<times> string) option" where
  "server_log_write now level file line msg g =
     (if level < g_log_level g then None
      else
        case g_log_file g of
          None \<Rightarrow> None
        | Some f \<Rightarrow> Some (f, log_tag level @ CHR '' '' # server_log_time now @ CHR '' '' # log_fname file @ CHR '':'' # fmt_d line @
            '' -| '' @ snprintf 4096 msg @ [CHR 0x0A]))"

section \<open>Both ends log alike\<close>

lemma length_pad_d:
  assumes "0 \<le> i" "i < 10 ^ n" "0 < n"
  shows "length (pad_d n i) = n"
proof -
  have "length (dec (nat i)) \<le> n"
    by (rule length_dec) (use assms in \<open>simp_all add: nat_less_iff\<close>)
  then show ?thesis using assms(1) by (simp add: pad_d_def fmt_d_def)
qed

definition calendar :: "tm_t \<Rightarrow> bool" where
  "calendar t \<longleftrightarrow> -1900 \<le> tm_year t \<and> tm_year t < 8100 \<and> 0 \<le> tm_mon t \<and> tm_mon t < 12 \<and> 1 \<le> tm_mday t \<and> tm_mday t \<le> 31 \<and>
     0 \<le> tm_hour t \<and> tm_hour t < 24 \<and> 0 \<le> tm_min t \<and> tm_min t < 60 \<and> 0 \<le> tm_sec t \<and> tm_sec t \<le> 60"

lemma calendar_lengths:
  assumes "calendar t"
  shows "length (pad_d 4 (tm_year t + 1900)) = 4" "length (pad_d 2 (tm_mon t + 1)) = 2" "length (pad_d 2 (tm_mday t)) = 2"
    "length (pad_d 2 (tm_hour t)) = 2" "length (pad_d 2 (tm_min t)) = 2" "length (pad_d 2 (tm_sec t)) = 2"
  using assms by (auto simp: calendar_def intro!: length_pad_d)

lemma server_log_time_same: "calendar t \<Longrightarrow> server_log_time t = log_time t \<and> length (log_time t) = 19"
  by (simp add: server_log_time_def log_time_def snprintf_def calendar_lengths)

text \<open>
  The two log modules agree: opening and closing give the same results, and for every time of the calendar
  (years 0 to 9999) the same call writes the same line, with a time of 19 characters.
\<close>

theorem server_log_agrees:
  shows "server_log_init opens level path g = log_init opens level path g"
    and "server_log_close g = log_close g"
    and "calendar now \<Longrightarrow> server_log_write now level file line msg g = log_write now level file line msg g"
  by (auto simp: server_log_init_def log_init_def server_log_close_def log_close_def server_log_write_def log_write_def
      server_log_time_same Let_def split: option.split)

end
