(* ===== verification/Receiver_Main.thy ===== *)
theory Receiver_Main
  imports Receiver Server_Log
begin

text \<open>
  The start and the end of the receiver, \<open>main\<close> of \<^verbatim>\<open>server/main.c\<close>: the command line, the configuration, the log, the
  target disks, the listening socket, the select loop (\<open>server_run\<close> of theory \<open>Receiver\<close>) and the shutdown.

  The file system (\<open>fs\<close>, with the number of bytes \<open>fread\<close> delivers), the opening of disks (\<open>opened\<close>) and of the log
  file (\<open>log_opens\<close>), and the outcomes of the socket calls (\<open>listen_env\<close>) are arguments.
\<close>

section \<open>Command line, configuration, socket\<close>

text \<open>The path of the configuration; \<open>None\<close> when the usage is printed.\<close>

fun server_args :: "string \<Rightarrow> string list \<Rightarrow> string option" where
  "server_args path [] = Some path"
| "server_args path [a] = (if a = ''--help'' \<or> a = ''-h'' then None else Some path)"
| "server_args path (a # b # rest) =
     (if a = ''--config'' then server_args b rest
      else if a = ''--help'' \<or> a = ''-h'' then None
      else server_args path (b # rest))"

text \<open>The contents of a file as a C string: it ends at the first null character.\<close>

definition read_file_all :: "(string \<Rightarrow> (string \<times> nat) option) \<Rightarrow> (nat \<Rightarrow> bool) \<Rightarrow> string \<Rightarrow> string option" where
  "read_file_all fs alloc path =
     (case fs path of
        None \<Rightarrow> None
      | Some (contents, got) \<Rightarrow>
          if \<not> alloc (length contents + 1) then None
          else if got \<noteq> length contents then None
          else Some (takeWhile (\<lambda>c. c \<noteq> CHR 0x00) contents))"

definition log_config :: "string option \<Rightarrow> int \<times> string option" where
  "log_config config_json =
     (case config_json of
        None \<Rightarrow> (LOG_LEVEL_INFO, None)
      | Some json \<Rightarrow>
          (case server_json_nav json ''Log'' of
             None \<Rightarrow> (LOG_LEVEL_INFO, None)
           | Some sec \<Rightarrow>
               (json_read_int sec ''Level'' LOG_LEVEL_INFO,
                case json_read_str sec ''Path'' 256 of None \<Rightarrow> None | Some p \<Rightarrow> if p = [] then None else Some p)))"

record listen_env =
  le_socket :: int
  le_inet_addr :: "string \<Rightarrow> u32"
  le_bind :: "u32 \<Rightarrow> 16 word \<Rightarrow> bool"
  le_listen :: bool

definition INADDR_ANY :: u32 where "INADDR_ANY = 0"

text \<open>The listening socket, -1 for failure, and the descriptors closed.\<close>

definition server_listen :: "listen_env \<Rightarrow> server_config_t \<Rightarrow> int \<times> int list" where
  "server_listen env cfg =
     (let fd = le_socket env in
      if fd = -1 then (-1, [])
      else
        let addr = (if cfg_address cfg = ''0.0.0.0'' then INADDR_ANY else le_inet_addr env (cfg_address cfg))
        in if \<not> le_bind env addr (cfg_port cfg) then (-1, [fd])
           else if \<not> le_listen env then (-1, [fd])
           else (fd, []))"

section \<open>The whole program\<close>

definition shutdown :: "disk_env \<Rightarrow> int \<Rightarrow> receiver \<Rightarrow> receiver" where
  "shutdown env listen_fd st =
     st\<lparr>rv_closed := listen_fd # rv_closed st,
        rv_writer := block_writer_close_all env (snd (block_writer_fsync_all env (rv_writer st)))\<rparr>"

definition receiver_main ::
  "(string \<Rightarrow> (string \<times> nat) option) \<Rightarrow> (nat \<Rightarrow> bool) \<Rightarrow> (string \<Rightarrow> bool) \<Rightarrow> listen_env \<Rightarrow> (string \<Rightarrow> int) \<Rightarrow>
   (bytes \<Rightarrow> content_size) \<Rightarrow> (bytes \<Rightarrow> nat \<Rightarrow> bytes option) \<Rightarrow> disk_env \<Rightarrow> int \<Rightarrow> bool \<Rightarrow> server_event list \<Rightarrow>
   string list \<Rightarrow> log_state \<Rightarrow> receiver \<Rightarrow> (int \<times> log_state \<times> receiver) option" where
  "receiver_main fs mem log_opens lenv opened zsize zd env now alloc evs argv lg st =
     (case server_args ''receiver.json'' (tl argv) of
        None \<Rightarrow> Some (0, lg, st)
      | Some path \<Rightarrow>
          let config_json = read_file_all fs mem path;
              (log_level, log_path) = log_config config_json;
              lg = snd (server_log_init log_opens log_level log_path lg);
              cfg = parse_listen config_json;
              (rc, w) = block_writer_open_all opened (setup_disks config_json (rv_writer st));
              st = st\<lparr>rv_sessions := session_mgr_init, rv_writer := w\<rparr>
          in if rc < 0 then Some (1, lg, st)
             else
               let (listen_fd, closed) = server_listen lenv cfg;
                   st = st\<lparr>rv_closed := closed @ rv_closed st\<rparr>
               in if listen_fd = -1 then Some (1, lg, st)
                  else
                    case server_run zsize zd env (cfg_max_connections cfg) now alloc evs True st of
                      None \<Rightarrow> None
                    | Some (_, st) \<Rightarrow> Some (0, snd (server_log_close lg), shutdown env listen_fd st))"

section \<open>The receiver touches its target disks only\<close>

definition target_fds :: "block_writer \<Rightarrow> int set" where
  "target_fds w = {fd. 0 \<le> fd \<and> (\<exists>i < MAX_TARGET_DISKS. fd = d_fd (bw_disks w ! i))}"

text \<open>Between \<open>w\<close> and \<open>w'\<close> the same disks are open and no other file has changed.\<close>

definition within :: "block_writer \<Rightarrow> block_writer \<Rightarrow> bool" where
  "within w w' \<longleftrightarrow> bw_disks w' = bw_disks w \<and> (\<forall>fd. fd \<notin> target_fds w \<longrightarrow> bw_files w' fd = bw_files w fd)"

lemma within_refl [simp]: "within w w"
  by (simp add: within_def)

lemma within_trans [trans]: "within a b \<Longrightarrow> within b c \<Longrightarrow> within a c"
  by (auto simp: within_def target_fds_def)

lemma fsync_within: "within w (snd (block_writer_fsync_all env w))"
  by (simp add: within_def fsync_all_result)

lemma write_within:
  assumes "block_writer_write env devno off data len w = Some (rc, w')"
  shows "within w w'"
  using assms
  by (cases rule: block_writer_write_cases)
    (auto simp: within_def target_fds_def after_write_frame dest: devno_index)

lemma handle_msg_within: "handle_msg env now msg s w sk = Some (s', w', sk') \<Longrightarrow> within w w'"
  using fsync_within [of w env]
  by (auto simp: handle_msg_def Let_def block_writer_pending_bytes_def split: decode_result_t.splits option.splits if_splits
      dest!: write_within) (auto simp: within_def)

lemma drain_frames_within:
  assumes "drain_frames zsize zd env now x w sk = Some (rc, s, msg, w', sk')"
  shows "within w w'"
  using assms
proof (induction zsize zd env now x w sk rule: drain_frames.induct)
  case (1 zsize zd env now r t m w sk)
  show ?case
  proof (cases "r = 1")
    case True
    then obtain t1 w1 sk1 where h: "handle_msg env now m t w sk = Some (t1, w1, sk1)"
      "drain_frames zsize zd env now (protocol_decode zsize zd t1 [] m) w1 sk1 = Some (rc, s, msg, w', sk')"
      using "1.prems" by (auto simp: drain_frames.simps [of zsize zd env now r] split: option.splits)
    show ?thesis
      using within_trans [OF handle_msg_within [OF h(1)]] "1.IH" [OF True h(1)] h(2) by blast
  qed (use "1.prems" in simp)
qed

lemma session_loop_within:
  assumes "session_loop zsize zd env now rx s msg w sk = Some (removed, rx', s', w', sk')"
  shows "within w w'"
  using assms
proof (induction zsize zd env now rx s msg w sk rule: session_loop.induct)
  case (1 zsize zd env now rx s msg w sk)
  note prems = "1.prems" [unfolded session_loop.simps [of zsize zd env now rx]]
  show ?case
  proof (cases "\<exists>bs rx1. rx = Avail bs # rx1 \<and> bs \<noteq> []")
    case True
    then obtain bs rx1 where rx: "rx = Avail bs # rx1" "bs \<noteq> []" by blast
    define n where "n = min RECV_CHUNK (length bs)"
    then have n: "n \<noteq> 0" using rx(2) by (simp add: RECV_CHUNK_def)
    obtain r1 s1 m1 w1 sk1 where d: "drain_frames zsize zd env now (protocol_decode zsize zd s (take n bs) msg) w sk = Some (r1, s1, m1, w1, sk1)"
      using prems rx(1) n by (auto simp: Let_def n_def [symmetric] split: option.splits)
    have "within w1 w'"
      using prems "1.IH" [OF rx(1) refl n_def n d refl refl refl refl refl] rx(1) n d by (auto simp: Let_def n_def [symmetric] split: if_splits)
    then show ?thesis by (rule within_trans [OF drain_frames_within [OF d]])
  qed (use prems in \<open>auto simp: Let_def split: list.splits recv_outcome.splits\<close>)
qed

lemma rv_remove_writer [simp]: "rv_writer (rv_remove fd st) = rv_writer st"
  by (simp add: rv_remove_def split: prod.split)

lemma handle_session_within: "handle_session zsize zd env now alloc i st = Some st' \<Longrightarrow> within (rv_writer st) (rv_writer st')"
  by (auto simp: handle_session_def Let_def split: if_splits option.splits prod.splits dest!: session_loop_within)

lemma accept_conn_writer [simp]: "rv_writer (accept_conn mc now alloc acc st) = rv_writer st"
  by (auto simp: accept_conn_def split: option.splits prod.splits)

lemma server_run_within:
  assumes "server_run zsize zd env mc now alloc evs running st = Some (rc, st')"
  shows "within (rv_writer st) (rv_writer st')"
  using assms
proof (induction evs arbitrary: running st)
  case Nil
  then show ?case by (cases running) (auto simp: server_run_step)
next
  case (Cons e evs)
  have pass: "within (rv_writer st) (rv_writer st')"
    if "session_foreach rv_sessions (handle_active_cb zsize zd env now alloc ready) i st = Some st'" for ready i st st'
    by (rule session_foreach_rel [OF that, where R = "\<lambda>st st'. within (rv_writer st) (rv_writer st')"])
      (auto simp: handle_active_cb_def split: if_splits dest: handle_session_within intro: within_trans)
  show ?case
  proof (cases running)
    case True
    show ?thesis
    proof (cases e)
      case (SelectReady acc ready)
      then obtain st1 where "session_foreach rv_sessions (handle_active_cb zsize zd env now alloc ready) 0 (accept_conn mc now alloc acc st) = Some st1"
        "server_run zsize zd env mc now alloc evs True st1 = Some (rc, st')"
        using Cons.prems True by (auto simp: server_run_step split: option.splits)
      then show ?thesis using within_trans [OF _ Cons.IH] pass by fastforce
    qed (use Cons True in \<open>auto simp: server_run_step\<close>)
  qed (use Cons.prems in \<open>auto simp: server_run_step\<close>)
qed

section \<open>Start and end\<close>

lemma close_loop_result:
  assumes "set is \<subseteq> {..<length (bw_disks g)}"
  shows "bw_files (close_loop env is g) = bw_files g \<and> length (bw_disks (close_loop env is g)) = length (bw_disks g) \<and>
    (\<forall>fd. bw_durable g fd = bw_files g fd \<longrightarrow> bw_durable (close_loop env is g) fd = bw_files g fd) \<and>
    (\<forall>j < length (bw_disks g). j \<in> set is \<or> d_fd (bw_disks g ! j) < 0 \<longrightarrow> d_fd (bw_disks (close_loop env is g) ! j) < 0)"
  using assms
proof (induction "is" arbitrary: g)
  case (Cons i "is")
  let ?d = "bw_disks g ! i"
  show ?case
  proof (cases "0 \<le> d_fd ?d")
    case True
    let ?g = "snd (fsync_fd env (d_fd ?d) g)"
    let ?h = "?g\<lparr>bw_disks := (bw_disks ?g)[i := ?d\<lparr>d_fd := -1\<rparr>]\<rparr>"
    have f: "bw_disks ?g = bw_disks g" "bw_files ?g = bw_files g" "bw_durable g fd = bw_files g fd \<Longrightarrow> bw_durable ?g fd = bw_files g fd" for fd
      by (simp_all add: fsync_fd_def)
    have "set is \<subseteq> {..<length (bw_disks ?h)}" using Cons.prems f by simp
    from Cons.IH [OF this] show ?thesis using True f Cons.prems by (auto simp: Let_def nth_list_update)
  next
    case False
    then show ?thesis using Cons.IH [of g] Cons.prems by auto
  qed
qed simp

lemma setup_disks_length: "length (bw_disks (setup_disks json g)) = MAX_TARGET_DISKS"
proof -
  have reg: "length (bw_disks (snd (block_writer_register d p h))) = length (bw_disks h)" for d p h
    by (simp add: block_writer_register_def)
  have "length (bw_disks (register_disks sec is h)) = length (bw_disks h)" for sec "is" h
    by (induction sec "is" h rule: register_disks.induct) (auto simp: Let_def reg split: option.splits)
  then show ?thesis
    by (simp add: setup_disks_def Let_def reg block_writer_init_def split: option.split)
qed

lemma open_loop_keeps:
  "open_loop opened is g = (rc, g') \<Longrightarrow> length (bw_disks g') = length (bw_disks g) \<and> bw_files g' = bw_files g"
  by (induction opened "is" g arbitrary: rc g' rule: open_loop.induct) (fastforce simp: Let_def split: if_splits)+

lemma setup_disks_files: "bw_files (setup_disks json g) = bw_files g"
proof -
  have reg: "bw_files (snd (block_writer_register d p h)) = bw_files h" for d p h
    by (simp add: block_writer_register_def)
  have "bw_files (register_disks sec is h) = bw_files h" for sec "is" h
    by (induction sec "is" h rule: register_disks.induct) (auto simp: Let_def reg split: option.splits)
  then show ?thesis
    by (simp add: setup_disks_def Let_def reg block_writer_init_def split: option.split)
qed

lemma shutdown_result:
  assumes "length (bw_disks (rv_writer st)) = MAX_TARGET_DISKS" "\<forall>fd. de_fsync_ok env fd"
  shows "bw_files (rv_writer (shutdown env lfd st)) = bw_files (rv_writer st) \<and>
    (\<forall>fd \<in> target_fds (rv_writer st). bw_durable (rv_writer (shutdown env lfd st)) fd = bw_files (rv_writer st) fd) \<and>
    target_fds (rv_writer (shutdown env lfd st)) = {}"
proof -
  let ?w = "rv_writer st"
  let ?g = "snd (block_writer_fsync_all env ?w)"
  have g: "bw_disks ?g = bw_disks ?w" "bw_files ?g = bw_files ?w" by (simp_all add: fsync_all_result)
  have d: "bw_durable ?g fd = bw_files ?w fd" if "fd \<in> target_fds ?w" for fd
    using that assms(2) by (auto simp: fsync_all_result synced_def target_fds_def)
  have w: "rv_writer (shutdown env lfd st) = close_loop env [0..<MAX_TARGET_DISKS] ?g"
    by (simp add: shutdown_def block_writer_close_all_def)
  have "set [0..<MAX_TARGET_DISKS] \<subseteq> {..<length (bw_disks ?g)}" using assms(1) g by auto
  from close_loop_result [OF this, of env] show ?thesis
    using g d assms(1) by (force simp: w target_fds_def)
qed

text \<open>
  C19: The whole life of the receiver.  A start that fails (a disk that cannot be opened, no listening socket) ends with
  code 1 before any block is handled: no file has changed.  Otherwise the program ends with code 0, has changed no file
  but the target disks it opened, has closed all of them and the listening socket, and everything written to them is
  on stable storage if the disks flush when asked.
\<close>
theorem receiver_main_end:
  assumes "receiver_main fs mem log_opens lenv opened zsize zd env now alloc evs argv lg st = Some (rc, lg', st')"
    and "server_args ''receiver.json'' (tl argv) = Some path" "\<forall>fd. de_fsync_ok env fd"
    and "w = snd (block_writer_open_all opened (setup_disks (read_file_all fs mem path) (rv_writer st)))"
  shows "rc = 1 \<and> bw_files (rv_writer st') = bw_files (rv_writer st) \<or>
    rc = 0 \<and> (\<forall>fd. fd \<notin> target_fds w \<longrightarrow> bw_files (rv_writer st') fd = bw_files (rv_writer st) fd) \<and>
      (\<forall>fd \<in> target_fds w. bw_durable (rv_writer st') fd = bw_files (rv_writer st') fd) \<and>
      target_fds (rv_writer st') = {} \<and> le_socket lenv \<in> set (rv_closed st') \<and> g_log_file lg' = None"
proof -
  let ?json = "read_file_all fs mem path"
  let ?disks = "setup_disks ?json (rv_writer st)"
  obtain orc where open_all: "block_writer_open_all opened ?disks = (orc, w)"
    using assms(4) by (metis prod.collapse)
  have w: "length (bw_disks w) = MAX_TARGET_DISKS" "bw_files w = bw_files (rv_writer st)"
    using open_loop_keeps [OF open_all [unfolded block_writer_open_all_def]] setup_disks_length setup_disks_files by auto
  obtain level lpath where lc: "log_config ?json = (level, lpath)" by fastforce
  obtain lfd closed where l: "server_listen lenv (parse_listen ?json) = (lfd, closed)" by fastforce
  let ?st = "st\<lparr>rv_sessions := session_mgr_init, rv_writer := w, rv_closed := closed @ rv_closed st\<rparr>"
  let ?lg = "snd (server_log_init log_opens level lpath lg)"
  have main: "(if orc < 0 then Some (1, ?lg, st\<lparr>rv_sessions := session_mgr_init, rv_writer := w\<rparr>)
      else if lfd = -1 then Some (1, ?lg, ?st)
      else case server_run zsize zd env (cfg_max_connections (parse_listen ?json)) now alloc evs True ?st of
        None \<Rightarrow> None | Some (_, st) \<Rightarrow> Some (0, snd (server_log_close ?lg), shutdown env lfd st)) = Some (rc, lg', st')"
    using assms(1,2) by (simp add: receiver_main_def Let_def open_all lc l cong: if_cong)
  show ?thesis
  proof (cases "orc < 0 \<or> lfd = -1")
    case True
    then show ?thesis using main w(2) by (auto split: if_splits)
  next
    case False
    then obtain r st1 where run: "server_run zsize zd env (cfg_max_connections (parse_listen ?json)) now alloc evs True ?st = Some (r, st1)"
      and fin: "rc = 0" "st' = shutdown env lfd st1" "g_log_file lg' = None"
      using main by (auto simp: server_log_close_def split: option.splits)
    have wi: "within w (rv_writer st1)" using server_run_within [OF run] by simp
    then have "target_fds (rv_writer st1) = target_fds w" by (simp add: within_def target_fds_def)
    moreover have "le_socket lenv = lfd" using l False by (auto simp: server_listen_def Let_def split: if_splits)
    ultimately show ?thesis
      using shutdown_result [of st1 env lfd] wi w assms(3) fin by (auto simp: within_def) (auto simp: shutdown_def)
  qed
qed

lemma open_loop_ok: "\<forall>p. 0 \<le> opened p \<Longrightarrow> fst (open_loop opened is g) = 0"
  by (induction opened "is" g rule: open_loop.induct) (auto simp: Let_def not_less [symmetric])

definition sample_listen :: listen_env where
  "sample_listen = \<lparr>le_socket = 5, le_inet_addr = (\<lambda>_. 0), le_bind = (\<lambda>_ _. True), le_listen = True\<rparr>"

theorem receiver_main_end_witness:
  "\<exists>lg' st'. receiver_main (\<lambda>_. None) (\<lambda>_. True) (\<lambda>_. True) sample_listen (\<lambda>_. 3) store_zsize store_zd sample_env 0 True [Signal 15]
      [''receiver''] \<lparr>g_log_level = 3, g_log_file = None\<rparr> sample_receiver = Some (0, lg', st') \<and> target_fds (rv_writer st') = {} \<and> 5 \<in> set (rv_closed st')"
proof -
  have "fst (block_writer_open_all (\<lambda>_. 3) g) = 0" for g
    unfolding block_writer_open_all_def by (rule open_loop_ok) simp
  then obtain lg' st' where run: "receiver_main (\<lambda>_. None) (\<lambda>_. True) (\<lambda>_. True) sample_listen (\<lambda>_. 3) store_zsize store_zd sample_env 0 True
      [Signal 15] [''receiver''] \<lparr>g_log_level = 3, g_log_file = None\<rparr> sample_receiver = Some (0, lg', st')"
    by (auto simp: receiver_main_def Let_def split_beta read_file_all_def parse_listen_def server_listen_def sample_listen_def server_run_step
        signal_handler_def)
  have "\<forall>fd. de_fsync_ok sample_env fd" by (simp add: sample_env_def)
  from receiver_main_end [OF run _ this refl] run show ?thesis by (auto simp: sample_listen_def)
qed

text \<open>
  The example configuration in the comment at the top of the source gives the log level by its name.  The level is read
  as a number: the name counts as 0, below every level, so that all messages are logged.
\<close>
theorem level_name_is_zero:
  "log_config (Some ([CHR ''{'', QUOTE] @ ''Log'' @ [QUOTE] @ '': {'' @ [QUOTE] @ ''Level'' @ [QUOTE] @ '': '' @ [QUOTE] @ ''info'' @ [QUOTE] @ '', '' @
     [QUOTE] @ ''Path'' @ [QUOTE] @ '': '' @ [QUOTE] @ ''/var/log/receiver.log'' @ [QUOTE] @ ''}}'')) = (0, Some ''/var/log/receiver.log'')"
  by code_simp

end
