(* ===== verification/Commands.thy ===== *)
theory Commands
  imports Migrate
begin

text \<open>
  The commands of the client, \<^verbatim>\<open>client/main.c\<close>: the migration started by \<open>main\<close>, \<open>cmd_dryrun\<close>,
  the single-pass \<open>cmd_incsync\<close>, the queries \<open>cmd_end_session\<close>, \<open>cmd_sentbytes\<close>, \<open>cmd_blockinfo\<close>,
  \<open>cmd_hash\<close>, \<open>cmd_check\<close>, and the choice between them.

  What a command finds outside is an argument: the text of the configuration file (\<open>None\<close> when it
  cannot be read), the result of \<open>volume_enumerate\<close>, the tracking database at a path (\<open>opendb\<close>), the
  device at a path (\<open>opn\<close>) and the snapshot service.  A command starts from a state whose environment
  (the fields \<open>x_\<dots>\<close>) is arbitrary and whose context it overwrites.  Console output and logging are
  left out, and \<open>vol_list\<close> is not returned: no caller reads it after the command.
\<close>

section \<open>Configuration and start-up\<close>

record client_config_t =
  k_tail_send :: bool
  k_rate_limit_mb :: int
  k_db_path :: string

definition parse_client_config :: "string option \<Rightarrow> client_config_t" where
  "parse_client_config config_json =
     (case config_json of
        None \<Rightarrow> \<lparr>k_tail_send = False, k_rate_limit_mb = 100, k_db_path = ''tracker.db''\<rparr>
      | Some json \<Rightarrow>
          \<lparr>k_tail_send = (json_read_int json ''TailSend'' 0 \<noteq> 0),
           k_rate_limit_mb = json_read_int json ''RateLimitMB'' 100,
           k_db_path = (case json_read_str json ''DbPath'' 512 of Some p \<Rightarrow> p | None \<Rightarrow> ''tracker.db'')\<rparr>)"

definition zstd_level_of :: "bool \<Rightarrow> int" where
  "zstd_level_of tail_send = (if tail_send then ZSTD_COMPRESS_LEVEL_MIN else ZSTD_COMPRESS_LEVEL_MAX)"

text \<open>\<open>memset(&ctx, 0, sizeof(ctx))\<close>; \<open>ctx.db\<close> is set before it is used.\<close>

definition zero_pool :: socket_pool_t where
  "zero_pool = \<lparr>p_conns = replicate SOCKET_POOL_TARGET zero_conn, p_count = 0, p_next_index = 0, p_mutex = False\<rparr>"

definition zero_ctx :: "client \<Rightarrow> client" where
  "zero_ctx s = s\<lparr>m_server_ip := [], m_server_port := 0, m_zstd_level := 0, m_skip_disks := [], m_tail_send := False,
     m_pool := zero_pool,
     m_queue := \<lparr>q_entries = replicate QUEUE_CAPACITY zero_entry, q_head = 0, q_tail = 0, q_count = 0,
                 q_backpressure = False, q_mutex = False\<rparr>,
     m_timer := \<lparr>last_fire = \<lambda>_. 0, interval = \<lambda>_. 0\<rparr>,
     m_writer := \<lparr>w_buf = None, w_written = 0, w_capacity = 0\<rparr>, m_all_done := False, m_ctl_end_sent := False,
     m_server_done_rcvd := False, m_inc_round := 0, m_inc_version := 0, m_zero_change_rounds := 0, m_dry_run := False,
     m_rate_limit_mb := 0, m_rate_bytes_sent := 0, m_rate_window_start := 0, m_total_blocks := 0\<rparr>"

definition configure :: "bool \<Rightarrow> client_config_t \<Rightarrow> string \<times> 16 word \<Rightarrow> client \<Rightarrow> client" where
  "configure dry_run cfg target s = (zero_ctx s)\<lparr>m_server_ip := fst target, m_server_port := snd target,
     m_dry_run := dry_run, m_zstd_level := zstd_level_of (k_tail_send cfg), m_tail_send := k_tail_send cfg,
     m_rate_limit_mb := k_rate_limit_mb cfg\<rparr>"

definition init_writer :: "client \<Rightarrow> client" where
  "init_writer s = (let (al, s) = ask x_alloc s in s\<lparr>m_writer := msgpack_writer_init (\<lambda>_. al)\<rparr>)"

definition init_queue :: "client \<Rightarrow> client" where
  "init_queue s = (let (al, s) = ask x_alloc s in s\<lparr>m_queue := snd (queue_init al)\<rparr>)"

definition init_timer :: "client \<Rightarrow> client" where
  "init_timer s = (let (now, s) = ask x_clock s in s\<lparr>m_timer := timer_init now (m_timer s)\<rparr>)"

definition connect_pool :: "client \<Rightarrow> int \<times> client" where
  "connect_pool s =
     (let (al, s) = ask x_alloc s;
          (now, s) = ask x_time s;
          t = x_tick s;
          (rc, p) = pool_init al (\<lambda>i. x_alloc s (t + i)) (\<lambda>i. x_net s (t + i)) now (m_server_ip s) (m_server_port s)
      in (rc, s\<lparr>m_pool := p, x_tick := t + SOCKET_POOL_TARGET\<rparr>))"

definition cleanup :: "client \<Rightarrow> client" where
  "cleanup s = s\<lparr>m_pool := snd (pool_destroy (m_pool s)), m_queue := queue_destroy (m_queue s),
     m_writer := msgpack_writer_free (m_writer s)\<rparr>"

section \<open>Migration and dry run\<close>

definition main_migrate ::
  "compressor \<Rightarrow> (string \<Rightarrow> block_reader option) \<Rightarrow> (string \<Rightarrow> sqlite_db option) \<Rightarrow> vss_service option \<Rightarrow>
   int \<times> volume_info_t list \<Rightarrow> string option \<Rightarrow> string \<Rightarrow> client \<Rightarrow> (int \<times> client) option" where
  "main_migrate zc opn opendb vss vol_list config_json target s =
     (let cfg = parse_client_config config_json;
          s = configure False cfg (parse_target True target) s
      in if fst vol_list \<noteq> 0 then Some (1, s)
         else
           case connect_pool (init_writer s) of (rc, s) \<Rightarrow>
             if rc \<noteq> 0 then Some (1, s\<lparr>m_writer := msgpack_writer_free (m_writer s)\<rparr>)
             else map_option (\<lambda>(rc, s). (rc, cleanup s))
                    (do_migrate zc opn (opendb (k_db_path cfg)) vss (snd vol_list) (init_timer (init_queue s))))"

definition cmd_dryrun ::
  "compressor \<Rightarrow> (string \<Rightarrow> block_reader option) \<Rightarrow> (string \<Rightarrow> sqlite_db option) \<Rightarrow> vss_service option \<Rightarrow>
   int \<times> volume_info_t list \<Rightarrow> string option \<Rightarrow> client \<Rightarrow> (int \<times> client) option" where
  "cmd_dryrun zc opn opendb vss vol_list config_json s =
     (let cfg = parse_client_config config_json;
          s = configure True cfg ([], 0) s
      in if fst vol_list \<noteq> 0 then Some (1, s)
         else map_option (\<lambda>(rc, s). (rc, s\<lparr>m_queue := queue_destroy (m_queue s), m_writer := msgpack_writer_free (m_writer s)\<rparr>))
                (do_migrate zc opn (opendb (k_db_path cfg)) vss (snd vol_list) (init_timer (init_queue (init_writer s)))))"

section \<open>The single pass incsync\<close>

definition active_volumes :: "int list \<Rightarrow> string \<Rightarrow> volume_info_t list \<Rightarrow> nat list" where
  "active_volumes skip_disks skip_part_str vols =
     filter (\<lambda>i. sint (vi_devno (vols ! i)) \<notin> set skip_disks \<and>
        \<not> partition_is_skipped (Some skip_part_str) (sint (vi_devno (vols ! i))) (int (vi_part_index (vols ! i))))
       [0..<length vols]"

text \<open>Pushing until the queue takes the block; this loop does not look at \<open>g_running\<close>.\<close>

partial_function (option) incsync_push ::
  "compressor \<Rightarrow> u32 \<Rightarrow> u64 \<Rightarrow> u64 \<Rightarrow> bytes \<Rightarrow> client \<Rightarrow> client option" where
  "incsync_push zc devno off h payload s =
     (let (al, s) = ask x_alloc s;
          (rc, q) = queue_push al (m_queue s) devno off h payload;
          s = s\<lparr>m_queue := q\<rparr>
      in if rc = 0 then Some s
         else case drain zc s of None \<Rightarrow> None | Some s \<Rightarrow> incsync_push zc devno off h payload (process_ack s))"

record inc_stat =
  blocks_scanned :: u64
  blocks_changed :: u64
  blocks_skipped :: u64
  bytes_sent :: u64

text \<open>A changed or new block; the flag is false when the encoder fails.\<close>

definition incsync_send ::
  "compressor \<Rightarrow> int \<Rightarrow> u32 \<Rightarrow> u64 \<Rightarrow> bytes \<Rightarrow> u64 \<Rightarrow> client \<Rightarrow> (bool \<times> client) option" where
  "incsync_send zc version devno off data h s =
     (let (al, s) = ask x_alloc s in
      case msgpack_encode_block (\<lambda>_. al) (m_writer s) devno off data (of_nat (length data)) of
        None \<Rightarrow> None
      | Some (rc, w) \<Rightarrow>
          let s = s\<lparr>m_writer := w\<rparr> in
          if rc \<noteq> 0 then Some (False, s)
          else map_option (\<lambda>s. (True, run_sql (\<lambda>eng db.
                 sqlite_block_upsert_v eng db devno off (of_nat (length data)) h 0 version) s))
                 (incsync_push zc devno off h (w_contents w) s))"

definition incsync_flush :: "compressor \<Rightarrow> inc_stat \<Rightarrow> client \<Rightarrow> (inc_stat \<times> client) option" where
  "incsync_flush zc st s =
     (if blocks_scanned st AND 1023 = 0 then map_option (\<lambda>s. (st, process_ack s)) (drain zc s)
      else Some (st, s))"

definition incsync_block ::
  "compressor \<Rightarrow> int \<Rightarrow> u64 \<Rightarrow> block_reader \<Rightarrow> bool \<Rightarrow> volume_info_t \<Rightarrow> u64 \<Rightarrow> inc_stat \<Rightarrow> client \<Rightarrow>
   (inc_stat \<times> client) option" where
  "incsync_block zc version now_ms reader has_vss vol blk st s =
     (let disk_offset = vi_partition_offset vol + blk * of_nat BLOCK_SIZE;
          reader_offset = (if has_vss then blk * of_nat BLOCK_SIZE else disk_offset);
          (pread, s) = ask x_disk s;
          (rc, data) = block_reader_read pread reader reader_offset (of_nat BLOCK_SIZE)
      in if rc \<noteq> 0 then Some (st, s)
         else if data = [] then Some (st, s)
         else
           let st = st\<lparr>blocks_scanned := blocks_scanned st + 1\<rparr>;
               new_hash = hash_block data (length data) (hash_seed disk_offset);
               (eng, s) = ask x_sql s
           in if sqlite_block_lookup eng (m_db s) (vi_devno vol) disk_offset = (0, Some new_hash) then
                incsync_flush zc (st\<lparr>blocks_skipped := blocks_skipped st + 1\<rparr>)
                  (run_sql (\<lambda>eng db. sqlite_block_mark_verified eng db (vi_devno vol) disk_offset version)
                     (update_last_sent (vi_devno vol) disk_offset now_ms s))
              else
                case incsync_send zc version (vi_devno vol) disk_offset data new_hash s of
                  None \<Rightarrow> None
                | Some (sent, s) \<Rightarrow>
                    if \<not> sent then Some (st, s)
                    else incsync_flush zc (st\<lparr>blocks_changed := blocks_changed st + 1,
                           bytes_sent := bytes_sent st + of_nat (length data)\<rparr>) s)"

fun incsync_blocks ::
  "compressor \<Rightarrow> int \<Rightarrow> u64 \<Rightarrow> block_reader \<Rightarrow> bool \<Rightarrow> volume_info_t \<Rightarrow> u64 \<Rightarrow> nat \<Rightarrow> inc_stat \<Rightarrow> client \<Rightarrow>
   (inc_stat \<times> client) option" where
  "incsync_blocks zc version now_ms reader has_vss vol blk 0 st s = Some (st, s)"
| "incsync_blocks zc version now_ms reader has_vss vol blk (Suc k) st s =
     (let (run, s) = ask x_running s in
      if \<not> run then Some (st, s)
      else
        case incsync_block zc version now_ms reader has_vss vol blk st s of
          None \<Rightarrow> None
        | Some (st, s) \<Rightarrow> incsync_blocks zc version now_ms reader has_vss vol (blk + 1) k st s)"

fun incsync_volumes ::
  "compressor \<Rightarrow> (string \<Rightarrow> block_reader option) \<Rightarrow> int \<Rightarrow> u64 \<Rightarrow> volume_info_t list \<Rightarrow> inc_stat \<Rightarrow> client \<Rightarrow>
   (inc_stat \<times> client) option" where
  "incsync_volumes zc opn version now_ms [] st s = Some (st, s)"
| "incsync_volumes zc opn version now_ms (vol # vols) st s =
     (let (run, s) = ask x_running s in
      if \<not> run then Some (st, s)
      else
        let (reader, has_vss) =
          (if vi_has_vss vol then
             (case opn (vi_vss_path vol) of
                Some r \<Rightarrow> (Some r, True)
              | None \<Rightarrow> (opn (vi_disk_path vol), False))
           else (opn (vi_disk_path vol), False))
        in case reader of
             None \<Rightarrow> incsync_volumes zc opn version now_ms vols st s
           | Some r \<Rightarrow>
               (case incsync_blocks zc version now_ms r has_vss vol 0 (unat (vi_block_count vol)) st s of
                  None \<Rightarrow> None
                | Some (st, s) \<Rightarrow> incsync_volumes zc opn version now_ms vols st s))"

text \<open>The drain at the end: up to \<open>n\<close> rounds, left when the queue is empty.\<close>

fun incsync_drain :: "compressor \<Rightarrow> nat \<Rightarrow> client \<Rightarrow> client option" where
  "incsync_drain zc 0 s = Some s"
| "incsync_drain zc (Suc n) s =
     (case drain zc s of
        None \<Rightarrow> None
      | Some s \<Rightarrow>
          let s = process_ack s in
          if queue_count (m_queue s) = 0 then Some s else incsync_drain zc n s)"

text \<open>The end of the pass: the queue is drained, the end announced, and for 300 rounds acknowledgements are read, whether or
  not \<open>SERVER_DONE\<close> has arrived; then the version is closed.\<close>

definition incsync_finish :: "compressor \<Rightarrow> int \<Rightarrow> inc_stat \<Rightarrow> client \<Rightarrow> client option" where
  "incsync_finish zc version st s =
     (case incsync_drain zc 300 s of
        None \<Rightarrow> None
      | Some s \<Rightarrow>
          map_option (\<lambda>s. version_end version (sint (ucast (blocks_scanned st) :: u32))
              (sint (ucast (blocks_changed st) :: u32)) ((process_ack ^^ 300) s))
            (send_ctl CTL_END_INCREMENTAL CTL_END_INCREMENTAL_LEN s))"

text \<open>The pass itself, from the version number to the end of the version.\<close>

definition incsync_pass ::
  "compressor \<Rightarrow> (string \<Rightarrow> block_reader option) \<Rightarrow> volume_info_t list \<Rightarrow> client \<Rightarrow> (inc_stat \<times> client) option" where
  "incsync_pass zc opn vols s =
     (let (version, s) = next_version s;
          (now_ms, s) = ask x_clock (version_start version s)
      in case incsync_volumes zc opn version now_ms vols
                \<lparr>blocks_scanned = 0, blocks_changed = 0, blocks_skipped = 0, bytes_sent = 0\<rparr> s of
           None \<Rightarrow> None
         | Some (st, s) \<Rightarrow> map_option (\<lambda>s. (st, s)) (incsync_finish zc version st s))"

text \<open>The skip lists of the configuration.\<close>

definition incsync_skips :: "string option \<Rightarrow> int list \<times> string" where
  "incsync_skips config_json =
     (case config_json of
        None \<Rightarrow> ([], [])
      | Some json \<Rightarrow>
          (parse_skip_disks json,
           case json_read_str json ''SkipPartitions'' 512 of None \<Rightarrow> [] | Some b \<Rightarrow> snprintf 512 b))"

text \<open>The database, the context and the connections; the code is 1 where the command ends here.\<close>

definition incsync_setup ::
  "(string \<Rightarrow> sqlite_db option) \<Rightarrow> client_config_t \<Rightarrow> string \<Rightarrow> client \<Rightarrow> int \<times> client" where
  "incsync_setup opendb cfg target s =
     (case opendb (k_db_path cfg) of
        None \<Rightarrow> (1, s)
      | Some db \<Rightarrow>
          let (ip, port) = parse_target False target;
              db = sqlite_set_remote_id db (Some (remote_id_of ip port));
              (al, s) = ask x_alloc s
          in if \<not> al then (1, s)
             else
               let s = (configure False cfg (ip, port) s)\<lparr>m_tail_send := False, m_db := db\<rparr> in
               case connect_pool (init_writer (init_queue s)) of (rc, s) \<Rightarrow> (if rc < 0 then 1 else 0, s))"

text \<open>The snapshots; where none can be taken the disks are read directly.\<close>

definition incsync_snapshots :: "vss_service option \<Rightarrow> volume_info_t list \<Rightarrow> volume_info_t list" where
  "incsync_snapshots vss vols = (case take_snapshots vss vols of None \<Rightarrow> vols | Some vs \<Rightarrow> vs)"

text \<open>The whole command.  \<open>argv[2]\<close> is the target; without it the usage is printed.  The pool is connected
  before the snapshots are taken.\<close>

definition cmd_incsync ::
  "compressor \<Rightarrow> (string \<Rightarrow> block_reader option) \<Rightarrow> (string \<Rightarrow> sqlite_db option) \<Rightarrow> vss_service option \<Rightarrow>
   int \<times> volume_info_t list \<Rightarrow> string option \<Rightarrow> string option \<Rightarrow> client \<Rightarrow> (int \<times> client) option" where
  "cmd_incsync zc opn opendb vss vol_list config_json target s =
     (case target of
        None \<Rightarrow> Some (1, s)
      | Some target \<Rightarrow>
          let cfg = parse_client_config config_json;
              (skip_disks, skip_part_str) = incsync_skips config_json;
              vols = snd vol_list;
              active_idx = active_volumes skip_disks skip_part_str vols
          in if fst vol_list \<noteq> 0 then Some (1, s)
             else if active_idx = [] then Some (1, s)
             else
               case incsync_setup opendb cfg target s of (rc, s) \<Rightarrow>
                 if rc \<noteq> 0 then Some (1, s)
                 else
                   case send_ctl CTL_INCREMENTAL CTL_INCREMENTAL_LEN s of
                     None \<Rightarrow> None
                   | Some s \<Rightarrow>
                       let vols = incsync_snapshots vss vols
                       in map_option (\<lambda>(st, s). (0, cleanup s))
                            (incsync_pass zc opn (map (\<lambda>i. vols ! i) active_idx) s))"

section \<open>Queries\<close>

text \<open>\<open>cmd_info\<close>: the exit code and the rows of the table (disk, bytes, blocks, name, path); \<open>cmd_begin_session\<close> does nothing.\<close>

definition cmd_info :: "int \<times> volume_info_t list \<Rightarrow> int \<times> (u32 \<times> u64 \<times> u64 \<times> string \<times> string) list" where
  "cmd_info vol_list =
     (if fst vol_list \<noteq> 0 then (1, [])
      else (0, map (\<lambda>v. (vi_devno v, vi_total_bytes v, vi_block_count v, vi_name v, vi_disk_path v)) (snd vol_list)))"

definition cmd_begin_session :: int where "cmd_begin_session = 0"

definition cmd_end_session :: "sql_outcome \<Rightarrow> sqlite_db option \<Rightarrow> int \<times> sqlite_db option" where
  "cmd_end_session eng db_opt =
     (case db_opt of
        None \<Rightarrow> (1, None)
      | Some db \<Rightarrow> (case sqlite_clear_all_blocks eng db of (rc, db) \<Rightarrow> (if rc = 0 then 0 else 1, Some db)))"

text \<open>The number printed and the exit code.\<close>

definition cmd_sentbytes :: "sql_outcome \<Rightarrow> sqlite_db option \<Rightarrow> int \<times> int" where
  "cmd_sentbytes eng db_opt =
     (case db_opt of
        None \<Rightarrow> (0, 1)
      | Some db \<Rightarrow> let total_bytes = sqlite_total_acked_bytes eng db in (if total_bytes < 0 then 0 else total_bytes, 0))"

record blockinfo_args =
  bi_db_path :: string
  bi_devno :: int
  bi_offset :: "int option"
  bi_ack :: int
  bi_version :: int
  bi_history :: bool

definition blockinfo_flag :: "string \<Rightarrow> blockinfo_args \<Rightarrow> blockinfo_args" where
  "blockinfo_flag a opt =
     (if a = ''--pending'' then opt\<lparr>bi_ack := 0\<rparr>
      else if a = ''--acked'' then opt\<lparr>bi_ack := 1\<rparr>
      else if a = ''--all'' then opt\<lparr>bi_ack := -1\<rparr>
      else if a = ''--history'' then opt\<lparr>bi_history := True\<rparr>
      else if take 10 a = ''--version='' then opt\<lparr>bi_version := atoi (drop 10 a)\<rparr>
      else opt)"

definition is_flag :: "string \<Rightarrow> bool" where
  "is_flag a = (case a of c # _ \<Rightarrow> c = CHR ''-'' | [] \<Rightarrow> False)"

text \<open>The arguments after \<open>blockinfo\<close>: flags, then a path with a dot, the disk and the offset.\<close>

definition parse_blockinfo :: "string list \<Rightarrow> blockinfo_args" where
  "parse_blockinfo args =
     (let opt = fold blockinfo_flag (takeWhile is_flag args)
                \<lparr>bi_db_path = ''tracker.db'', bi_devno = -1, bi_offset = None, bi_ack = -1, bi_version = -1, bi_history = False\<rparr>;
          rest = dropWhile is_flag args;
          (opt, rest) = (case rest of
             a # r \<Rightarrow> if strchr a (CHR ''.'') \<noteq> None then (opt\<lparr>bi_db_path := a\<rparr>, r) else (opt, rest)
           | [] \<Rightarrow> (opt, rest));
          (opt, rest) = (case rest of a # r \<Rightarrow> (opt\<lparr>bi_devno := atoi a\<rparr>, r) | [] \<Rightarrow> (opt, rest))
      in case rest of a # _ \<Rightarrow> opt\<lparr>bi_offset := Some (atoi a)\<rparr> | [] \<Rightarrow> opt)"

text \<open>What is shown: one block, the rows of a disk after the filters, or the summary counts; \<open>eng\<close> is the engine's
  answer to every statement of the command.\<close>

datatype blockinfo_out =
    NoDatabase
  | BlockDetail block_info_t
  | BlockNotFound
  | DatabaseError
  | DiskRows "int \<times> int \<times> int" "block_info_t list"
  | Summary "int \<times> int \<times> int \<times> int" "version_info_t list" "(nat \<times> int \<times> int \<times> int) list" "(int \<times> int) list"

definition disk_rows :: "sql_outcome \<Rightarrow> bool \<Rightarrow> blockinfo_args \<Rightarrow> sqlite_db \<Rightarrow> blockinfo_out" where
  "disk_rows eng alloc opt db =
     (let devno = of_int (bi_devno opt);
          total_n = sqlite_count_blocks eng db devno (-1);
          acked = sqlite_count_blocks eng db devno 1;
          pending = sqlite_count_blocks eng db devno 0;
          cap = (if bi_ack opt = 0 then pending else if bi_ack opt = 1 then acked else total_n)
      in DiskRows (total_n, acked, pending)
           (if total_n > 0 \<and> cap > 0 \<and> alloc then
              filter (\<lambda>b. \<not> (bi_ack opt \<ge> 0 \<and> b_ack b \<noteq> bi_ack opt) \<and> \<not> (bi_version opt \<ge> 0 \<and> b_version b \<noteq> bi_version opt))
                (snd (sqlite_list_blocks eng db devno total_n))
            else []))"

definition db_summary :: "sql_outcome \<Rightarrow> blockinfo_args \<Rightarrow> sqlite_db \<Rightarrow> blockinfo_out" where
  "db_summary eng opt db =
     (let total_n = sqlite_count_blocks eng db (-1) (-1);
          history = snd (sqlite_get_version_history eng db None 64)
      in Summary (total_n, sqlite_count_blocks eng db (-1) 1, sqlite_count_blocks eng db (-1) 0, sqlite_total_acked_bytes eng db)
           (if bi_history opt then history else [])
           (if total_n > 0 then
              filter (\<lambda>(d, dt, da, dp). dt \<noteq> 0)
                (map (\<lambda>d. (d, sqlite_count_blocks eng db (of_nat d) (-1), sqlite_count_blocks eng db (of_nat d) 1,
                           sqlite_count_blocks eng db (of_nat d) 0)) [0..<16])
            else [])
           (if total_n > 0 \<and> \<not> bi_history opt
            then map (\<lambda>v. (v_version v, sqlite_count_blocks_by_version eng db (v_version v) None)) history else []))"

definition cmd_blockinfo ::
  "sql_outcome \<Rightarrow> bool \<Rightarrow> (string \<Rightarrow> sqlite_db option) \<Rightarrow> string list \<Rightarrow> int \<times> blockinfo_out" where
  "cmd_blockinfo eng alloc opendb args =
     (let opt = parse_blockinfo args in
      case opendb (bi_db_path opt) of
        None \<Rightarrow> (1, NoDatabase)
      | Some db \<Rightarrow>
          (0, case bi_offset opt of
                Some off \<Rightarrow>
                  (case sqlite_get_block_info eng db (of_int (bi_devno opt)) (of_int off) of
                     (rc, Some b) \<Rightarrow> BlockDetail b
                   | (rc, None) \<Rightarrow> if rc = -1 then BlockNotFound else DatabaseError)
              | None \<Rightarrow> if bi_devno opt \<ge> 0 then disk_rows eng alloc opt db else db_summary eng opt db))"

section \<open>Inspecting files and disks\<close>

text \<open>\<open>cmd_hash\<close> on the contents of the file: the exit code and the hash printed.\<close>

definition cmd_hash :: "bool \<Rightarrow> bytes option \<Rightarrow> int \<times> u64 option" where
  "cmd_hash alloc contents =
     (case contents of
        None \<Rightarrow> (1, None)
      | Some buf \<Rightarrow>
          if length buf = 0 then (1, None)
          else if \<not> alloc then (1, None)
          else (0, Some (hash_block buf (length buf) 0)))"

datatype check_out = Unchecked | FirstBlock nat u64 | ReadError

text \<open>\<open>cmd_check\<close>: the exit code, size and block count, and the reading of the first block.\<close>

definition cmd_check ::
  "bool \<Rightarrow> (nat \<Rightarrow> u64 \<Rightarrow> u32 \<Rightarrow> bytes option) \<Rightarrow> block_reader option \<Rightarrow> int \<times> (u64 \<times> u64 \<times> check_out) option" where
  "cmd_check alloc pread r =
     (case r of
        None \<Rightarrow> (1, None)
      | Some r \<Rightarrow>
          (0, Some (block_reader_size r, block_reader_block_count r (of_nat BLOCK_SIZE),
             if alloc then
               (case block_reader_read pread r 0 (of_nat BLOCK_SIZE) of (rc, data) \<Rightarrow>
                  if rc = 0 then FirstBlock (length data) (hash_block data (length data) 0) else ReadError)
             else Unchecked)))"

section \<open>The command line\<close>

datatype command =
    Help | Info | HashFile string | CheckDisk string | BeginSession | IsBios | EndSession | SentBytes | TestVss
  | VssQuery | VssDelete "string option" | BlockInfo "string list" | DryRun "string option"
  | IncSync "string option" "string option" | InjectDriver "string option" | CheckDrivers "string option"
  | CheckEnv "string option" | RunMigration string "string option"

definition arg :: "nat \<Rightarrow> string list \<Rightarrow> string option" where
  "arg i argv = (if i < length argv then Some (argv ! i) else None)"

text \<open>The order of the tests in \<open>main\<close>: anything that is not a command is the target of a migration.\<close>

definition dispatch :: "string list \<Rightarrow> command" where
  "dispatch argv =
     (case arg 1 argv of
        None \<Rightarrow> Help
      | Some c \<Rightarrow>
          if c = ''--help'' \<or> c = ''-h'' then Help
          else if c = ''info'' then Info
          else if c = ''hash'' \<and> length argv \<ge> 3 then HashFile (argv ! 2)
          else if c = ''check'' \<and> length argv \<ge> 3 then CheckDisk (argv ! 2)
          else if c = ''begin_session'' then BeginSession
          else if c = ''isbios'' then IsBios
          else if c = ''end_session'' then EndSession
          else if c = ''sentbytes'' then SentBytes
          else if c = ''test_vss'' then TestVss
          else if c = ''vss_query'' then VssQuery
          else if c = ''vss_delete'' then VssDelete (arg 2 argv)
          else if c = ''blockinfo'' then BlockInfo (drop 2 argv)
          else if c = ''dryrun'' then DryRun (arg 2 argv)
          else if c = ''incsync'' then IncSync (arg 2 argv) (arg 3 argv)
          else if c = ''inject_driver'' then InjectDriver (arg 2 argv)
          else if c = ''check_drivers'' then CheckDrivers (arg 2 argv)
          else if c = ''checkenv'' then CheckEnv (arg 2 argv)
          else RunMigration c (arg 2 argv))"

section \<open>One block of incsync\<close>

lemma incsync_send_free:
  assumes "writer_ok (m_writer s)" "queue_ok (m_queue s)" "q_count (m_queue s) + 1 < BACKPRESSURE_QUEUE_DEPTH"
    and "\<forall>t. x_alloc s t" "\<forall>t. x_sql s t = Runs" "length data \<le> BLOCK_SIZE"
  shows "\<exists>s'. incsync_send zc version devno off data h s = Some (True, s') \<and>
    q_list (m_queue s') = q_list (m_queue s) @ [\<lparr>e_devno = devno, e_offset = off, e_hash = h,
      e_payload = Some (block_encoding devno off data), e_payload_len = length (block_encoding devno off data), e_pending = True\<rparr>] \<and>
    row_of (m_db s') (devno, off) = Some \<lparr>b_devno = devno, b_offset = off, b_size = of_nat (length data), b_hash = h, b_ack = 0,
      b_last_sent = 0, b_version = version, b_remote_id = db_remote_id (m_db s)\<rparr> \<and>
    view (m_db s') = (view (m_db s))((devno, off) \<mapsto> (h, False))"
proof -
  obtain w where w: "msgpack_encode_block (\<lambda>_. True) (m_writer s) devno off data (of_nat (length data)) = Some (0, w)"
    "w_contents w = block_encoding devno off data"
    using encode_block_free [OF assms(1,6)] by blast
  obtain q where q: "queue_push True (m_queue s) devno off h (w_contents w) = (0, q)"
    "q_list q = q_list (m_queue s) @ [\<lparr>e_devno = devno, e_offset = off, e_hash = h,
      e_payload = Some (block_encoding devno off data), e_payload_len = length (block_encoding devno off data), e_pending = True\<rparr>]"
    using queue_push_free [OF assms(2,3) encoding_fits [OF assms(6)]] w(2) by metis
  have "incsync_push zc devno off h (w_contents w) (s\<lparr>x_tick := x_tick s + 1, m_writer := w\<rparr>) =
      Some (s\<lparr>m_writer := w, m_queue := q, x_tick := x_tick s + 2\<rparr>)"
    using q(1) assms(4) by (subst incsync_push.simps) (simp add: ask_def)
  then show ?thesis
    using w(1) q(2) assms(4,5)
    by (simp add: incsync_send_def ask_def run_sql_def view_upsert row_of_upsert)
qed


text \<open>
  C29: What incsync does with one block, branch by branch, when the queue is below the backpressure
  limit.  A block that cannot be read, or reads empty, is passed over without being counted, and
  database and queue stay.  A block whose recorded hash equals the hash of the data is counted as
  skipped and its row becomes acknowledged with the version of this pass; no other row and no queue
  entry changes.  Any other block, changed or unknown, is counted as changed, appended to the send
  queue, and its row holds the new hash, unacknowledged, with the version of this pass.  After a
  counted block the periodic flush follows.
\<close>
theorem incsync_block_outcome:
  fixes vol :: volume_info_t and blk :: u64 and st :: inc_stat and s :: client
  defines "devno \<equiv> vi_devno vol" and "off \<equiv> vi_partition_offset vol + blk * of_nat BLOCK_SIZE"
    and "st1 \<equiv> st\<lparr>blocks_scanned := blocks_scanned st + 1\<rparr>"
  assumes "writer_ok (m_writer s)" "queue_ok (m_queue s)" "q_count (m_queue s) + 1 < BACKPRESSURE_QUEUE_DEPTH"
    and "\<forall>t. x_alloc s t" "\<forall>t. x_sql s t = Runs" "length data \<le> BLOCK_SIZE"
    and "block_reader_read (x_disk s (x_tick s)) reader (if has_vss then blk * of_nat BLOCK_SIZE else off) (of_nat BLOCK_SIZE) = (rc, data)"
    and "hash_block data (length data) (hash_seed off) = h"
  shows "\<exists>s'.
    if rc \<noteq> 0 \<or> data = [] then
      incsync_block zc version now_ms reader has_vss vol blk st s = Some (st, s') \<and> m_db s' = m_db s \<and> m_queue s' = m_queue s
    else if sqlite_block_lookup Runs (m_db s) devno off = (0, Some h) then
      incsync_block zc version now_ms reader has_vss vol blk st s = incsync_flush zc (st1\<lparr>blocks_skipped := blocks_skipped st + 1\<rparr>) s' \<and>
      m_queue s' = m_queue s \<and> (\<forall>k. k \<noteq> (devno, off) \<longrightarrow> row_of (m_db s') k = row_of (m_db s) k) \<and>
      (\<exists>r. row_of (m_db s') (devno, off) = Some r \<and> b_hash r = h \<and> b_ack r = 1 \<and> b_version r = version \<and> b_last_sent r = now_ms)
    else
      incsync_block zc version now_ms reader has_vss vol blk st s =
        incsync_flush zc (st1\<lparr>blocks_changed := blocks_changed st + 1, bytes_sent := bytes_sent st + of_nat (length data)\<rparr>) s' \<and>
      q_list (m_queue s') = q_list (m_queue s) @ [\<lparr>e_devno = devno, e_offset = off, e_hash = h,
        e_payload = Some (block_encoding devno off data), e_payload_len = length (block_encoding devno off data), e_pending = True\<rparr>] \<and>
      row_of (m_db s') (devno, off) = Some \<lparr>b_devno = devno, b_offset = off, b_size = of_nat (length data), b_hash = h, b_ack = 0,
        b_last_sent = 0, b_version = version, b_remote_id = db_remote_id (m_db s)\<rparr>"
proof -
  let ?t = "\<lambda>n. s\<lparr>x_tick := x_tick s + n\<rparr>"
  let ?verify = "\<lambda>s. run_sql (\<lambda>eng db. sqlite_block_mark_verified eng db devno off version) (update_last_sent devno off now_ms s)"
  have run: "incsync_block zc version now_ms reader has_vss vol blk st s =
     (if rc \<noteq> 0 \<or> data = [] then Some (st, ?t 1)
      else if sqlite_block_lookup Runs (m_db s) devno off = (0, Some h) then
        incsync_flush zc (st1\<lparr>blocks_skipped := blocks_skipped st + 1\<rparr>) (?verify (?t 2))
      else case incsync_send zc version devno off data h (?t 2) of
             None \<Rightarrow> None
           | Some (sent, s) \<Rightarrow> if \<not> sent then Some (st1, s)
               else incsync_flush zc (st1\<lparr>blocks_changed := blocks_changed st + 1, bytes_sent := bytes_sent st + of_nat (length data)\<rparr>) s)"
    using assms(8,10,11) unfolding incsync_block_def devno_def off_def st1_def
    by (simp add: ask_def Let_def split: option.split)
  consider (skip) "rc \<noteq> 0 \<or> data = []"
    | (same) "\<not> (rc \<noteq> 0 \<or> data = [])" "sqlite_block_lookup Runs (m_db s) devno off = (0, Some h)"
    | (changed) "\<not> (rc \<noteq> 0 \<or> data = [])" "sqlite_block_lookup Runs (m_db s) devno off \<noteq> (0, Some h)" by argo
  then show ?thesis
  proof cases
    case skip
    then show ?thesis unfolding run by (intro exI [of _ "?t 1"]) simp
  next
    case same
    obtain r where r: "row_of (m_db s) (devno, off) = Some r" "b_hash r = h"
      using same(2) by (auto simp: sqlite_block_lookup_def row_of_def split: option.splits)
    have "row_of (m_db (?verify (?t 2))) k =
        (if k = (devno, off) then Some (r\<lparr>b_ack := 1, b_last_sent := now_ms, b_version := version\<rparr>) else row_of (m_db s) k)" for k
      using assms(8) r(1) by (simp add: update_last_sent_def run_sql_def ask_def sqlite_block_mark_verified_def
          sqlite_update_last_sent_def row_of_update_key row_key_def)
    moreover have "m_queue (?verify (?t 2)) = m_queue s" by (simp add: update_last_sent_def run_sql_def ask_def)
    ultimately show ?thesis unfolding run using same r(2) by (intro exI [of _ "?verify (?t 2)"]) simp
  next
    case changed
    obtain s' where "incsync_send zc version devno off data h (?t 2) = Some (True, s')"
      "q_list (m_queue s') = q_list (m_queue s) @ [\<lparr>e_devno = devno, e_offset = off, e_hash = h,
        e_payload = Some (block_encoding devno off data), e_payload_len = length (block_encoding devno off data), e_pending = True\<rparr>]"
      "row_of (m_db s') (devno, off) = Some \<lparr>b_devno = devno, b_offset = off, b_size = of_nat (length data), b_hash = h, b_ack = 0,
        b_last_sent = 0, b_version = version, b_remote_id = db_remote_id (m_db s)\<rparr>"
      using incsync_send_free [of "?t 2" data zc version devno off h] assms(4-9) by auto
    then show ?thesis unfolding run using changed by (intro exI [of _ s']) simp
  qed
qed

theorem incsync_block_outcome_witness:
  "\<exists>s'. incsync_block (\<lambda>_ _ _. None) 4 9 \<lparr>br_handle = 0, br_total_bytes = 3\<rparr> False
      \<lparr>vi_devno = 1, vi_disk_path = [], vi_vss_path = [], vi_name = [], vi_partition_offset = 0, vi_total_bytes = 3,
       vi_total_sectors = 1, vi_block_count = 1, vi_writable = True, vi_has_vss = False, vi_part_index = 1\<rparr> 0
      \<lparr>blocks_scanned = 0, blocks_changed = 0, blocks_skipped = 0, bytes_sent = 0\<rparr> (sample_client lone_pool empty_db) =
      Some (\<lparr>blocks_scanned = 1, blocks_changed = 1, blocks_skipped = 0, bytes_sent = 3\<rparr>, s') \<and>
    view (m_db s') (1, 0) = Some (hash_block [1, 2, 3] 3 (hash_seed 0), False)"
proof -
  let ?s = "sample_client lone_pool empty_db" and ?r = "\<lparr>br_handle = 0, br_total_bytes = 3\<rparr>"
  let ?v = "\<lparr>vi_devno = 1, vi_disk_path = [], vi_vss_path = [], vi_name = [], vi_partition_offset = 0, vi_total_bytes = 3,
       vi_total_sectors = 1, vi_block_count = 1, vi_writable = True, vi_has_vss = False, vi_part_index = 1\<rparr> :: volume_info_t"
  let ?st = "\<lparr>blocks_scanned = 0, blocks_changed = 0, blocks_skipped = 0, bytes_sent = 0\<rparr>"
  have "writer_ok (m_writer ?s)" by (simp add: sample_client_def msgpack_writer_init_def writer_ok_def)
  moreover have "queue_ok (m_queue ?s)" using queue_init_ok(1) by (simp add: sample_client_def)
  moreover have "q_count (m_queue ?s) + 1 < BACKPRESSURE_QUEUE_DEPTH" by (simp add: sample_client_def queue_init_def BACKPRESSURE_QUEUE_DEPTH_def)
  moreover have "\<forall>t. x_alloc ?s t" "\<forall>t. x_sql ?s t = Runs" by (simp_all add: sample_client_def)
  moreover have "length [1 :: byte, 2, 3] \<le> BLOCK_SIZE" by (simp add: BLOCK_SIZE_def)
  moreover have "block_reader_read (x_disk ?s (x_tick ?s)) ?r (if False then 0 * of_nat BLOCK_SIZE
      else vi_partition_offset ?v + 0 * of_nat BLOCK_SIZE) (of_nat BLOCK_SIZE) = (0, [1, 2, 3])"
    by (simp add: sample_client_def block_reader_read_def)
  moreover have "sqlite_block_lookup Runs (m_db ?s) 1 0 \<noteq> (0, Some (hash_block [1, 2, 3] (length [1 :: byte, 2, 3]) (hash_seed 0)))"
    by (simp add: sample_client_def empty_db_def sqlite_block_lookup_def)
  ultimately show ?thesis
    using incsync_block_outcome [of ?s "[1, 2, 3]" ?r False 0 ?v 0 _ "\<lambda>_ _ _. None" 4 9 ?st]
    by (auto simp: incsync_flush_def view_def numeral_3_eq_3)
qed


end
