(* ===== verification/Dry_Run.thy ===== *)
theory Dry_Run
  imports Commands
begin

text \<open>
  What a migration achieves when nothing goes wrong: the dry run of \<^verbatim>\<open>client/main.c\<close>, which does
  all the work but the network, reads every block of every partition once and records its hash as
  acknowledged.

  \<open>dry_ok\<close> is the state between two blocks of such a run: the queue is empty and no ring entry is
  pending, memory and database answer as hoped for, the disks do not change, and the clock advances by at
  most half a second between two questions.
\<close>

section \<open>One block through the queue\<close>

definition idle_queue :: "send_queue_t \<Rightarrow> bool" where
  "idle_queue q \<longleftrightarrow> queue_ok q \<and> q_count q = 0 \<and> (\<forall>e \<in> set (q_entries q). \<not> e_pending e)"

lemma pending_single:
  "\<lbrakk>\<forall>e \<in> set es. \<not> e_pending e; i < length es; e_pending x\<rbrakk> \<Longrightarrow> filter e_pending (es[i := x]) = [x]"
proof (induction es arbitrary: i)
  case (Cons e es)
  then show ?case by (cases i) (auto simp: filter_empty_conv)
qed simp

lemma idle_cycle:
  assumes "idle_queue q" "length payload \<le> QUEUE_ENTRY_MAX_PAYLOAD"
  shows "\<exists>q1 e q2. queue_push True q devno off h payload = (0, q1) \<and> queue_pop q1 out = (0, e, q2) \<and> q_count q1 = 1 \<and>
    e_devno e = devno \<and> e_offset e = off \<and> idle_queue (queue_ack q2 devno off)"
proof -
  let ?e = "\<lparr>e_devno = devno, e_offset = off, e_hash = h, e_payload = Some payload,
                 e_payload_len = length payload, e_pending = True\<rparr>"
  have q: "queue_ok q" "q_count q = 0" "q_head q = q_tail q" "q_tail q < length (q_entries q)" "\<not> q_backpressure q"
    "\<forall>e \<in> set (q_entries q). \<not> e_pending e"
    using assms(1) by (auto simp: idle_queue_def queue_ok_def BACKPRESSURE_QUEUE_DEPTH_def)
  obtain rc q1 where p: "queue_push True q devno off h payload = (rc, q1)" by (metis surj_pair)
  have q1: "rc = 0" "q_entries q1 = (q_entries q)[q_tail q := ?e]" "q_count q1 = 1" "q_tail q1 = q_tail q"
    using p q assms(2) queue_capacity_pos
    by (auto simp: queue_push_def Let_def BACKPRESSURE_QUEUE_DEPTH_def split: if_splits)
  have ok1: "queue_ok q1" using push_ok(1) [OF q(1) p] q1(1) by simp
  obtain prc e q2 where pop: "queue_pop q1 out = (prc, e, q2)" by (metis prod_cases3)
  have q2: "prc = 0" "e = ?e" "q_entries q2 = q_entries q1" "q_count q2 = 0"
    using pop q1 q(4) by (auto simp: queue_pop_def Let_def split: if_splits)
  have ok2: "queue_ok q2" using pop_ok [OF ok1 pop] q1(3) by simp
  have f: "filter e_pending (q_entries q2) = [?e]"
    using pending_single [OF q(6,4), of ?e] q2(3) q1(2) by simp
  have "filter e_pending (ack_entries devno off (q_entries q2)) = []"
    using ack_entries_pending [of devno off "q_entries q2"] by (simp add: f)
  then have "idle_queue (queue_ack q2 devno off)"
    using queue_ack_ok [OF ok2] q2(4) by (simp add: idle_queue_def queue_ack_def filter_empty_conv)
  then show ?thesis using p pop q1(1,3) q2(1,2) by (intro exI [of _ q1] exI [of _ e] exI [of _ q2]) simp
qed

lemma idle_no_pending: "idle_queue q \<Longrightarrow> queue_get_pending q n = []"
  by (simp add: idle_queue_def queue_get_pending_def collect_pending_filter)

section \<open>One block in a dry run\<close>

definition steady :: "(nat \<Rightarrow> u64) \<Rightarrow> bool" where
  "steady clock \<longleftrightarrow> (\<forall>t. unat (clock (t + 1) - clock t) \<le> 500)"

definition named :: "sqlite_db \<Rightarrow> bool" where
  "named db \<longleftrightarrow> db_remote_id db \<noteq> [] \<and> (\<forall>r \<in> set (db_blocks db). b_remote_id r \<noteq> [])"

definition dry_ok :: "(nat \<Rightarrow> u64 \<Rightarrow> u32 \<Rightarrow> bytes option) \<Rightarrow> client \<Rightarrow> bool" where
  "dry_ok disk s \<longleftrightarrow> m_dry_run s \<and> \<not> m_tail_send s \<and> writer_ok (m_writer s) \<and> idle_queue (m_queue s) \<and>
     armed (m_timer s) \<and> steady (x_clock s) \<and> named (m_db s) \<and>
     (\<forall>t. x_alloc s t \<and> x_sql s t = Runs \<and> x_running s t \<and> x_disk s t = disk)"

lemma named_upsert: "named db \<Longrightarrow> named (snd (sqlite_block_upsert_v eng db d off sz h a v))"
  by (auto simp: named_def sqlite_block_upsert_v_def split: sql_outcome.split)

lemma named_acked: "named db \<Longrightarrow> named (snd (sqlite_block_mark_acked eng db d off))"
  by (auto simp: named_def sqlite_block_mark_acked_def update_key_def split: sql_outcome.split)

lemma unat_plus_le: "unat ((a :: u64) + b) \<le> unat a + unat b"
  by (simp add: unat_plus_if')

lemma steady_diff: "steady clock \<Longrightarrow> unat (clock (t + k) - clock t) \<le> 500 * k"
proof (induction k)
  case (Suc k)
  have "clock (t + Suc k) - clock t = (clock (t + k + 1) - clock (t + k)) + (clock (t + k) - clock t)" by simp
  then have "unat (clock (t + Suc k) - clock t) \<le> unat (clock (t + k + 1) - clock (t + k)) + unat (clock (t + k) - clock t)"
    using unat_plus_le by metis
  also have "\<dots> \<le> 500 + 500 * k"
    using Suc by (intro add_mono) (simp_all add: steady_def)
  finally show ?case by simp
qed simp

text \<open>A read returns at most as many bytes as were asked for.\<close>

definition reads_bounded :: "(nat \<Rightarrow> u64 \<Rightarrow> u32 \<Rightarrow> bytes option) \<Rightarrow> bool" where
  "reads_bounded disk \<longleftrightarrow> (\<forall>h off n bs. disk h off n = Some bs \<longrightarrow> length bs \<le> unat n)"

text \<open>What the table knows after a block was read: an acknowledged block keeps its hash.\<close>

definition block_done ::
  "(u32 \<times> u64) \<times> int \<times> bytes \<Rightarrow> (u32 \<times> u64 \<Rightarrow> (u64 \<times> bool) option) \<Rightarrow> u32 \<times> u64 \<Rightarrow> (u64 \<times> bool) option" where
  "block_done = (\<lambda>(k, rc, data) m.
     if rc \<noteq> 0 \<or> data = [] \<or> (\<exists>h. m k = Some (h, True)) then m
     else m(k \<mapsto> (hash_block data (length data) (hash_seed (snd k)), True)))"

lemma read_length: "\<lbrakk>reads_bounded disk; block_reader_read disk r off (of_nat BLOCK_SIZE) = (rc, data)\<rbrakk> \<Longrightarrow> length data \<le> BLOCK_SIZE"
proof -
  assume a: "reads_bounded disk" "block_reader_read disk r off (of_nat BLOCK_SIZE) = (rc, data)"
  let ?n = "ucast (min (ucast (of_nat BLOCK_SIZE :: u32)) (br_total_bytes r - off) :: u64) :: u32"
  have "unat (min (ucast (of_nat BLOCK_SIZE :: u32)) (br_total_bytes r - off) :: u64) \<le> BLOCK_SIZE"
    by (simp add: min_def word_le_nat_alt BLOCK_SIZE_def)
  then have "unat ?n \<le> BLOCK_SIZE"
    unfolding unsigned_ucast_eq by (rule order_trans [OF take_bit_nat_less_eq_self])
  then show "length data \<le> BLOCK_SIZE"
    using a by (fastforce simp: block_reader_read_def reads_bounded_def Let_def split: option.splits)
qed

lemma drain_one:
  assumes "m_dry_run s" "queue_pop (m_queue s) zero_entry = (0, e, q)" "q_count q = 0"
  shows "drain zc s = Some (ack_block (e_devno e) (e_offset e) (s\<lparr>m_queue := q\<rparr>))"
proof -
  let ?s1 = "ack_block (e_devno e) (e_offset e) (s\<lparr>m_queue := q\<rparr>)"
  have f: "flush_one zc s = Some (1, ?s1)" using assms by (simp add: flush_one_def)
  have "flush_one zc ?s1 = Some (0, ?s1)" using assms(3) by (simp add: flush_one_def queue_pop_def)
  then show ?thesis using f by (simp add: drain.simps [of zc s] drain.simps [of zc ?s1])
qed

lemma drain_idle: "q_count (m_queue s) = 0 \<Longrightarrow> drain zc s = Some s"
  by (simp add: drain.simps [of zc s] flush_one_def queue_pop_def)

lemma process_ack_idle: "\<lbrakk>m_dry_run s; idle_queue (m_queue s)\<rbrakk> \<Longrightarrow> process_ack s = s"
  by (simp add: process_ack_def idle_no_pending)

text \<open>A block that has to be sent is queued, recorded, popped and acknowledged.\<close>

lemma dry_queue_block:
  assumes "dry_ok disk s" "length data \<le> BLOCK_SIZE"
  shows "\<exists>s1 s2. queue_block zc devno off data h s = Some (0, s1) \<and> drain zc s1 = Some s2 \<and> dry_ok disk s2 \<and>
    view (m_db s2) = (view (m_db s))((devno, off) \<mapsto> (h, True))"
proof -
  note ok = assms(1) [unfolded dry_ok_def]
  let ?enc = "block_encoding devno off data"
  obtain w where w: "msgpack_encode_block (\<lambda>_. True) (m_writer s) devno off data (of_nat (length data)) = Some (0, w)"
    "w_contents w = ?enc" "writer_ok w"
    using encode_block_free [of "m_writer s" data devno off] assms(2) ok by blast
  have pl: "length ?enc \<le> QUEUE_ENTRY_MAX_PAYLOAD" using encoding_fits [OF assms(2)] .
  obtain q1 e q2 where q: "queue_push True (m_queue s) devno off h ?enc = (0, q1)" "queue_pop q1 zero_entry = (0, e, q2)"
    "q_count q1 = 1" "e_devno e = devno" "e_offset e = off" "idle_queue (queue_ack q2 devno off)"
    using idle_cycle [OF _ pl, of "m_queue s" devno off h zero_entry] ok by blast
  let ?t = "s\<lparr>m_writer := w, m_queue := q1, x_tick := x_tick s + 2\<rparr>"
  let ?s1 = "run_sql (\<lambda>eng db. sqlite_block_upsert_v eng db devno off (of_nat (length data)) h 0 (m_inc_version s)) ?t"
  have push: "push_retry zc devno off h ?enc 0 (s\<lparr>x_tick := x_tick s + 1, m_writer := w\<rparr>) = Some (True, ?t)"
    using q(1) ok by (subst push_retry.simps) (simp add: ask_def)
  have qb: "queue_block zc devno off data h s = Some (0, ?s1)"
    using w(1,2) push ok by (simp add: queue_block_def ask_def)
  have s1: "m_queue ?s1 = q1" "m_dry_run ?s1" by (simp_all add: run_sql_def ask_def ok)
  have c: "q_count q2 = 0" using queue_pop_count [OF q(2)] q(3) by simp
  have dr: "drain zc ?s1 = Some (ack_block devno off (?s1\<lparr>m_queue := q2\<rparr>))"
    using drain_one [of ?s1 e q2 zc] q s1 c by simp
  let ?s2 = "ack_block devno off (?s1\<lparr>m_queue := q2\<rparr>)"
  have "view (snd (sqlite_block_mark_acked Runs db devno off)) =
      (view db)((devno, off) := map_option (\<lambda>(h, a). (h, True)) (view db (devno, off)))" for db
    using exec_view [of "MarkAcked Runs devno off" db] by simp
  then have "view (m_db ?s2) = (view (m_db s))((devno, off) \<mapsto> (h, True))"
    using ok by (simp add: ack_block_def mark_acked_def run_sql_def ask_def Let_def view_upsert)
  moreover have "dry_ok disk ?s2"
    using ok w(3) q(6) by (simp add: dry_ok_def ack_block_def mark_acked_def run_sql_def ask_def Let_def named_upsert named_acked)
  ultimately show ?thesis using qb dr by blast
qed

lemma dry_ok_tick [simp]: "dry_ok disk (s\<lparr>x_tick := n\<rparr>) = dry_ok disk s"
  by (simp add: dry_ok_def)

lemma dry_send:
  assumes "dry_ok disk s" "reads_bounded disk" "block_reader_read disk reader roff (of_nat BLOCK_SIZE) = (rc, data)"
  shows "\<exists>s1 s2. send_block zc reader devno off roff s = Some (if rc \<noteq> 0 then -1 else 0, s1) \<and> drain zc s1 = Some s2 \<and>
    process_ack s2 = s2 \<and> dry_ok disk s2 \<and> view (m_db s2) = block_done ((devno, off), rc, data) (view (m_db s))"
proof -
  note ok = assms(1) [unfolded dry_ok_def]
  let ?h = "hash_block data (length data) (hash_seed off)"
  let ?t = "\<lambda>n. s\<lparr>x_tick := x_tick s + n\<rparr>"
  have idle: "process_ack s' = s'" if "dry_ok disk s'" for s'
    using that process_ack_idle by (simp add: dry_ok_def)
  have none: "drain zc (?t n) = Some (?t n)" "process_ack (?t n) = ?t n" "dry_ok disk (?t n)" for n
    using ok idle [of "?t n"] assms(1) by (simp_all add: drain_idle idle_queue_def)
  have sb: "send_block zc reader devno off roff s =
     (if rc \<noteq> 0 then Some (-1, ?t 1) else if data = [] then Some (0, ?t 1)
      else if sqlite_block_acked Runs (m_db s) devno off = 1 then Some (0, ?t 2)
      else queue_block zc devno off data ?h (?t 2))"
    using ok assms(3) by (simp add: send_block_def ask_def Let_def numeral_eq_Suc)
  show ?thesis
  proof (cases "rc \<noteq> 0 \<or> data = [] \<or> sqlite_block_acked Runs (m_db s) devno off = 1")
    case True
    then have "block_done ((devno, off), rc, data) (view (m_db s)) = view (m_db s)"
      by (auto simp: block_done_def acked_view split: option.splits if_splits)
    then show ?thesis using True none [of 1] none [of 2] unfolding sb by auto
  next
    case False
    then have "block_done ((devno, off), rc, data) (view (m_db s)) = (view (m_db s))((devno, off) \<mapsto> (?h, True))"
      by (auto simp: block_done_def acked_view split: option.splits if_splits)
    then show ?thesis
      using False dry_queue_block [OF none(3) [of 2] read_length [OF assms(2,3)], of zc devno off ?h] idle
      unfolding sb by auto
  qed
qed

text \<open>
  The timer events of a dry run without tail mode do nothing but wait their turn: those handled in
  this run of the loop are not due again before it ends.
\<close>

lemma timer_check_due: "timer_check tm now = e \<Longrightarrow> e \<noteq> TIMER_NONE \<Longrightarrow> e \<in> set timer_events \<and> timer_due tm now e"
  by (auto simp: timer_check_def timer_scan_find find_Some_iff split: option.splits)

lemma dry_handler:
  assumes "dry_ok disk s"
  shows "\<exists>d \<le> 1. full_timer zc readers e s = Some (s\<lparr>x_tick := x_tick s + d\<rparr>)"
proof -
  have "do_retransmit zc readers s = Some (s\<lparr>x_tick := x_tick s + 1\<rparr>)"
    using assms by (intro do_retransmit_named) (simp add: dry_ok_def named_def)
  then have "e = TIMER_RETRANSMIT \<Longrightarrow> full_timer zc readers e s = Some (s\<lparr>x_tick := x_tick s + 1\<rparr>)"
    by (simp add: full_timer_def)
  moreover have "e \<noteq> TIMER_RETRANSMIT \<Longrightarrow> full_timer zc readers e s = Some (s\<lparr>x_tick := x_tick s + 0\<rparr>)"
    using assms by (cases e) (simp_all add: full_timer_def dry_ok_def)
  ultimately show ?thesis by (meson le_numeral_extra(4) zero_le)
qed

definition fresh :: "timer_event_t set \<Rightarrow> timer_mgr_t \<Rightarrow> u64 \<Rightarrow> bool" where
  "fresh R tm now \<longleftrightarrow> R \<subseteq> set timer_events \<and> (\<forall>e \<in> R. unat (now - last_fire tm e) \<le> 1500 * card R)"

lemma fresh_reset:
  assumes "fresh R tm now" "e \<in> set timer_events - R" "unat (t - now) \<le> 1000" "unat (now' - t) \<le> 500"
  shows "fresh (insert e R) (timer_reset t tm e) now'"
proof -
  have fin: "finite R" using assms(1) finite_subset unfolding fresh_def by blast
  have "unat (now' - last_fire tm f) \<le> 1500 * card (insert e R)" if "f \<in> R" for f
  proof -
    have e: "(now' - t) + ((t - now) + (now - last_fire tm f)) = now' - last_fire tm f" by simp
    have "unat (now' - last_fire tm f) \<le> unat (now' - t) + (unat (t - now) + unat (now - last_fire tm f))"
      using unat_plus_le [of "now' - t" "(t - now) + (now - last_fire tm f)"] unat_plus_le [of "t - now" "now - last_fire tm f"]
      unfolding e by linarith
    moreover have "unat (now - last_fire tm f) \<le> 1500 * card R" using assms(1) that by (simp add: fresh_def)
    moreover have "1500 * card (insert e R) = 1500 * card R + 1500" using fin assms(2) by simp
    ultimately show ?thesis using assms(3,4) by linarith
  qed
  moreover have "500 \<le> 1500 * card (insert e R)" using fin assms(2) by simp
  ultimately show ?thesis
    using assms by (auto simp: fresh_def timer_reset_def)
qed

lemma fresh_not_due:
  assumes "armed tm" "fresh R tm now" "timer_due tm now e" "e \<in> set timer_events"
  shows "e \<notin> R"
proof
  assume "e \<in> R"
  moreover have "card R \<le> 4"
    using assms(2) card_mono [of "set timer_events" R] by (simp add: fresh_def timer_events_def)
  moreover from \<open>e \<in> R\<close> have "unat (now - last_fire tm e) \<le> 1500 * card R" using assms(2) by (simp add: fresh_def)
  ultimately have "unat (now - last_fire tm e) \<le> 6000" by linarith
  moreover have "10000 \<le> unat (interval tm e)"
    using assms(1,4) by (auto simp: armed_def timer_events_def proto_consts)
  ultimately show False using assms(3) by (simp add: timer_due_def word_le_nat_alt)
qed

lemma dry_timer_loop:
  assumes "dry_ok disk s" "x_tick s = Suc t" "fresh R (m_timer s) (x_clock s t)"
  shows "\<exists>s'. timer_loop False (full_timer zc readers) (x_clock s t) s = Some s' \<and> dry_ok disk s' \<and> m_db s' = m_db s"
  using assms
proof (induction "card (set timer_events - R)" arbitrary: R s t rule: less_induct)
  case less
  let ?now = "x_clock s t" and ?e = "timer_check (m_timer s) (x_clock s t)"
  show ?case
  proof (cases "?e = TIMER_NONE")
    case True
    then show ?thesis using less.prems(1) by (subst timer_loop.simps) simp
  next
    case False
    have arm: "armed (m_timer s)" and st: "steady (x_clock s)" using less.prems(1) by (simp_all add: dry_ok_def)
    have e: "?e \<in> set timer_events - R"
      using timer_check_due [OF refl False] fresh_not_due [OF arm less.prems(3)] by blast
    obtain d where d: "d \<le> 1" "full_timer zc readers ?e s = Some (s\<lparr>x_tick := x_tick s + d\<rparr>)"
      using dry_handler [OF less.prems(1)] by meson
    let ?u = "Suc t + d"
    let ?s = "s\<lparr>m_timer := timer_reset (x_clock s ?u) (m_timer s) ?e, x_tick := Suc (Suc ?u)\<rparr>"
    have step: "timer_loop False (full_timer zc readers) ?now s = timer_loop False (full_timer zc readers) (x_clock ?s (Suc ?u)) ?s"
      using False d(2) less.prems(2) by (subst timer_loop.simps) (simp add: ask_def Let_def)
    have "unat (x_clock s ?u - ?now) \<le> 1000" using steady_diff [OF st, of t "Suc d"] d(1) by simp
    moreover have "unat (x_clock s (Suc ?u) - x_clock s ?u) \<le> 500" using st steady_def by simp
    ultimately have "fresh (insert ?e R) (m_timer ?s) (x_clock ?s (Suc ?u))"
      using fresh_reset [OF less.prems(3) e] by simp
    moreover have "card (set timer_events - insert ?e R) < card (set timer_events - R)"
      using e by (intro psubset_card_mono) auto
    moreover have "dry_ok disk ?s" using less.prems(1) by (simp add: dry_ok_def)
    ultimately show ?thesis using less.hyps [of "insert ?e R" ?s "Suc ?u"] step by simp
  qed
qed

section \<open>The whole transfer\<close>

definition block_key :: "reader_entry_t \<Rightarrow> nat \<Rightarrow> u32 \<times> u64" where
  "block_key e k = (re_devno e, re_partition_offset e + of_nat k * of_nat BLOCK_SIZE)"

definition read_of :: "(nat \<Rightarrow> u64 \<Rightarrow> u32 \<Rightarrow> bytes option) \<Rightarrow> reader_entry_t \<Rightarrow> nat \<Rightarrow> int \<times> bytes" where
  "read_of disk e k =
     block_reader_read disk (re_reader e) (if re_is_vss e then of_nat k * of_nat BLOCK_SIZE else snd (block_key e k))
       (of_nat BLOCK_SIZE)"

lemma dry_transfer_block:
  assumes "dry_ok disk s" "reads_bounded disk"
  shows "\<exists>s'. transfer_block zc readers e (of_nat k) s = Some (fst (read_of disk e k) = 0, s') \<and> dry_ok disk s' \<and>
    view (m_db s') = block_done (block_key e k, read_of disk e k) (view (m_db s))"
proof -
  obtain rc data where r: "read_of disk e k = (rc, data)" by (metis surj_pair)
  have w: "wait_backpressure zc s = Some s"
    using assms(1) by (subst wait_backpressure.simps)
      (simp add: dry_ok_def idle_queue_def queue_should_backpressure_def BACKPRESSURE_QUEUE_DEPTH_def)
  obtain s1 s2 where s: "send_block zc (re_reader e) (re_devno e) (snd (block_key e k))
      (if re_is_vss e then of_nat k * of_nat BLOCK_SIZE else snd (block_key e k)) s = Some (if rc \<noteq> 0 then -1 else 0, s1)"
    "drain zc s1 = Some s2" "process_ack s2 = s2" "dry_ok disk s2"
    "view (m_db s2) = block_done ((re_devno e, snd (block_key e k)), rc, data) (view (m_db s))"
    using dry_send [OF assms r [unfolded read_of_def], of zc "re_devno e" "snd (block_key e k)"] by blast
  obtain s3 where s3: "timer_loop False (full_timer zc readers) (x_clock s2 (x_tick s2)) (s2\<lparr>x_tick := Suc (x_tick s2)\<rparr>) = Some s3"
    "dry_ok disk s3" "m_db s3 = m_db s2"
    using dry_timer_loop [of disk "s2\<lparr>x_tick := Suc (x_tick s2)\<rparr>" "x_tick s2" "{}" zc readers] s(4) by (auto simp: fresh_def)
  then have "transfer_block zc readers e (of_nat k) s = Some (rc = 0, s3)"
    using s w by (simp add: transfer_block_def block_key_def Let_def ask_def split: if_splits)
  then show ?thesis using s(5) s3 r by (simp add: block_key_def)
qed

lemma dry_transfer_blocks:
  assumes "dry_ok disk s" "reads_bounded disk"
  shows "\<exists>sent' s'. transfer_blocks zc readers e (of_nat k) n sent s = Some (sent', s') \<and> dry_ok disk s' \<and>
    view (m_db s') = fold block_done (map (\<lambda>i. (block_key e i, read_of disk e i)) [k..<k + n]) (view (m_db s))"
  using assms(1)
proof (induction n arbitrary: k sent s)
  case (Suc n)
  let ?s = "s\<lparr>x_tick := x_tick s + 1\<rparr>"
  obtain s1 where s1: "transfer_block zc readers e (of_nat k) ?s = Some (fst (read_of disk e k) = 0, s1)" "dry_ok disk s1"
    "view (m_db s1) = block_done (block_key e k, read_of disk e k) (view (m_db s))"
    using dry_transfer_block [of disk ?s zc readers e k] Suc.prems assms(2) by auto
  let ?sent = "if fst (read_of disk e k) = 0 then sent + 1 else sent"
  have "transfer_blocks zc readers e (of_nat k) (Suc n) sent s = transfer_blocks zc readers e (of_nat (Suc k)) n ?sent s1"
    using s1(1) Suc.prems by (simp add: dry_ok_def ask_def add.commute)
  moreover have "[k..<k + Suc n] = k # [Suc k..<Suc k + n]" by (simp add: upt_rec)
  ultimately show ?case using Suc.IH [OF s1(2), of "Suc k" ?sent] s1(3) by simp
qed simp


definition entry_blocks :: "(nat \<Rightarrow> u64 \<Rightarrow> u32 \<Rightarrow> bytes option) \<Rightarrow> reader_entry_t \<Rightarrow> ((u32 \<times> u64) \<times> int \<times> bytes) list" where
  "entry_blocks disk e = map (\<lambda>i. (block_key e i, read_of disk e i)) [0..<unat (clamp_blocks e)]"

lemma dry_transfer_partitions:
  assumes "dry_ok disk s" "reads_bounded disk"
  shows "\<exists>sent' s'. transfer_partitions zc readers es sent s = Some (sent', s') \<and> dry_ok disk s' \<and>
    view (m_db s') = fold block_done (concat (map (entry_blocks disk) es)) (view (m_db s))"
  using assms(1)
proof (induction es arbitrary: sent s)
  case (Cons e es)
  let ?s = "s\<lparr>x_tick := x_tick s + 1, m_total_blocks := m_total_blocks s + clamp_blocks e\<rparr>"
  have ok: "dry_ok disk ?s" using Cons.prems by (simp add: dry_ok_def)
  obtain sent1 s1 where s1: "transfer_blocks zc readers e 0 (unat (clamp_blocks e)) sent ?s = Some (sent1, s1)" "dry_ok disk s1"
    "view (m_db s1) = fold block_done (entry_blocks disk e) (view (m_db s))"
    using dry_transfer_blocks [OF ok assms(2), of zc readers e 0 "unat (clamp_blocks e)" sent] by (auto simp: entry_blocks_def)
  have "transfer_partitions zc readers (e # es) sent s = transfer_partitions zc readers es sent1 s1"
    using s1(1) Cons.prems by (simp add: dry_ok_def ask_def Let_def)
  then show ?case using Cons.IH [OF s1(2), of sent1] s1(3) by simp
qed simp

text \<open>The metadata blocks that follow are some more blocks.\<close>

definition more_blocks :: "(nat \<Rightarrow> u64 \<Rightarrow> u32 \<Rightarrow> bytes option) \<Rightarrow> client \<Rightarrow> client \<Rightarrow> bool" where
  "more_blocks disk s s' \<longleftrightarrow> dry_ok disk s' \<and> (\<exists>us. view (m_db s') = fold block_done us (view (m_db s)))"

lemma more_blocks_refl: "dry_ok disk s \<Longrightarrow> more_blocks disk s s"
  unfolding more_blocks_def using exI [of "\<lambda>us. view (m_db s) = fold block_done us (view (m_db s))" "[]"] by simp

lemma more_blocks_trans: "\<lbrakk>more_blocks disk s t; more_blocks disk t u\<rbrakk> \<Longrightarrow> more_blocks disk s u"
  unfolding more_blocks_def by (metis fold_append comp_apply)

lemma more_blocks_tick: "more_blocks disk (s\<lparr>x_tick := n\<rparr>) s' = more_blocks disk s s'"
  by (simp add: more_blocks_def)

lemma dry_send_and_drain:
  assumes "dry_ok disk s" "reads_bounded disk"
  shows "\<exists>sent' s'. send_and_drain zc reader devno off sent s = Some (sent', s') \<and> more_blocks disk s s'"
proof -
  obtain rc data where r: "block_reader_read disk reader off (of_nat BLOCK_SIZE) = (rc, data)" by (metis surj_pair)
  obtain s1 s2 where s: "send_block zc reader devno off off s = Some (if rc \<noteq> 0 then -1 else 0, s1)" "drain zc s1 = Some s2"
    "process_ack s2 = s2" "dry_ok disk s2" "view (m_db s2) = block_done ((devno, off), rc, data) (view (m_db s))"
    using dry_send [OF assms r, of zc devno off] by blast
  have "view (m_db s2) = fold block_done [((devno, off), rc, data)] (view (m_db s))" using s(5) by simp
  then have "more_blocks disk s s2" using s(4) unfolding more_blocks_def by blast
  then show ?thesis using s(1-3) by (simp add: send_and_drain_def)
qed

lemma dry_send_tail:
  assumes "dry_ok disk s" "reads_bounded disk"
  shows "\<exists>sent' s'. send_tail zc reader devno offs sent s = Some (sent', s') \<and> more_blocks disk s s'"
  using assms(1)
proof (induction offs arbitrary: sent s)
  case (Cons off offs)
  let ?s = "s\<lparr>x_tick := x_tick s + 1\<rparr>"
  obtain sent1 s1 where s1: "send_and_drain zc reader devno off sent ?s = Some (sent1, s1)" "more_blocks disk s s1"
    using dry_send_and_drain [of disk ?s zc reader devno off sent] Cons.prems assms(2) by (auto simp: more_blocks_tick)
  obtain sent2 s2 where s2: "send_tail zc reader devno offs sent1 s1 = Some (sent2, s2)" "more_blocks disk s1 s2"
    using Cons.IH s1(2) unfolding more_blocks_def by meson
  have "x_running s (x_tick s)" using Cons.prems by (simp add: dry_ok_def)
  then show ?case using s1(1) s2(1) more_blocks_trans [OF s1(2) s2(2)] by (simp add: ask_def)
qed (simp add: more_blocks_refl)

lemma dry_gpt_disk:
  assumes "dry_ok disk s" "reads_bounded disk"
  shows "\<exists>sent' s'. gpt_disk zc opn e sent s = Some (sent', s') \<and> more_blocks disk s s'"
proof (cases "if re_is_vss e
    then opn ([CHR 0x5C, CHR 0x5C, CHR ''.'', CHR 0x5C] @ ''PhysicalDrive'' @ fmt_d (sint (re_devno e))) else Some (re_reader e)")
  case None
  then show ?thesis using more_blocks_refl [OF assms(1)] unfolding gpt_disk_def by simp
next
  case (Some d)
  obtain sent1 s1 where s1: "send_and_drain zc d (re_devno e) 0 sent s = Some (sent1, s1)" "more_blocks disk s s1"
    using dry_send_and_drain [OF assms] by blast
  then obtain sent2 s2 where s2: "send_tail zc d (re_devno e) (gpt_tail (block_reader_size d)) sent1 s1 = Some (sent2, s2)"
    "more_blocks disk s1 s2"
    using dry_send_tail [OF _ assms(2)] unfolding more_blocks_def by meson
  then show ?thesis using Some s1 more_blocks_trans [OF s1(2) s2(2)] unfolding gpt_disk_def by simp
qed

lemma dry_gpt_loop:
  assumes "dry_ok disk s" "reads_bounded disk"
  shows "\<exists>sent' s'. gpt_loop zc opn seen es sent s = Some (sent', s') \<and> more_blocks disk s s'"
  using assms(1)
proof (induction es arbitrary: seen sent s)
  case (Cons e es)
  let ?s = "s\<lparr>x_tick := x_tick s + 1\<rparr>"
  have ok: "dry_ok disk ?s" and run: "x_running s (x_tick s)" using Cons.prems by (simp_all add: dry_ok_def)
  obtain sent1 s1 where s1: "gpt_disk zc opn e sent ?s = Some (sent1, s1)" "more_blocks disk s s1"
    using dry_gpt_disk [OF ok assms(2)] by (metis more_blocks_tick)
  obtain sent2 s2 where s2: "gpt_loop zc opn (re_devno e # seen) es sent1 s1 = Some (sent2, s2)" "more_blocks disk s1 s2"
    using Cons.IH s1(2) unfolding more_blocks_def by meson
  show ?case
    using Cons.IH [OF ok, of seen sent] s1 s2 more_blocks_trans [OF s1(2) s2(2)] run
    by (auto simp: ask_def more_blocks_tick)
qed (simp add: more_blocks_refl)

section \<open>What is recorded at the end\<close>

lemma block_done_acked: "m k = Some (h, True) \<Longrightarrow> block_done u m k = Some (h, True)"
  by (auto simp: block_done_def split: prod.split)

lemma block_done_keeps: "m k = Some (h, True) \<Longrightarrow> fold block_done us m k = Some (h, True)"
  by (induction us arbitrary: m) (simp_all add: block_done_acked)

text \<open>When all reads of a key agree, its block is recorded with the hash of what was read.\<close>

lemma block_done_records:
  assumes "(k, 0, data) \<in> set us" "data \<noteq> []" "\<forall>data'. (k, 0, data') \<in> set us \<longrightarrow> data' \<noteq> [] \<longrightarrow> data' = data"
    and "\<not> (\<exists>h. m k = Some (h, True))"
  shows "fold block_done us m k = Some (hash_block data (length data) (hash_seed (snd k)), True)"
  using assms
proof (induction us arbitrary: m)
  case (Cons u us)
  obtain k' rc data' where u: "u = (k', rc, data')" by (metis prod_cases3)
  show ?case
  proof (cases "k' = k \<and> rc = 0 \<and> data' \<noteq> []")
    case True
    then have "data' = data" using Cons.prems(3) u by auto
    then show ?thesis using True u Cons.prems(4) block_done_keeps by (simp add: block_done_def)
  next
    case False
    then have same: "block_done u m k = m k" unfolding u by (simp add: block_done_def) blast
    have mem: "(k, 0, data) \<in> set us" using False u Cons.prems(1,2) by auto
    have "\<forall>data'. (k, 0, data') \<in> set us \<longrightarrow> data' \<noteq> [] \<longrightarrow> data' = data" using Cons.prems(3) by simp
    moreover have "\<not> (\<exists>h. block_done u m k = Some (h, True))" using Cons.prems(4) same by simp
    ultimately have "fold block_done us (block_done u m) k = Some (hash_block data (length data) (hash_seed (snd k)), True)"
      using Cons.IH mem Cons.prems(2) by blast
    then show ?thesis by simp
  qed
qed simp


definition reads_agree ::
  "(nat \<Rightarrow> u64 \<Rightarrow> u32 \<Rightarrow> bytes option) \<Rightarrow> reader_entry_t list \<Rightarrow> (u32 \<times> u64 \<Rightarrow> bytes) \<Rightarrow> bool" where
  "reads_agree disk readers content \<longleftrightarrow> (\<forall>e \<in> set readers. \<forall>k < unat (clamp_blocks e).
     read_of disk e k = (0, content (block_key e k)) \<and> content (block_key e k) \<noteq> [])"

definition recorded :: "(u32 \<times> u64 \<Rightarrow> bytes) \<Rightarrow> sqlite_db \<Rightarrow> sqlite_db \<Rightarrow> u32 \<times> u64 \<Rightarrow> bool" where
  "recorded content db db' key \<longleftrightarrow> view db' key =
     (case view db key of
        Some (h, True) \<Rightarrow> Some (h, True)
      | _ \<Rightarrow> Some (hash_block (content key) (length (content key)) (hash_seed (snd key)), True))"

lemma recorded_fold:
  assumes "reads_agree disk readers content" "e \<in> set readers" "k < unat (clamp_blocks e)"
    and "view db' = fold block_done us (fold block_done (concat (map (entry_blocks disk) readers)) (view db))"
  shows "recorded content db db' (block_key e k)"
proof -
  let ?k = "block_key e k" and ?all = "concat (map (entry_blocks disk) readers)"
  have read: "read_of disk e k = (0, content ?k)" "content ?k \<noteq> []"
    using assms(1-3) by (simp_all add: reads_agree_def)
  then have mem: "(?k, 0, content ?k) \<in> set ?all" using assms(2,3) by (force simp: entry_blocks_def)
  have same: "data = content ?k" if "(?k, 0, data) \<in> set ?all" for data
    using that assms(1) by (force simp: entry_blocks_def reads_agree_def)
  show ?thesis
  proof (cases "\<exists>h. view db ?k = Some (h, True)")
    case True
    then obtain h where h: "view db ?k = Some (h, True)" by blast
    then have "view db' ?k = Some (h, True)" unfolding assms(4) by (intro block_done_keeps)
    then show ?thesis using h by (simp add: recorded_def)
  next
    case False
    then have "fold block_done ?all (view db) ?k = Some (hash_block (content ?k) (length (content ?k)) (hash_seed (snd ?k)), True)"
      using block_done_records [OF mem read(2)] same by blast
    then have "view db' ?k = Some (hash_block (content ?k) (length (content ?k)) (hash_seed (snd ?k)), True)"
      unfolding assms(4) by (rule block_done_keeps)
    then show ?thesis using False unfolding recorded_def by (auto split: option.split bool.split)
  qed
qed

lemma view_set_remote_id [simp]: "view (sqlite_set_remote_id db r) = view db"
  by (simp add: sqlite_set_remote_id_def view_def row_of_def fun_eq_iff split: option.split)

lemma dry_migrate:
  fixes db :: sqlite_db and s :: client
  defines "rid \<equiv> remote_id_of (m_server_ip s) (m_server_port s)"
  assumes "dry_ok disk (s\<lparr>m_db := sqlite_set_remote_id db (Some rid)\<rparr>)" "reads_bounded disk" "take_snapshots vss vols = Some vols'"
    and "open_readers opn (m_skip_disks s) False vols' = readers" "readers \<noteq> []"
  shows "\<exists>s' us. do_migrate zc opn (Some db) vss vols s = Some (0, s') \<and>
    view (m_db s') = fold block_done us (fold block_done (concat (map (entry_blocks disk) readers)) (view db))"
proof -
  let ?t = "s\<lparr>m_db := sqlite_set_remote_id db (Some rid)\<rparr>"
  let ?s = "?t\<lparr>x_tick := x_tick s + 1\<rparr>"
  have ok: "dry_ok disk (?s\<lparr>m_total_blocks := 0\<rparr>)" using assms(2) by (simp add: dry_ok_def)
  obtain sent1 s1 where s1: "transfer_partitions zc readers readers 0 (?s\<lparr>m_total_blocks := 0\<rparr>) = Some (sent1, s1)" "dry_ok disk s1"
    "view (m_db s1) = fold block_done (concat (map (entry_blocks disk) readers)) (view db)"
    using dry_transfer_partitions [OF ok assms(3), of zc readers readers 0] by auto
  obtain sent2 s2 where s2: "gpt_loop zc opn [] readers sent1 s1 = Some (sent2, s2)" "more_blocks disk s1 s2"
    using dry_gpt_loop [OF s1(2) assms(3)] by blast
  then have s2': "m_dry_run s2" "\<not> m_tail_send s2" "q_count (m_queue s2) = 0"
    by (simp_all add: more_blocks_def dry_ok_def idle_queue_def)
  have "drain_attempts zc n s2 = Some s2" for n using s2'(3) by (cases n) (simp_all add: queue_count_def)
  then have "transfer_all zc opn readers ?s = Some (sent2, s2)"
    using s1(1) s2(1) by (simp add: transfer_all_def)
  moreover have "m_dry_run s" "\<not> m_tail_send s" "x_alloc s (x_tick s)" using assms(2) by (simp_all add: dry_ok_def)
  ultimately have "do_migrate zc opn (Some db) vss vols s = Some (0, s2)"
    using assms(4-6) s2' by (simp add: do_migrate_def ask_def rid_def end_full_def Let_def)
  then show ?thesis using s2(2) s1(3) by (auto simp: more_blocks_def)
qed



definition dry_disk :: "nat \<Rightarrow> u64 \<Rightarrow> u32 \<Rightarrow> bytes option" where
  "dry_disk h off n = Some (if 3 \<le> unat n then [1, 2, 3] else [])"

definition dry_reader :: block_reader where
  "dry_reader = \<lparr>br_handle = 5, br_total_bytes = 1048576\<rparr>"

definition dry_volume :: volume_info_t where
  "dry_volume = \<lparr>vi_devno = 1, vi_disk_path = ''D'', vi_vss_path = [], vi_name = ''C:'', vi_partition_offset = 0,
     vi_total_bytes = 1048576, vi_total_sectors = 2048, vi_block_count = 1, vi_writable = True, vi_has_vss = False,
     vi_part_index = 1\<rparr>"

definition dry_service :: vss_service where
  "dry_service names = (1, [\<lparr>sn_original_volume = ''C:'' @ [CHR 0x5C], sn_snapshot_path = ''S'', sn_snapshot_id = (0, 0), sn_valid = True\<rparr>])"

definition dry_entry :: reader_entry_t where
  "dry_entry = \<lparr>re_reader = dry_reader, re_live_reader = None, re_devno = 1, re_partition_offset = 0, re_block_count = 1,
     re_is_vss = True, re_name = ''C:'', re_part_index = 1, re_sent_count = 0\<rparr>"



section \<open>The bounds of the transfer\<close>

text \<open>
  C30: Every block the full transfer reads lies inside the reader.  Below the clamped block count the
  disk offset does not wrap around, the partition offset plus the block fits into the size of the
  reader, and the read asks for a whole block: the subtraction in \<open>block_reader_read\<close> never wraps
  here.  The bound is the partition offset plus the block also when the reader is a snapshot of the
  partition alone, read from 0: the last part of such a snapshot, as long as the partition's offset
  on its disk, is not transferred, and nothing of it when the snapshot is not larger than the offset.
\<close>
theorem transfer_reads_whole_blocks:
  "(k < unat (clamp_blocks e) \<longrightarrow>
      unat (snd (block_key e k)) = unat (re_partition_offset e) + k * BLOCK_SIZE \<and>
      unat (re_partition_offset e) + (k + 1) * BLOCK_SIZE \<le> unat (br_total_bytes (re_reader e)) \<and>
      read_of disk e k =
        (case disk (br_handle (re_reader e)) (if re_is_vss e then of_nat (k * BLOCK_SIZE) else snd (block_key e k)) (of_nat BLOCK_SIZE) of
           None \<Rightarrow> (-1, []) | Some bs \<Rightarrow> (0, bs))) \<and>
    (br_total_bytes (re_reader e) \<le> re_partition_offset e \<longrightarrow> clamp_blocks e = 0)"
proof (intro conjI impI)
  show "clamp_blocks e = 0" if "br_total_bytes (re_reader e) \<le> re_partition_offset e"
    using that by (simp add: clamp_blocks_def block_reader_size_def Let_def not_less [symmetric])
next
  assume k: "k < unat (clamp_blocks e)"
  let ?n = "unat (br_total_bytes (re_reader e))" and ?b = "unat (re_partition_offset e)"
  have lt: "?b < ?n" using k by (auto simp: clamp_blocks_def block_reader_size_def Let_def word_less_nat_alt split: if_splits)
  have "clamp_blocks e \<le> (br_total_bytes (re_reader e) - re_partition_offset e) div of_nat BLOCK_SIZE"
    using lt by (auto simp: clamp_blocks_def block_reader_size_def Let_def word_less_nat_alt word_le_nat_alt)
  then have "unat (clamp_blocks e) \<le> (?n - ?b) div BLOCK_SIZE"
    using lt by (simp add: word_le_nat_alt unat_div unat_sub BLOCK_SIZE_def)
  then have "k + 1 \<le> (?n - ?b) div BLOCK_SIZE" using k by simp
  then have "(k + 1) * BLOCK_SIZE \<le> ((?n - ?b) div BLOCK_SIZE) * BLOCK_SIZE" by (rule mult_right_mono) simp
  also have "\<dots> \<le> ?n - ?b" by simp
  finally have fit: "?b + (k + 1) * BLOCK_SIZE \<le> ?n" using lt by simp
  then show "?b + (k + 1) * BLOCK_SIZE \<le> ?n" .
  have n: "?n < 2 ^ 64" using unsigned_less [of "br_total_bytes (re_reader e)"] by simp
  then have kb: "unat (of_nat (k * BLOCK_SIZE) :: u64) = k * BLOCK_SIZE"
    using fit by (simp add: unat_of_nat take_bit_nat_eq_self del: of_nat_mult)
  have key: "snd (block_key e k) = re_partition_offset e + of_nat (k * BLOCK_SIZE)" by (simp add: block_key_def)
  then show off: "unat (snd (block_key e k)) = ?b + k * BLOCK_SIZE"
    using fit n kb by (simp add: unat_plus_if' del: of_nat_mult)
  let ?off = "if re_is_vss e then of_nat (k * BLOCK_SIZE) else snd (block_key e k)"
  define o1 where "o1 = ?off"
  have "unat o1 + BLOCK_SIZE \<le> ?n" using fit kb off by (simp add: o1_def)
  then have "BLOCK_SIZE \<le> unat (br_total_bytes (re_reader e) - o1)"
    by (subst unat_sub) (simp_all add: word_le_nat_alt)
  then have "min (ucast (of_nat BLOCK_SIZE :: u32)) (br_total_bytes (re_reader e) - o1) = (ucast (of_nat BLOCK_SIZE :: u32) :: u64)"
    by (simp add: min_def word_le_nat_alt BLOCK_SIZE_def)
  then have "block_reader_read disk (re_reader e) o1 (of_nat BLOCK_SIZE) =
      (case disk (br_handle (re_reader e)) o1 (of_nat BLOCK_SIZE) of None \<Rightarrow> (-1, []) | Some bs \<Rightarrow> (0, bs))"
    by (simp add: block_reader_read_def BLOCK_SIZE_def)
  moreover have "read_of disk e k = block_reader_read disk (re_reader e) o1 (of_nat BLOCK_SIZE)" by (simp add: read_of_def o1_def)
  ultimately show "read_of disk e k = (case disk (br_handle (re_reader e)) ?off (of_nat BLOCK_SIZE) of None \<Rightarrow> (-1, []) | Some bs \<Rightarrow> (0, bs))"
    by (simp only: o1_def)
qed

theorem transfer_reads_whole_blocks_witness:
  "unat (snd (block_key dry_entry 0)) + BLOCK_SIZE \<le> unat (br_total_bytes dry_reader) \<and>
   clamp_blocks (dry_entry\<lparr>re_partition_offset := 1048576\<rparr>) = 0"
proof -
  have "clamp_blocks dry_entry = 1"
    by (simp add: clamp_blocks_def dry_entry_def dry_reader_def block_reader_size_def BLOCK_SIZE_def)
  then show ?thesis
    using transfer_reads_whole_blocks [of 0 dry_entry dry_disk]
      transfer_reads_whole_blocks [of 0 "dry_entry\<lparr>re_partition_offset := 1048576\<rparr>" dry_disk]
    by (simp add: dry_entry_def dry_reader_def)
qed


section \<open>Tail mode\<close>

text \<open>
  A dry run in tail mode does not get through its incremental phase: the phase reconnects first, and
  the pool of a dry run was never initialised.
\<close>

theorem dryrun_tail_crashes:
  assumes "m_pool s = m_pool (configure True cfg target s0)" "m_dry_run s" "idle_queue (m_queue s)"
    and "x_running s (x_tick s)" "\<not> m_all_done s"
  shows "inc_session zc readers s = None"
proof -
  let ?s = "s\<lparr>x_tick := x_tick s + 1\<rparr>"
  have "process_ack ?s = ?s" "drain zc ?s = Some ?s"
    using assms(2,3) by (simp_all add: process_ack_idle drain_idle idle_queue_def)
  moreover have "do_reconnect ?s = None"
    using assms(1) by (simp add: do_reconnect_def configure_def zero_ctx_def zero_pool_def)
  ultimately show ?thesis using assms(4,5) by (subst inc_session.simps) (simp add: ask_def)
qed


end
