(* ===== verification/Driver_Inject.thy ===== *)
theory Driver_Inject
  imports Config
begin

text \<open>
  Installing the VirtIO drivers, \<^verbatim>\<open>client/driver_inject.c\<close> (the Windows part): the choice of the
  driver file for the running Windows version, running \<open>devcon.exe\<close>, and the installation and check
  of the three drivers.

  What the operating system answers is the record \<open>os_env\<close>: the version, the files, the directory
  listings, and a run of \<open>devcon.exe\<close>, which maps a command line and a state \<open>'w\<close> of the machine to
  an exit code, the pieces its output arrives in, and the next state (\<open>None\<close> when the process cannot
  be started).  File names convert between the two character sets unchanged and fit the buffers of
  64 bytes; \<open>snprintf\<close> cuts its result to the size of the buffer, as in the code.
\<close>

section \<open>The operating system\<close>

record 'w os_env =
  os_version :: "(nat \<times> nat) option"
  os_exists :: "string \<Rightarrow> bool"
  os_search_path :: "string option"
  os_full_path :: "string \<Rightarrow> string"
  os_dir :: "string \<Rightarrow> (string \<times> bool) list option"
  os_find :: "string \<Rightarrow> string option"
  os_pipe :: bool
  os_devcon :: "string \<Rightarrow> 'w \<Rightarrow> (int \<times> string list \<times> 'w) option"

definition BACKSLASH :: string where "BACKSLASH = [CHR 0x5C]"

definition DQUOTE :: string where "DQUOTE = [CHR 0x22]"

definition contains :: "string \<Rightarrow> string \<Rightarrow> bool" where
  "contains s t \<longleftrightarrow> strstr s t \<noteq> None"

definition tolower_char :: "char \<Rightarrow> char" where
  "tolower_char c = (let n = (of_char c :: nat) in if 65 \<le> n \<and> n \<le> 90 then char_of (n + 32) else c)"

section \<open>The version folder\<close>

definition folder_matches_os :: "'w os_env \<Rightarrow> string \<Rightarrow> bool" where
  "folder_matches_os env folder =
     (case os_version env of
        None \<Rightarrow> False
      | Some (major, minor) \<Rightarrow>
          let lower = map tolower_char (take 31 folder);
              any = (\<lambda>ts. \<exists>t \<in> set ts. contains lower t)
          in if major = 10 then any [''w10'', ''win10'', ''w11'', ''win11'', ''2k16'', ''2016'', ''2k19'', ''2019'', ''2k22'', ''2022'']
             else if major = 6 \<and> minor = 3 then any [''w8.1'', ''win8.1'', ''2k12r2'', ''2012r2'']
             else if major = 6 \<and> minor = 2 then any [''w8'', ''win8'', ''2k12'', ''2012'']
             else if major = 6 \<and> minor = 1 then any [''w7'', ''win7'', ''2k8r2'', ''2008r2'']
             else False)"

definition folder_score :: "'w os_env \<Rightarrow> string \<Rightarrow> int" where
  "folder_score env name =
     (if folder_matches_os env name then 100
      else if contains name ''w10'' \<or> contains name ''Win10'' \<or> contains name ''2k16'' then 50
      else if contains name ''w8.1'' \<or> contains name ''Win8.1'' \<or> contains name ''2k12R2'' then 40
      else if contains name ''w8'' \<or> contains name ''Win8'' \<or> contains name ''2k12'' then 30
      else if contains name ''w7'' \<or> contains name ''Win7'' then 20
      else 0)"

definition is_candidate :: "string \<times> bool \<Rightarrow> bool" where
  "is_candidate = (\<lambda>(name, is_dir). is_dir \<and> name \<noteq> ''.'' \<and> name \<noteq> ''..'')"

text \<open>The loop over the directory: a folder replaces the best one when its score is higher.\<close>

fun best_folder :: "'w os_env \<Rightarrow> (string \<times> bool) list \<Rightarrow> int \<times> string \<Rightarrow> int \<times> string" where
  "best_folder env [] best = best"
| "best_folder env (fd # fds) best =
     (if \<not> is_candidate fd then best_folder env fds best
      else
        let score = folder_score env (fst fd)
        in best_folder env fds (if score > fst best then (score, fst fd) else best))"

definition inf_names :: "string \<Rightarrow> string list" where
  "inf_names driver_name =
     snprintf 64 (driver_name @ ''.inf'') # (if driver_name = ''viostor'' then [''vioscsi.inf''] else []) @ [''*.inf'']"

text \<open>Every name in both directories, the names in the outer loop.\<close>

fun search_inf :: "'w os_env \<Rightarrow> (string \<times> string) list \<Rightarrow> string option" where
  "search_inf env [] = None"
| "search_inf env ((name, dir) # xs) =
     (case os_find env (snprintf 512 (dir @ BACKSLASH @ name)) of
        Some found \<Rightarrow> Some (os_full_path env (dir @ BACKSLASH @ found))
      | None \<Rightarrow> search_inf env xs)"

definition driver_find_inf :: "'w os_env \<Rightarrow> string \<Rightarrow> string \<Rightarrow> string option" where
  "driver_find_inf env install_dir driver_name =
     (case os_dir env (snprintf 512 (install_dir @ BACKSLASH @ ''*'')) of
        None \<Rightarrow> None
      | Some fds \<Rightarrow>
          let folder = snd (best_folder env fds (-1, []))
          in if folder = [] then None
             else
               let dirs = [snprintf 512 (install_dir @ BACKSLASH @ folder @ BACKSLASH @ ''amd64''),
                           snprintf 512 (install_dir @ BACKSLASH @ folder)]
               in search_inf env (concat (map (\<lambda>n. map (\<lambda>d. (n, d)) dirs) (inf_names driver_name))))"

section \<open>Running devcon\<close>

definition find_devcon :: "'w os_env \<Rightarrow> string option" where
  "find_devcon env =
     (case find (os_exists env) [''devcon.exe'', ''D:'' @ BACKSLASH @ ''migrate'' @ BACKSLASH @ ''devcon.exe''] of
        Some p \<Rightarrow> Some (os_full_path env p)
      | None \<Rightarrow> (case os_search_path env of Some p \<Rightarrow> if 0 < length p \<and> length p < 260 then Some (take 259 p) else None
                | None \<Rightarrow> None))"

text \<open>Reading the pipe into the buffer of \<open>out_size\<close> bytes, the last of which ends the string.\<close>

fun read_output :: "nat \<Rightarrow> string list \<Rightarrow> string \<Rightarrow> string" where
  "read_output out_size [] out = out"
| "read_output out_size (buf # bufs) out =
     (if buf = [] then out
      else
        let nread = (if length out + length buf \<ge> out_size then out_size - length out - 1 else length buf)
        in if nread = 0 then out else read_output out_size bufs (out @ take nread buf))"

definition trim_newlines :: "string \<Rightarrow> string" where
  "trim_newlines out = rev (dropWhile (\<lambda>c. c = CHR 0x0D \<or> c = CHR 0x0A) (rev out))"

text \<open>\<open>out_size = None\<close> for a NULL buffer.  The exit code, the output and the state of the machine.\<close>

definition devcon_run :: "'w os_env \<Rightarrow> string \<Rightarrow> nat option \<Rightarrow> 'w \<Rightarrow> int \<times> string \<times> 'w" where
  "devcon_run env args out_size w =
     (case find_devcon env of
        None \<Rightarrow> (-1, [], w)
      | Some path \<Rightarrow>
          if out_size \<noteq> None \<and> \<not> os_pipe env then (-1, [], w)
          else
            case os_devcon env (snprintf 1024 (DQUOTE @ path @ DQUOTE @ '' '' @ args)) w of
              None \<Rightarrow> (-1, [], w)
            | Some (exit_code, bufs, w') \<Rightarrow>
                (exit_code, case out_size of None \<Rightarrow> [] | Some n \<Rightarrow> trim_newlines (read_output n bufs []), w'))"

section \<open>Installing and probing\<close>

record driver_result_t =
  dr_name :: string
  dr_hwid :: string
  dr_installed :: bool
  dr_just_installed :: bool
  dr_reboot_required :: bool
  dr_error :: string

text \<open>The code, whether a reboot is required, and the state.\<close>

definition driver_inject_install :: "'w os_env \<Rightarrow> string \<Rightarrow> string \<Rightarrow> 'w \<Rightarrow> int \<times> bool \<times> 'w" where
  "driver_inject_install env inf_path hwid w =
     (if \<not> os_exists env inf_path then (-1, False, w)
      else
        case devcon_run env (snprintf 768 (''install '' @ DQUOTE @ inf_path @ DQUOTE @ '' '' @ hwid)) None w of (rc, _, w) \<Rightarrow>
          if rc = 0 then (0, False, w)
          else if rc = 1 then (0, True, w)
          else if rc = 2 then (0, False, w)
          else (-1, False, w))"

definition short_hwid :: "string \<Rightarrow> string" where
  "short_hwid hwid =
     (let h = take 127 hwid
      in case strstr h ''&SUBSYS'' of None \<Rightarrow> h | Some rest \<Rightarrow> take (length h - length rest) h)"

definition driver_inject_probe :: "'w os_env \<Rightarrow> string option \<Rightarrow> 'w \<Rightarrow> int \<times> 'w" where
  "driver_inject_probe env hwid w =
     (case hwid of
        None \<Rightarrow> (0, w)
      | Some hwid \<Rightarrow>
          (case devcon_run env (snprintf 256 (''find '' @ DQUOTE @ short_hwid hwid @ ''*'' @ DQUOTE)) (Some 512) w of
             (rc, out, w) \<Rightarrow> if rc = 0 \<and> out \<noteq> [] then (1, w) else (0, w)))"

definition virtio_drivers :: "(string \<times> string) list" where
  "virtio_drivers =
     [(''viostor'', ''PCI'' @ BACKSLASH @ ''VEN_1AF4&DEV_1001&SUBSYS_00021AF4&REV_00''),
      (''netkvm'', ''PCI'' @ BACKSLASH @ ''VEN_1AF4&DEV_1000&SUBSYS_00011AF4&REV_00''),
      (''qxldod'', ''PCI'' @ BACKSLASH @ ''VEN_1B36&DEV_0100&SUBSYS_11001AF4'')]"

text \<open>One driver of \<open>driver_inject_virtio\<close>: whether it went well, the result and the state.\<close>

definition inject_one :: "'w os_env \<Rightarrow> string \<Rightarrow> string \<times> string \<Rightarrow> 'w \<Rightarrow> bool \<times> driver_result_t \<times> 'w" where
  "inject_one env driver_dir d w =
     (case d of (name, hwid) \<Rightarrow>
        let r = \<lparr>dr_name = name, dr_hwid = hwid, dr_installed = False, dr_just_installed = False,
                 dr_reboot_required = False, dr_error = []\<rparr>
        in case driver_find_inf env (snprintf 512 (driver_dir @ BACKSLASH @ name @ BACKSLASH @ ''Install'')) name of
             None \<Rightarrow> (False, r\<lparr>dr_error := snprintf 256 (''cannot find INF for '' @ name)\<rparr>, w)
           | Some inf_path \<Rightarrow>
               (case driver_inject_probe env (Some hwid) w of (probe, w) \<Rightarrow>
                  if probe < 0 then (False, r\<lparr>dr_error := ''probe failed''\<rparr>, w)
                  else if probe \<noteq> 0 then (True, r\<lparr>dr_installed := True\<rparr>, w)
                  else
                    case driver_inject_install env inf_path hwid w of (rc, reboot, w) \<Rightarrow>
                      if rc = 0 then
                        (case driver_inject_probe env (Some hwid) w of (probe2, w) \<Rightarrow>
                           (True, r\<lparr>dr_installed := (probe2 > 0), dr_just_installed := True, dr_reboot_required := reboot\<rparr>, w))
                      else (False, r\<lparr>dr_error := ''devcon install failed''\<rparr>, w)))"

text \<open>One driver of \<open>driver_check_virtio\<close>.\<close>

definition check_one :: "'w os_env \<Rightarrow> string \<times> string \<Rightarrow> 'w \<Rightarrow> bool \<times> driver_result_t \<times> 'w" where
  "check_one env d w =
     (case d of (name, hwid) \<Rightarrow>
        let r = \<lparr>dr_name = name, dr_hwid = hwid, dr_installed = False, dr_just_installed = False,
                 dr_reboot_required = False, dr_error = []\<rparr>
        in case driver_inject_probe env (Some hwid) w of (probe, w) \<Rightarrow>
             if probe < 0 then (False, r\<lparr>dr_error := ''probe failed''\<rparr>, w)
             else if probe = 0 then (False, r\<lparr>dr_error := ''not installed''\<rparr>, w)
             else (True, r\<lparr>dr_installed := True\<rparr>, w))"

fun each_driver ::
  "('d \<Rightarrow> 'w \<Rightarrow> bool \<times> driver_result_t \<times> 'w) \<Rightarrow> 'd list \<Rightarrow> 'w \<Rightarrow> bool \<times> driver_result_t list \<times> 'w" where
  "each_driver f [] w = (True, [], w)"
| "each_driver f (d # ds) w =
     (case f d w of (ok, r, w) \<Rightarrow>
        (case each_driver f ds w of (all_ok, rs, w) \<Rightarrow> (ok \<and> all_ok, r # rs, w)))"

definition driver_inject_virtio :: "'w os_env \<Rightarrow> string \<Rightarrow> 'w \<Rightarrow> int \<times> driver_result_t list \<times> 'w" where
  "driver_inject_virtio env driver_dir w =
     (case each_driver (inject_one env driver_dir) virtio_drivers w of
        (all_ok, results, w) \<Rightarrow> (if all_ok then 0 else -1, results, w))"

definition driver_check_virtio :: "'w os_env \<Rightarrow> 'w \<Rightarrow> int \<times> driver_result_t list \<times> 'w" where
  "driver_check_virtio env w =
     (case each_driver (check_one env) virtio_drivers w of
        (all_ok, results, w) \<Rightarrow> (if all_ok then 0 else -1, results, w))"

section \<open>The output buffer\<close>

text \<open>The buffer holds as much of the output as fits, whatever the pieces are.\<close>

lemma read_output_take:
  assumes "\<forall>b \<in> set bufs. b \<noteq> []" "length out < out_size"
  shows "read_output out_size bufs out = take (out_size - 1) (out @ concat bufs)"
  using assms
proof (induction bufs arbitrary: out)
  case (Cons b bufs)
  show ?case
  proof (cases "length out + length b \<ge> out_size")
    case False
    then show ?thesis using Cons by simp
  next
    case True
    let ?n = "out_size - length out - 1"
    have len: "length (out @ take ?n b) = out_size - 1" using True Cons.prems by simp
    then have "\<not> length (out @ take ?n b) + length a < out_size" if "a \<noteq> []" for a :: string
      using that Cons.prems(2) by (cases a) simp_all
    then have rest: "read_output out_size bufs (out @ take ?n b) = out @ take ?n b"
      using len Cons.prems by (cases bufs) (simp_all add: Let_def not_less)
    have "take (out_size - 1) (out @ b @ concat bufs) = out @ take ?n b" using True Cons.prems by simp
    then show ?thesis using True Cons.prems rest by (simp add: Let_def)
  qed
qed simp

section \<open>The choice of the folder\<close>

lemma best_folder_max:
  assumes "best_folder env fds best = (score, name)"
  shows "(score, name) = best \<and> (\<forall>fd \<in> set fds. is_candidate fd \<longrightarrow> folder_score env (fst fd) \<le> fst best) \<or>
    (\<exists>pre fd post. fds = pre @ fd # post \<and> is_candidate fd \<and> name = fst fd \<and> score = folder_score env name \<and> fst best < score \<and>
       (\<forall>x \<in> set pre. is_candidate x \<longrightarrow> folder_score env (fst x) < score) \<and>
       (\<forall>x \<in> set post. is_candidate x \<longrightarrow> folder_score env (fst x) \<le> score))"
  using assms
proof (induction fds arbitrary: best)
  case (Cons fd fds)
  let ?s = "folder_score env (fst fd)"
  define best' where "best' = (if is_candidate fd \<and> ?s > fst best then (?s, fst fd) else best)"
  have run: "best_folder env fds best' = (score, name)"
    using Cons.prems by (auto simp: best'_def Let_def split: if_splits)
  have fd: "is_candidate fd \<Longrightarrow> ?s \<le> fst best'" "fst best \<le> fst best'" by (auto simp: best'_def)
  from Cons.IH [OF run] show ?case
  proof
    assume a: "(score, name) = best' \<and> (\<forall>x \<in> set fds. is_candidate x \<longrightarrow> folder_score env (fst x) \<le> fst best')"
    show ?thesis
    proof (cases "is_candidate fd \<and> ?s > fst best")
      case True
      then show ?thesis using a by (intro disjI2 exI [of _ "[]"] exI [of _ fd] exI [of _ fds]) (auto simp: best'_def)
    next
      case False
      then show ?thesis using a fd(1) by (auto simp: best'_def)
    qed
  next
    assume "\<exists>pre x post. fds = pre @ x # post \<and> is_candidate x \<and> name = fst x \<and> score = folder_score env name \<and> fst best' < score \<and>
       (\<forall>y \<in> set pre. is_candidate y \<longrightarrow> folder_score env (fst y) < score) \<and>
       (\<forall>y \<in> set post. is_candidate y \<longrightarrow> folder_score env (fst y) \<le> score)"
    then obtain pre x post where x: "fds = pre @ x # post" "is_candidate x" "name = fst x" "score = folder_score env name"
      "fst best' < score" "\<forall>y \<in> set pre. is_candidate y \<longrightarrow> folder_score env (fst y) < score"
      "\<forall>y \<in> set post. is_candidate y \<longrightarrow> folder_score env (fst y) \<le> score" by blast
    then show ?thesis
      using fd by (intro disjI2 exI [of _ "fd # pre"] exI [of _ x] exI [of _ post]) auto
  qed
qed simp

lemma search_inf_Some:
  "search_inf env xs = Some p \<Longrightarrow> \<exists>n d found. (n, d) \<in> set xs \<and> os_find env (snprintf 512 (d @ BACKSLASH @ n)) = Some found \<and>
     p = os_full_path env (d @ BACKSLASH @ found)"
proof (induction xs)
  case (Cons x xs)
  obtain n d where x: "x = (n, d)" by (cases x)
  show ?case
  proof (cases "os_find env (snprintf 512 (d @ BACKSLASH @ n))")
    case None
    then have "search_inf env xs = Some p" using Cons.prems x by simp
    from Cons.IH [OF this] show ?thesis by (metis list.set_intros(2))
  next
    case (Some found)
    then have "p = os_full_path env (d @ BACKSLASH @ found)" using Cons.prems x by simp
    then show ?thesis using Some x by (metis list.set_intros(1))
  qed
qed simp

text \<open>
  The driver file comes from the first folder of the listing with the highest score, in its
  subdirectory \<open>amd64\<close> or in the folder itself.
\<close>

theorem driver_find_inf_best:
  assumes "driver_find_inf env dir drv = Some path"
  shows "\<exists>pre folder post d found. os_dir env (snprintf 512 (dir @ BACKSLASH @ ''*'')) = Some (pre @ (folder, True) # post) \<and>
    (\<forall>x \<in> set pre. is_candidate x \<longrightarrow> folder_score env (fst x) < folder_score env folder) \<and>
    (\<forall>x \<in> set post. is_candidate x \<longrightarrow> folder_score env (fst x) \<le> folder_score env folder) \<and>
    d \<in> {snprintf 512 (dir @ BACKSLASH @ folder @ BACKSLASH @ ''amd64''), snprintf 512 (dir @ BACKSLASH @ folder)} \<and>
    (\<exists>n \<in> set (inf_names drv). os_find env (snprintf 512 (d @ BACKSLASH @ n)) = Some found) \<and>
    path = os_full_path env (d @ BACKSLASH @ found)"
proof -
  obtain fds score folder where f: "os_dir env (snprintf 512 (dir @ BACKSLASH @ ''*'')) = Some fds"
    "best_folder env fds (-1, []) = (score, folder)" "folder \<noteq> []"
    using assms by (cases "os_dir env (snprintf 512 (dir @ BACKSLASH @ ''*''))")
      (auto simp: driver_find_inf_def Let_def split: if_splits, metis surj_pair snd_conv)
  let ?dirs = "[snprintf 512 (dir @ BACKSLASH @ folder @ BACKSLASH @ ''amd64''), snprintf 512 (dir @ BACKSLASH @ folder)]"
  have "search_inf env (concat (map (\<lambda>n. map (\<lambda>d. (n, d)) ?dirs) (inf_names drv))) = Some path"
    using assms f by (simp add: driver_find_inf_def Let_def)
  from search_inf_Some [OF this] obtain n d found where s: "n \<in> set (inf_names drv)" "d \<in> set ?dirs"
    "os_find env (snprintf 512 (d @ BACKSLASH @ n)) = Some found" "path = os_full_path env (d @ BACKSLASH @ found)" by auto
  obtain pre fd post where b: "fds = pre @ fd # post" "is_candidate fd" "folder = fst fd" "score = folder_score env folder"
    "\<forall>x \<in> set pre. is_candidate x \<longrightarrow> folder_score env (fst x) < score"
    "\<forall>x \<in> set post. is_candidate x \<longrightarrow> folder_score env (fst x) \<le> score"
    using best_folder_max [OF f(2)] f(3) by auto
  have "fd = (folder, True)" using b(2,3) by (cases fd) (simp add: is_candidate_def)
  then show ?thesis
    using f(1) b s by (intro exI [of _ pre] exI [of _ folder] exI [of _ post] exI [of _ d] exI [of _ found]) auto
qed

section \<open>What the results say\<close>

lemma probe_range: "fst (driver_inject_probe env hwid w) \<in> {0, 1}"
  by (auto simp: driver_inject_probe_def split: option.split prod.split)

lemma inject_one_result:
  assumes "inject_one env dir d w = (ok, r, w')"
  shows "(dr_name r, dr_hwid r) = d \<and> ok = (dr_installed r \<or> dr_just_installed r) \<and> ok = (dr_error r = [])"
proof -
  obtain name hwid where d: "d = (name, hwid)" by (cases d)
  obtain p1 w1 where p1: "driver_inject_probe env (Some hwid) w = (p1, w1)" "p1 = 0 \<or> p1 = 1"
    using probe_range [of env "Some hwid" w] by (cases "driver_inject_probe env (Some hwid) w") auto
  have "snprintf 256 (''cannot find INF for '' @ name) \<noteq> []" by (simp add: snprintf_def)
  then show ?thesis
    using assms p1 by (auto simp: inject_one_def d Let_def split: option.splits prod.splits if_splits)
qed

lemma each_driver_results:
  assumes "\<And>d w ok r w'. f d w = (ok, r, w') \<Longrightarrow> (dr_name r, dr_hwid r) = d \<and> ok = P r" "each_driver f ds w = (all_ok, rs, w')"
  shows "map (\<lambda>r. (dr_name r, dr_hwid r)) rs = ds \<and> all_ok = (\<forall>r \<in> set rs. P r)"
  using assms(2)
proof (induction ds arbitrary: w all_ok rs w')
  case (Cons d ds)
  obtain ok r w1 where f: "f d w = (ok, r, w1)" by (metis prod_cases3)
  obtain ok2 rs2 w2 where e: "each_driver f ds w1 = (ok2, rs2, w2)" by (metis prod_cases3)
  then have "all_ok = (ok \<and> ok2)" "rs = r # rs2" using Cons.prems f by auto
  then show ?case using assms(1) [OF f] Cons.IH [OF e] by auto
qed auto

text \<open>
  C38: What the result of a driver installation means.  \<open>driver_inject_virtio\<close> reports the three drivers
  in order, and returns 0 exactly when each of them was found installed or was installed now, that
  is when none carries an error.  The second probe after an installation does not count: 0 is also
  returned when a driver that has just been installed is not found.
\<close>
theorem driver_inject_result:
  assumes "driver_inject_virtio env dir w = (rc, results, w')"
  shows "map (\<lambda>r. (dr_name r, dr_hwid r)) results = virtio_drivers \<and>
    (rc = 0 \<longleftrightarrow> (\<forall>r \<in> set results. dr_installed r \<or> dr_just_installed r)) \<and>
    (rc = 0 \<longleftrightarrow> (\<forall>r \<in> set results. dr_error r = [])) \<and> (rc = 0 \<or> rc = -1)"
proof -
  obtain ok rs w1 where e: "each_driver (inject_one env dir) virtio_drivers w = (ok, rs, w1)" by (metis prod_cases3)
  then have r: "rc = (if ok then 0 else -1)" "results = rs" using assms by (auto simp: driver_inject_virtio_def)
  have "(dr_name r, dr_hwid r) = d \<and> ok = (dr_installed r \<or> dr_just_installed r)"
    "(dr_name r, dr_hwid r) = d \<and> ok = (dr_error r = [])"
    if "inject_one env dir d w = (ok, r, w')" for d w ok r w'
    using inject_one_result [OF that] by argo+
  note one = this
  have "map (\<lambda>r. (dr_name r, dr_hwid r)) rs = virtio_drivers \<and> ok = (\<forall>r \<in> set rs. dr_installed r \<or> dr_just_installed r)"
    using each_driver_results [OF one(1) e] .
  moreover have "map (\<lambda>r. (dr_name r, dr_hwid r)) rs = virtio_drivers \<and> ok = (\<forall>r \<in> set rs. dr_error r = [])"
    using each_driver_results [OF one(2) e] .
  ultimately show ?thesis using r by (simp split: if_splits)
qed

text \<open>A machine on which the installation succeeds and the search finds nothing.\<close>

definition sample_os :: "unit os_env" where
  "sample_os = \<lparr>os_version = Some (10, 0), os_exists = \<lambda>_. True, os_search_path = None, os_full_path = \<lambda>p. p,
     os_dir = \<lambda>_. Some [(''w10'', True)], os_find = \<lambda>_. Some ''a.inf'', os_pipe = True,
     os_devcon = \<lambda>cmd w. Some (0, [], w)\<rparr>"

lemma sample_probe: "driver_inject_probe sample_os (Some hwid) w = (0, w)"
  by (simp add: driver_inject_probe_def devcon_run_def find_devcon_def sample_os_def trim_newlines_def)

lemma sample_install: "driver_inject_install sample_os path hwid w = (0, False, w)"
  by (simp add: driver_inject_install_def devcon_run_def find_devcon_def sample_os_def)

lemma sample_inf: "\<exists>p. driver_find_inf sample_os dir name = Some p"
  by (simp add: driver_find_inf_def sample_os_def is_candidate_def folder_score_def inf_names_def)

theorem driver_inject_result_witness:
  "\<exists>results. driver_inject_virtio sample_os ''drivers'' () = (0, results, ()) \<and>
     (\<forall>r \<in> set results. dr_error r = [] \<and> \<not> dr_installed r)"
proof -
  have one: "inject_one sample_os ''drivers'' d () = (True, \<lparr>dr_name = fst d, dr_hwid = snd d, dr_installed = False,
      dr_just_installed = True, dr_reboot_required = False, dr_error = []\<rparr>, ())" for d
    using sample_inf [of "snprintf 512 (''drivers'' @ BACKSLASH @ fst d @ BACKSLASH @ ''Install'')" "fst d"]
    by (cases d) (auto simp: inject_one_def sample_probe sample_install)
  have run: "driver_inject_virtio sample_os ''drivers'' () = (0, map (\<lambda>d. \<lparr>dr_name = fst d, dr_hwid = snd d, dr_installed = False,
      dr_just_installed = True, dr_reboot_required = False, dr_error = []\<rparr>) virtio_drivers, ())"
    by (simp add: driver_inject_virtio_def virtio_drivers_def one)
  show ?thesis using driver_inject_result [OF run] unfolding run by simp
qed


end
