(* ===== verification/Syschk.thy ===== *)
theory Syschk
  imports Driver_Inject Disk_Io
begin

text \<open>
  The environment check before a migration, \<^verbatim>\<open>client/syschk.c\<close> (the Windows part).  Every check
  turns an answer of the operating system, the record \<open>sys_answers\<close>, into a severity; the texts of
  the messages are left out.  \<open>system_check_run\<close> collects the items and counts them.
\<close>

datatype severity = SYSCHK_PASS | SYSCHK_WARN | SYSCHK_FAIL | SYSCHK_INFO

definition SYSCHK_MAX_CHECKS :: nat where "SYSCHK_MAX_CHECKS = 16"

record syschk_item_t =
  it_label :: string
  it_severity :: severity

record syschk_result_t =
  sr_items :: "syschk_item_t list"
  sr_pass_count :: nat
  sr_warn_count :: nat
  sr_fail_count :: nat

datatype service_state = Running | StartPending | Stopped | OtherState

datatype service_answer = NoManager | NoService | NoStatus | ServiceState service_state

datatype firmware = FirmwareUnknown | FirmwareBios | FirmwareUefi | FirmwareOther

record sys_answers =
  sa_admin :: bool
  sa_version :: "(nat \<times> nat) option"
  sa_vss :: service_answer
  sa_volumes :: "int \<times> volume_info_t list"
  sa_open :: "string \<Rightarrow> block_reader option"
  sa_free_bytes :: "u64 option"
  sa_firmware :: "firmware option"
  sa_uefi_device :: bool
  sa_not_found :: bool

definition check_admin_rights :: "sys_answers \<Rightarrow> severity" where
  "check_admin_rights a = (if sa_admin a then SYSCHK_PASS else SYSCHK_FAIL)"

definition check_windows_version :: "sys_answers \<Rightarrow> severity" where
  "check_windows_version a =
     (case sa_version a of
        None \<Rightarrow> SYSCHK_WARN
      | Some (major, minor) \<Rightarrow>
          if major \<ge> 10 then SYSCHK_PASS
          else if major = 6 \<and> minor \<ge> 1 then SYSCHK_PASS
          else SYSCHK_FAIL)"

definition check_vss_service :: "sys_answers \<Rightarrow> severity" where
  "check_vss_service a =
     (case sa_vss a of
        NoManager \<Rightarrow> SYSCHK_WARN
      | NoService \<Rightarrow> SYSCHK_FAIL
      | NoStatus \<Rightarrow> SYSCHK_FAIL
      | ServiceState st \<Rightarrow>
          (case st of
             Running \<Rightarrow> SYSCHK_PASS
           | StartPending \<Rightarrow> SYSCHK_WARN
           | Stopped \<Rightarrow> SYSCHK_PASS
           | OtherState \<Rightarrow> SYSCHK_WARN))"

definition check_disks :: "sys_answers \<Rightarrow> severity" where
  "check_disks a =
     (let (rc, vols) = sa_volumes a in
      if rc \<noteq> 0 \<or> length vols = 0 then SYSCHK_FAIL
      else
        let accessible = length (filter (\<lambda>v. sa_open a (vi_disk_path v) \<noteq> None) vols);
            inaccessible = length vols - accessible
        in if inaccessible = 0 then SYSCHK_PASS
           else if accessible > 0 then SYSCHK_WARN
           else SYSCHK_FAIL)"

definition check_disk_space :: "sys_answers \<Rightarrow> severity" where
  "check_disk_space a =
     (case sa_free_bytes a of
        None \<Rightarrow> SYSCHK_WARN
      | Some free_bytes \<Rightarrow>
          let free_gb = free_bytes div (1024 * 1024 * 1024)
          in if free_gb \<ge> 2 then SYSCHK_PASS
             else if free_gb \<ge> 1 then SYSCHK_WARN
             else SYSCHK_FAIL)"

text \<open>\<open>sa_firmware\<close> is \<open>None\<close> where \<open>GetFirmwareType\<close> is missing or fails.\<close>

definition check_bios_mode :: "sys_answers \<Rightarrow> severity" where
  "check_bios_mode a =
     (if sa_firmware a = Some FirmwareUefi then SYSCHK_PASS
      else if sa_firmware a = Some FirmwareBios then SYSCHK_PASS
      else if sa_uefi_device a then SYSCHK_PASS
      else if sa_not_found a then SYSCHK_PASS
      else SYSCHK_WARN)"

definition check_virtio_drivers :: "'w os_env \<Rightarrow> string option \<Rightarrow> 'w \<Rightarrow> severity \<times> 'w" where
  "check_virtio_drivers env driver_dir w =
     (case driver_dir of
        None \<Rightarrow> (SYSCHK_INFO, w)
      | Some _ \<Rightarrow>
          (case driver_check_virtio env w of (rc, results, w) \<Rightarrow>
             let missing = filter (\<lambda>r. \<not> dr_installed r) results;
                 missing_qxldod = (\<exists>r \<in> set missing. dr_name r = ''qxldod'');
                 missing_critical = (\<exists>r \<in> set missing. dr_name r \<noteq> ''qxldod'');
                 installed = length (filter dr_installed results)
             in (if installed = 3 then SYSCHK_PASS
                 else if missing_critical \<and> missing_qxldod then SYSCHK_FAIL
                 else if missing_critical then SYSCHK_FAIL
                 else SYSCHK_WARN, w)))"

text \<open>\<open>check_network\<close>: the socket, the result of \<open>select\<close> after the connect, and \<open>SO_ERROR\<close>.\<close>

definition check_network :: "string option \<Rightarrow> bool \<Rightarrow> bool \<Rightarrow> int \<Rightarrow> int \<Rightarrow> severity" where
  "check_network server_ip winsock socket_ok sel_rc so_error =
     (case server_ip of
        None \<Rightarrow> SYSCHK_INFO
      | Some _ \<Rightarrow>
          if \<not> winsock then SYSCHK_FAIL
          else if \<not> socket_ok then SYSCHK_FAIL
          else if sel_rc > 0 then (if so_error = 0 then SYSCHK_PASS else SYSCHK_FAIL)
          else SYSCHK_FAIL)"

fun tally :: "syschk_item_t list \<Rightarrow> int \<times> syschk_result_t \<Rightarrow> int \<times> syschk_result_t" where
  "tally [] res = res"
| "tally (it # items) (rc, r) =
     tally items
       (case it_severity it of
          SYSCHK_PASS \<Rightarrow> (rc, r\<lparr>sr_pass_count := sr_pass_count r + 1\<rparr>)
        | SYSCHK_WARN \<Rightarrow> (rc, r\<lparr>sr_warn_count := sr_warn_count r + 1\<rparr>)
        | SYSCHK_FAIL \<Rightarrow> (-1, r\<lparr>sr_fail_count := sr_fail_count r + 1\<rparr>)
        | SYSCHK_INFO \<Rightarrow> (rc, r))"

text \<open>The items in their order, the drivers only with a directory.\<close>

definition run_checks :: "sys_answers \<Rightarrow> 'w os_env \<Rightarrow> string option \<Rightarrow> 'w \<Rightarrow> syschk_item_t list \<times> 'w" where
  "run_checks a env driver_dir w =
     (let items =
        [\<lparr>it_label = ''Admin rights'', it_severity = check_admin_rights a\<rparr>,
         \<lparr>it_label = ''OS version'', it_severity = check_windows_version a\<rparr>,
         \<lparr>it_label = ''VSS service'', it_severity = check_vss_service a\<rparr>,
         \<lparr>it_label = ''Disk access'', it_severity = check_disks a\<rparr>,
         \<lparr>it_label = ''Disk space'', it_severity = check_disk_space a\<rparr>,
         \<lparr>it_label = ''BIOS mode'', it_severity = check_bios_mode a\<rparr>]
      in if driver_dir \<noteq> None then
           (case check_virtio_drivers env driver_dir w of (sev, w) \<Rightarrow>
              (items @ [\<lparr>it_label = ''VirtIO drivers'', it_severity = sev\<rparr>], w))
         else (items, w))"

definition system_check_run :: "sys_answers \<Rightarrow> 'w os_env \<Rightarrow> string option \<Rightarrow> 'w \<Rightarrow> int \<times> syschk_result_t \<times> 'w" where
  "system_check_run a env driver_dir w =
     (let (items, w) = run_checks a env driver_dir w;
          (rc, r) = tally items (0, \<lparr>sr_items = items, sr_pass_count = 0, sr_warn_count = 0, sr_fail_count = 0\<rparr>)
      in (rc, r, w))"

text \<open>
  The report.  \<open>message i\<close> is the text of item \<open>i\<close>; a string \<open>%-18s\<close> is filled up with spaces.  What is printed is
  returned as one string per line; setting the console's code page has no part in it.
\<close>

definition severity_icon :: "severity \<Rightarrow> string" where
  "severity_icon v =
     (case v of SYSCHK_PASS \<Rightarrow> ''[PASS]'' | SYSCHK_WARN \<Rightarrow> ''[WARN]'' | SYSCHK_FAIL \<Rightarrow> ''[FAIL]'' | SYSCHK_INFO \<Rightarrow> ''[INFO]'')"

definition pad_right :: "nat \<Rightarrow> string \<Rightarrow> string" where
  "pad_right n s = s @ replicate (n - length s) (CHR '' '')"

definition report_verdict :: "syschk_result_t \<Rightarrow> string" where
  "report_verdict r =
     (if sr_fail_count r > 0 then ''  FAIL -- '' @ fmt_d (int (sr_fail_count r)) @ '' check(s) failed. Fix issues above before migration.''
      else if sr_warn_count r > 0 then ''  WARN -- '' @ fmt_d (int (sr_warn_count r)) @ '' warning(s). Review before proceeding.''
      else ''  ALL PASS -- system is ready for migration.'')"

definition report_item :: "(nat \<Rightarrow> string) \<Rightarrow> syschk_result_t \<Rightarrow> nat \<Rightarrow> string" where
  "report_item message r i =
     (let it = sr_items r ! i in ''  '' @ severity_icon (it_severity it) @ '' '' @ pad_right 18 (it_label it) @ '' '' @ message i)"

definition system_check_print :: "(nat \<Rightarrow> string) \<Rightarrow> syschk_result_t option \<Rightarrow> string list" where
  "system_check_print message result =
     (case result of
        None \<Rightarrow> []
      | Some r \<Rightarrow>
          [[], ''  System Environment Check'', ''  ========================'', []] @
          map (report_item message r) [0..<length (sr_items r)] @
          [[], ''  Summary: '' @ fmt_d (int (sr_pass_count r)) @ '' pass, '' @ fmt_d (int (sr_warn_count r)) @ '' warn, '' @
             fmt_d (int (sr_fail_count r)) @ '' fail'',
           [], report_verdict r, []])"

section \<open>The commands\<close>

text \<open>An empty argument stands for the default directory.\<close>

definition driver_dir_of :: "string option \<Rightarrow> string" where
  "driver_dir_of arg = (case arg of Some d \<Rightarrow> if d \<noteq> [] then d else ''drivers'' | None \<Rightarrow> ''drivers'')"

definition cmd_checkenv :: "sys_answers \<Rightarrow> 'w os_env \<Rightarrow> string option \<Rightarrow> 'w \<Rightarrow> int \<times> 'w" where
  "cmd_checkenv a env arg w =
     (case system_check_run a env (Some (driver_dir_of arg)) w of (rc, r, w) \<Rightarrow> (rc, w))"

definition cmd_inject_driver :: "'w os_env \<Rightarrow> string option \<Rightarrow> 'w \<Rightarrow> int \<times> 'w" where
  "cmd_inject_driver env arg w =
     (case driver_inject_virtio env (driver_dir_of arg) w of (rc, results, w) \<Rightarrow> (if rc = 0 then 0 else 1, w))"

definition cmd_check_drivers :: "'w os_env \<Rightarrow> string option \<Rightarrow> 'w \<Rightarrow> int \<times> 'w" where
  "cmd_check_drivers env arg w =
     (case driver_check_virtio env w of (rc, results, w) \<Rightarrow> (rc, w))"

text \<open>The firmware as \<open>cmd_isbios\<close> prints it; \<open>probe_ok\<close>: the probe of a UEFI variable does not end in
  \<open>ERROR_INVALID_FUNCTION\<close>.\<close>

definition cmd_isbios :: "firmware option \<Rightarrow> bool \<Rightarrow> string" where
  "cmd_isbios ft probe_ok =
     (let is_uefi =
        (case ft of
           Some FirmwareUefi \<Rightarrow> True
         | Some FirmwareBios \<Rightarrow> False
         | Some FirmwareOther \<Rightarrow> False
         | _ \<Rightarrow> probe_ok)
      in if is_uefi then ''UEFI'' else ''Legacy'')"

section \<open>The verdict\<close>

definition count_of :: "severity \<Rightarrow> syschk_item_t list \<Rightarrow> nat" where
  "count_of v items = length (filter (\<lambda>it. it_severity it = v) items)"

lemma tally_counts:
  "tally items (rc, r) =
     (if \<exists>it \<in> set items. it_severity it = SYSCHK_FAIL then -1 else rc,
      r\<lparr>sr_pass_count := sr_pass_count r + count_of SYSCHK_PASS items, sr_warn_count := sr_warn_count r + count_of SYSCHK_WARN items,
        sr_fail_count := sr_fail_count r + count_of SYSCHK_FAIL items\<rparr>)"
  by (induction items arbitrary: rc r) (auto simp: count_of_def split: severity.split)

lemma count_of_sum: "count_of SYSCHK_PASS items + count_of SYSCHK_WARN items + count_of SYSCHK_FAIL items + count_of SYSCHK_INFO items = length items"
proof (induction items)
  case (Cons it items)
  then show ?case by (cases "it_severity it") (simp_all add: count_of_def)
qed (simp add: count_of_def)

lemma system_check_counts:
  assumes "system_check_run a env driver_dir w = (rc, r, w')"
  shows "rc = (if \<exists>it \<in> set (sr_items r). it_severity it = SYSCHK_FAIL then -1 else 0)"
    and "sr_pass_count r = count_of SYSCHK_PASS (sr_items r)" and "sr_warn_count r = count_of SYSCHK_WARN (sr_items r)"
    and "sr_fail_count r = count_of SYSCHK_FAIL (sr_items r)" and "length (sr_items r) = (if driver_dir = None then 6 else 7)"
proof -
  obtain items w1 where c: "run_checks a env driver_dir w = (items, w1)" by (metis surj_pair)
  then have len: "length items = (if driver_dir = None then 6 else 7)"
    by (auto simp: run_checks_def Let_def split: if_splits prod.splits)
  have r: "(rc, r) = tally items (0, \<lparr>sr_items = items, sr_pass_count = 0, sr_warn_count = 0, sr_fail_count = 0\<rparr>)"
    using assms by (simp add: system_check_run_def c split: prod.splits)
  show "rc = (if \<exists>it \<in> set (sr_items r). it_severity it = SYSCHK_FAIL then -1 else 0)"
    "sr_pass_count r = count_of SYSCHK_PASS (sr_items r)" "sr_warn_count r = count_of SYSCHK_WARN (sr_items r)"
    "sr_fail_count r = count_of SYSCHK_FAIL (sr_items r)" "length (sr_items r) = (if driver_dir = None then 6 else 7)"
    using r len unfolding tally_counts by simp_all
qed

lemma severity_not_bad: "v \<in> {SYSCHK_PASS, SYSCHK_INFO} \<longleftrightarrow> v \<noteq> SYSCHK_FAIL \<and> v \<noteq> SYSCHK_WARN"
  by (cases v) simp_all

text \<open>
  The result of the environment check: it fails exactly when one of its items does, the counts are
  the numbers of items of each severity, and the items fit the array.
\<close>

theorem system_check_verdict:
  assumes "system_check_run a env driver_dir w = (rc, r, w')"
  shows "rc = (if \<exists>it \<in> set (sr_items r). it_severity it = SYSCHK_FAIL then -1 else 0) \<and>
    sr_fail_count r = count_of SYSCHK_FAIL (sr_items r) \<and>
    sr_pass_count r + sr_warn_count r + sr_fail_count r + count_of SYSCHK_INFO (sr_items r) = length (sr_items r) \<and>
    length (sr_items r) = (if driver_dir = None then 6 else 7) \<and> length (sr_items r) \<le> SYSCHK_MAX_CHECKS"
  using count_of_sum [of "sr_items r"] by (simp add: system_check_counts [OF assms] SYSCHK_MAX_CHECKS_def)

text \<open>
  The report agrees with the exit code of \<open>checkenv\<close>: its last line of text says FAIL exactly when the check
  fails, and ALL PASS exactly when there is neither a failure nor a warning; it has one line for every item.
\<close>

theorem report_agrees:
  fixes message :: "nat \<Rightarrow> string"
  assumes "system_check_run a env driver_dir w = (rc, r, w')"
  defines "out \<equiv> system_check_print message (Some r)"
  shows "(take 6 (out ! (length out - 2)) = ''  FAIL'' \<longleftrightarrow> rc \<noteq> 0) \<and>
    (take 10 (out ! (length out - 2)) = ''  ALL PASS'' \<longleftrightarrow> (\<forall>it \<in> set (sr_items r). it_severity it \<in> {SYSCHK_PASS, SYSCHK_INFO})) \<and>
    length out = length (sr_items r) + 9"
proof -
  have last: "out ! (length out - 2) = report_verdict r" and len: "length out = length (sr_items r) + 9"
    by (simp_all add: out_def system_check_print_def nth_append)
  have fail: "rc \<noteq> 0 \<longleftrightarrow> sr_fail_count r > 0"
    and warn: "sr_fail_count r = 0 \<and> sr_warn_count r = 0 \<longleftrightarrow> (\<forall>it \<in> set (sr_items r). it_severity it \<in> {SYSCHK_PASS, SYSCHK_INFO})"
    using system_check_counts(1,3,4) [OF assms(1)] unfolding severity_not_bad by (auto simp: count_of_def filter_empty_conv)
  show ?thesis unfolding last fail warn [symmetric] using len by (simp add: report_verdict_def)
qed

end
