(* ===== verification/Snapshots.thy ===== *)
theory Snapshots
  imports Migrate
begin

text \<open>
  The snapshot module and the migration together: what \<open>do_migrate\<close> enters into its list of volumes comes from
  the shadow copy service.
\<close>

text \<open>The volume \<open>v'\<close> is \<open>v\<close>, or \<open>v\<close> read through a snapshot of the volume with its name.\<close>

definition snapshot_entered :: "vss_snapshot_t set \<Rightarrow> volume_info_t \<Rightarrow> volume_info_t \<Rightarrow> bool" where
  "snapshot_entered S v v' \<longleftrightarrow> v' = v \<or>
     (\<exists>sn \<in> S. strip_backslash (sn_original_volume sn) = vi_name v \<and>
        v' = v\<lparr>vi_vss_path := take 511 (sn_snapshot_path sn), vi_has_vss := True\<rparr>)"

lemma entered_mono: "list_all2 (snapshot_entered S) vols vols' \<Longrightarrow> S \<subseteq> T \<Longrightarrow> list_all2 (snapshot_entered T) vols vols'"
  by (erule list_all2_mono) (auto simp: snapshot_entered_def)

lemma apply_snapshot_entered:
  assumes "list_all2 (snapshot_entered S) vols vols'"
  shows "list_all2 (snapshot_entered (insert sn S)) vols (apply_snapshot idx sn vols')"
proof -
  let ?name = "\<lambda>i. vi_name (vols' ! i) = strip_backslash (sn_original_volume sn)"
  have keep: "list_all2 (snapshot_entered (insert sn S)) vols vols'"
    using assms by (rule entered_mono) blast
  show ?thesis
  proof (cases "sn_valid sn \<and> find ?name idx \<noteq> None")
    case True
    then obtain i where i: "find ?name idx = Some i" by blast
    then have name: "?name i" by (auto simp: find_Some_iff)
    let ?v' = "(vols' ! i)\<lparr>vi_vss_path := take 511 (sn_snapshot_path sn), vi_has_vss := True\<rparr>"
    have "snapshot_entered (insert sn S) (vols ! i) ?v'" if "i < length vols"
      using list_all2_nthD [OF assms that] name by (auto simp: snapshot_entered_def)
    then have "list_all2 (snapshot_entered (insert sn S)) vols (vols'[i := ?v'])"
      using keep list_all2_update_cong [OF keep, of "vols ! i" ?v' i] list_all2_lengthD [OF assms]
      by (cases "i < length vols") (simp_all add: not_less list_update_beyond)
    then show ?thesis using True i by (simp add: apply_snapshot_def)
  qed (use keep in \<open>auto simp: apply_snapshot_def split: option.split\<close>)
qed

lemma apply_snapshots_entered:
  assumes "list_all2 (snapshot_entered S) vols vols'"
  shows "list_all2 (snapshot_entered (S \<union> set sns)) vols (fold (apply_snapshot idx) sns vols')"
  using assms
proof (induction sns arbitrary: S vols')
  case (Cons sn sns)
  from Cons.IH [OF apply_snapshot_entered [OF Cons.prems]] show ?case by simp
qed simp

context snapshot_source
begin

lemma snapshots_entered:
  assumes "take_snapshots (Some create) vols = Some vols'"
  shows "list_all2 (snapshot_entered {sn. genuine (map (\<lambda>i. vi_name (vols ! i)) (vss_indices vols)) sn}) vols vols'"
proof -
  let ?names = "map (\<lambda>i. vi_name (vols ! i)) (vss_indices vols)"
  obtain n snaps where c: "create ?names = (n, snaps)" by fastforce
  have vols': "vols' = fold (apply_snapshot (vss_indices vols)) (take (nat n) snaps) vols"
    using assms c by (auto simp: take_snapshots_def Let_def split: if_splits)
  have "list_all2 (snapshot_entered ({} \<union> set (take (nat n) snaps))) vols vols'"
    unfolding vols' by (rule apply_snapshots_entered) (simp add: list_all2_same snapshot_entered_def)
  then show ?thesis by (rule entered_mono) (use genuine_entries [OF c] in auto)
qed

end

text \<open>
  C15: The consistency of a backup rests on this: when the snapshots of a migration have been entered, the list has
  the same volumes, and a volume that is to be read through a snapshot is one whose name the service reported as the
  original volume of that snapshot, with the path it reported, after the snapshot set was completed with the writers
  prepared.  The other volumes are unchanged.
\<close>
theorem snapshot_of_own_volume:
  assumes "com_rules env" "take_snapshots (snapshot_service env []) vols = Some vols'"
  shows "\<exists>ctx t0 r t. run_state (vss_init env) [] = (Some ctx, t0) \<and>
    run_state (snapshot_run env ctx (map (\<lambda>i. vi_name (vols ! i)) (vss_indices vols))) t0 = (r, t) \<and>
    lifecycle t = Some (Taken True) \<and> list_all2 (snapshot_entered {sn. reported env t sn}) vols vols'"
proof -
  let ?names = "map (\<lambda>i. vi_name (vols ! i)) (vss_indices vols)"
  have src: "snapshot_service env [] = Some (create_names env [])"
    using assms(2) by (auto simp: take_snapshots_def create_names_def Let_def split: option.splits)
  obtain ctx t0 where init: "run_state (vss_init env) [] = (Some ctx, t0)"
    using src by (auto simp: snapshot_service_def split: prod.splits option.splits)
  obtain n out c t where run: "run_state (snapshot_run env ctx ?names) t0 = ((n, out, c), t)"
    by (metis surj_pair)
  have n: "0 < n"
    using assms(2) run init by (auto simp: take_snapshots_def snapshot_service_def Let_def split: if_splits)
  have ctx: "sees (\<lambda>r. net r []) session_resources (Ready (\<not> persistent ctx)) t0" "cx_initialized ctx" "\<not> persistent ctx"
    using wp_run [OF init_sees [OF assms(1)] init [unfolded vss_init_def]]
    by (auto simp: persistent_def VSS_CTX_BACKUP_def)
  have "lifecycle t = Some (Taken True)"
    using wp_run [OF create_sees [OF assms(1) ctx(1,2)] run [unfolded snapshot_run_def]] n ctx(3) by (auto simp: sees_def)
  moreover have "list_all2 (snapshot_entered {sn. reported env t sn}) vols vols'"
    using vs.snapshots_entered [OF assms(2) [unfolded src]] init run by (simp add: shown_def)
  ultimately show ?thesis using init run by blast
qed

definition sample_volume :: volume_info_t where
  "sample_volume = \<lparr>vi_devno = 1, vi_disk_path = ''D'', vi_vss_path = [], vi_name = ''C:'', vi_partition_offset = 0,
     vi_total_bytes = 1048576, vi_total_sectors = 2048, vi_block_count = 1, vi_writable = True, vi_has_vss = False, vi_part_index = 1\<rparr>"

theorem snapshot_of_own_volume_witness:
  "\<exists>vols' t. take_snapshots (snapshot_service sample_service []) [sample_volume] = Some vols' \<and> vi_has_vss (vols' ! 0) \<and>
     list_all2 (snapshot_entered {sn. reported sample_service t sn}) [sample_volume] vols'"
proof -
  have idx: "vss_indices [sample_volume] = [0]"
    by (simp add: vss_indices_def has_letter_def sample_volume_def VSS_MAX_VOLUMES_def)
  have fields: "narrow (widen ''C:'') = ''C:''" "length (widen ''C:'') = 2" "vi_name sample_volume = ''C:''"
    by (code_simp, simp_all add: widen_def sample_volume_def)
  obtain vols' where run: "take_snapshots (snapshot_service sample_service []) [sample_volume] = Some vols'" "vi_has_vss (vols' ! 0)"
    by (simp add: take_snapshots_def idx snapshot_service_def vss_init_def snapshot_run_def vss_create_snapshots_def
        take_snapshot_set_def await_async_def persistent_def VSS_MAX_VOLUMES_def VSS_CTX_BACKUP_def vss_run_simps props_retry_ok
        take_first_update apply_snapshot_def snapshot_of_def ansi_field_def fields strip_backslash_def)
  from snapshot_of_own_volume [OF sample_rules run(1)] run show ?thesis by blast
qed

end
