(* ===== verification/Hash_Tool.thy ===== *)
theory Hash_Tool
  imports Block_Hash Config "HOL-Library.While_Combinator"
begin

text \<open>
  The command line tool \<^verbatim>\<open>tools/hash_block.c\<close>, which computes the hash of a file, of a part of it or of
  its standard input.  The tool carries its own copy of the hash function and of its constants; \<open>tool_hash_block\<close>
  translates that copy, with the loop as a \<open>while\<close> over its local variables.

  The file system, the standard input, the success of an allocation of a given size and the contents of
  uninitialised memory are arguments of \<open>hash_tool\<close>; \<open>long\<close> has 64 bits.
\<close>

definition TOOL_MUL :: u64 where "TOOL_MUL = 0xc2b4d1b3d54d51c2"
definition TOOL_ROT :: u64 where "TOOL_ROT = 0x9e3779b586c04815"
definition TOOL_INIT_SHORT :: u64 where "TOOL_INIT_SHORT = 0x27d4eb2f165667c5"
definition TOOL_INIT_A :: u64 where "TOOL_INIT_A = 0x60ea27eeadc0b5d6"
definition TOOL_INIT_B :: u64 where "TOOL_INIT_B = 0x61c8864e7a143579"
definition TOOL_INIT_C :: u64 where "TOOL_INIT_C = 0xc2b2ae3d27d4eb4f"
definition TOOL_XOR_CONST :: u64 where "TOOL_XOR_CONST = 0x85ebca77c2b2ae63"

lemmas tool_constants = TOOL_MUL_def TOOL_ROT_def TOOL_INIT_SHORT_def TOOL_INIT_A_def TOOL_INIT_B_def TOOL_INIT_C_def TOOL_XOR_CONST_def
lemmas hash_constants = HASH_MUL_def HASH_ROT_def HASH_INIT_SHORT_def HASH_INIT_A_def HASH_INIT_B_def HASH_INIT_C_def HASH_XOR_CONST_def

definition tool_fmix64 :: "u64 \<Rightarrow> u64" where
  "tool_fmix64 h =
     (let h = h XOR drop_bit 33 h;
          h = h * 0xff51afd7ed558ccd;
          h = h XOR drop_bit 33 h;
          h = h * 0xc4ceb9fe1a85ec53
      in h XOR drop_bit 33 h)"

record tool_locals =
  t_p :: nat
  t_hash :: u64
  t_state_b :: u64
  t_state_c :: u64
  t_state_d :: u64

definition tool_body :: "bytes \<Rightarrow> tool_locals \<Rightarrow> tool_locals" where
  "tool_body data s =
     (let h = t_hash s + word64_at data (t_p s) * TOOL_MUL;
          b = t_state_b s + word64_at data (t_p s + 1) * TOOL_MUL;
          c = t_state_c s + word64_at data (t_p s + 2) * TOOL_MUL;
          d = t_state_d s + word64_at data (t_p s + 3) * TOOL_MUL
      in \<lparr>t_p = t_p s + 4,
          t_hash = (push_bit 31 h OR drop_bit 33 h) * TOOL_ROT, t_state_b = (push_bit 31 b OR drop_bit 33 b) * TOOL_ROT,
          t_state_c = (push_bit 31 c OR drop_bit 33 c) * TOOL_ROT, t_state_d = (push_bit 31 d OR drop_bit 33 d) * TOOL_ROT\<rparr>)"

definition tool_hash_block :: "bytes \<Rightarrow> nat \<Rightarrow> u64 \<Rightarrow> u64" where
  "tool_hash_block data len seed =
     (if len < 32 then of_nat len + TOOL_INIT_SHORT + seed
      else
        let last = len div 8 - (if len mod 8 = 0 then 4 else 0);
            s = while (\<lambda>s. t_p s + 3 < last) (tool_body data)
                  \<lparr>t_p = 0, t_hash = seed + TOOL_INIT_A, t_state_b = seed + TOOL_INIT_B, t_state_c = seed + TOOL_INIT_C, t_state_d = seed\<rparr>;
            result = fold (\<lambda>x r. (r XOR tool_fmix64 x) * TOOL_ROT + TOOL_XOR_CONST)
                       [t_hash s, t_state_b s, t_state_c s, t_state_d s] TOOL_XOR_CONST
        in result + of_nat len)"

section \<open>The command\<close>

text \<open>The outcomes: an exit with code 1 before anything is hashed, or the line printed (hash, offset, size, seed).\<close>

datatype tool_outcome = Usage | NoFile | PastEnd | NoMemory | Printed u64 int int u64

text \<open>Reading the standard input: \<open>n\<close> bytes are in the buffer, \<open>rest\<close> is still to come.  \<open>None\<close> is the crash after a
  failed allocation, whose result is not tested.\<close>

function read_stdin :: "(nat \<Rightarrow> bool) \<Rightarrow> nat \<Rightarrow> bytes \<Rightarrow> bytes \<Rightarrow> bytes option" where
  "read_stdin alloc cap buf rest =
     (let cap' = (if cap \<le> length buf then 2 * cap else cap) in
      if cap \<le> length buf \<and> \<not> alloc cap' then None
      else
        let n = min (cap' - length buf) (length rest)
        in if n = 0 then Some buf
           else read_stdin alloc cap' (buf @ take n rest) (drop n rest))"
  by pat_completeness auto
termination
  by (relation "measure (\<lambda>(alloc, cap, buf, rest). length rest)") (auto simp: Let_def)

declare read_stdin.simps [simp del]

text \<open>The bytes in the buffer after \<open>fseek\<close> and \<open>fread\<close>: a seek before the start fails and leaves the position at the end
  of the file; what is not read keeps the contents of the memory.\<close>

definition read_part :: "(nat \<Rightarrow> byte) \<Rightarrow> bytes \<Rightarrow> int \<Rightarrow> nat \<Rightarrow> bytes" where
  "read_part mem contents offset n =
     (let got = (if offset < 0 then [] else take n (drop (nat offset) contents))
      in got @ map mem [length got..<n])"

definition hash_tool ::
  "(string \<Rightarrow> bytes option) \<Rightarrow> bytes \<Rightarrow> (nat \<Rightarrow> bool) \<Rightarrow> (nat \<Rightarrow> byte) \<Rightarrow> string list \<Rightarrow> (int \<times> tool_outcome) option" where
  "hash_tool fs input alloc mem argv =
     (if length argv < 2 then Some (1, Usage)
      else if argv ! 1 = ''-'' then
        (if \<not> alloc (2 ^ 20) then None
         else case read_stdin alloc (2 ^ 20) [] input of
           None \<Rightarrow> None
         | Some buf \<Rightarrow>
             let seed = (if length argv \<ge> 3 then of_int (atoi (last argv)) else 0)
             in Some (0, Printed (tool_hash_block buf (length buf) seed) 0 (int (length buf)) seed))
      else case fs (argv ! 1) of
        None \<Rightarrow> Some (1, NoFile)
      | Some contents \<Rightarrow>
          let (offset, size) =
                (if length argv \<ge> 4 then (atoi (argv ! 2), atoi (argv ! 3)) else (0, int (length contents)));
              seed = (if length argv \<ge> 5 then of_int (atoi (argv ! 4)) else 0)
          in if length argv \<ge> 4 \<and> offset + size > int (length contents) then Some (1, PastEnd)
             else if size < 0 \<or> \<not> alloc (nat size) then Some (1, NoMemory)
             else
               let buf = read_part mem contents offset (nat size)
               in Some (0, Printed (tool_hash_block buf (length buf) seed) offset size seed))"

section \<open>The tool's hash is the client's\<close>

lemma tool_loop:
  "while (\<lambda>s. t_p s + 3 < lim) (tool_body data) \<lparr>t_p = p, t_hash = h, t_state_b = b, t_state_c = c, t_state_d = d\<rparr> =
     (case hash_loop data lim p (h, b, c, d) of (h, b, c, d) \<Rightarrow>
        \<lparr>t_p = p + 4 * ((lim - p) div 4), t_hash = h, t_state_b = b, t_state_c = c, t_state_d = d\<rparr>)"
proof (induction data lim p "(h, b, c, d)" arbitrary: h b c d rule: hash_loop.induct)
  case (1 data lim p h b c d)
  show ?case
  proof (cases "p + 3 < lim")
    case True
    have body: "tool_body data \<lparr>t_p = p, t_hash = h, t_state_b = b, t_state_c = c, t_state_d = d\<rparr> =
        \<lparr>t_p = p + 4, t_hash = lane_step (word64_at data p) h, t_state_b = lane_step (word64_at data (p + 1)) b,
         t_state_c = lane_step (word64_at data (p + 2)) c, t_state_d = lane_step (word64_at data (p + 3)) d\<rparr>"
      by (simp add: tool_body_def lane_step_def Let_def TOOL_MUL_def TOOL_ROT_def HASH_MUL_def HASH_ROT_def)
    have p: "p + 4 + 4 * ((lim - (p + 4)) div 4) = p + 4 * ((lim - p) div 4)"
      using True by (simp add: le_div_geq)
    show ?thesis
      using True 1 [OF True] p by (subst while_unfold) (simp add: body hash_loop.simps [of data lim p])
  qed (simp add: while_unfold hash_loop.simps [of data lim p])
qed

lemma tool_hash_eq: "tool_hash_block data len seed = hash_block data len seed"
proof (cases "len < 32")
  case False
  have fm: "tool_fmix64 = fmix64" by (simp add: fun_eq_iff tool_fmix64_def fmix64_def Let_def)
  show ?thesis using False
    by (simp add: tool_hash_block_def hash_block_def tool_loop hash_end_def hash_final_def Let_def fm tool_constants hash_constants
        split: prod.split)
qed (simp add: tool_hash_block_def hash_block_def tool_constants hash_constants)

text \<open>
  C20: The tool computes the same hash as the client: the copy of the function in the tool, with its own constants,
  agrees with \<open>hash_block\<close> of the client on every buffer, length and seed.
\<close>
theorem tool_hash_agrees: "tool_hash_block data len seed = hash_block data len seed"
  by (rule tool_hash_eq)

section \<open>What the tool prints\<close>

lemma read_stdin_all:
  assumes "\<forall>k. alloc k" "0 < cap" "length buf \<le> cap"
  shows "read_stdin alloc cap buf rest = Some (buf @ rest)"
  using assms
proof (induction alloc cap buf rest rule: read_stdin.induct)
  case (1 alloc cap buf rest)
  let ?cap = "if cap \<le> length buf then 2 * cap else cap"
  let ?n = "min (?cap - length buf) (length rest)"
  have al: "alloc k" for k using "1.prems"(1) by blast
  show ?case
  proof (cases "?n = 0")
    case True
    then have "rest = []" using "1.prems"(2,3) by (auto simp: min_def split: if_splits)
    then show ?thesis by (subst read_stdin.simps) (simp add: Let_def al)
  next
    case False
    have "read_stdin alloc ?cap (buf @ take ?n rest) (drop ?n rest) = Some ((buf @ take ?n rest) @ drop ?n rest)"
      by (rule "1.IH") (use False "1.prems"(2,3) al in auto)
    then show ?thesis using False by (subst read_stdin.simps) (simp add: Let_def al)
  qed
qed

lemma low_word: "of_int (int (k mod 2 ^ 32)) = (of_nat k AND 0xFFFFFFFF :: u64)"
proof -
  have "of_nat (take_bit 32 k) = (of_nat k AND mask 32 :: u64)"
    by (rule bit_word_eqI) (auto simp: bit_simps)
  then show ?thesis by (simp add: take_bit_eq_mod mask_eq_exp_minus_1)
qed

text \<open>
  The two documented ways to check a block of a disk image print the hash that the client records for the block
  (the hash of its bytes with the low 32 bits of the offset as seed): the tool called with the file, the offset and
  the size, and the tool reading the bytes of the block from its standard input.
\<close>
theorem hash_tool_checks_block:
  assumes "name \<noteq> ''-''" "fs name = Some contents" "off + n \<le> length contents" "\<forall>k. alloc k"
  shows "hash_tool fs input alloc mem [prog, name, fmt_d (int off), fmt_d (int n), fmt_d (int (off mod 2 ^ 32))] =
      Some (0, Printed (hash_block (take n (drop off contents)) n (of_nat off AND 0xFFFFFFFF)) (int off) (int n) (of_nat off AND 0xFFFFFFFF)) \<and>
    hash_tool fs (take n (drop off contents)) alloc mem [prog, ''-'', fmt_d (int (off mod 2 ^ 32))] =
      Some (0, Printed (hash_block (take n (drop off contents)) n (of_nat off AND 0xFFFFFFFF)) 0 (int n) (of_nat off AND 0xFFFFFFFF))"
proof -
  have int: "atoi (fmt_d i) = i" for i using atoi_fmt_d [of "[]" i] by simp
  have len: "length (take n (drop off contents)) = n" using assms(3) by simp
  have "read_part mem contents (int off) n = take n (drop off contents)"
    using assms(3) by (simp add: read_part_def)
  then show ?thesis
    using assms len low_word [of off] by (simp add: hash_tool_def tool_hash_eq int read_stdin_all Let_def)
qed

theorem hash_tool_checks_block_witness:
  "hash_tool (\<lambda>_. Some [1, 2, 3, 4, 5]) [] (\<lambda>_. True) (\<lambda>_. 0) [''hash_block'', ''disk'', ''1'', ''3'', ''1''] =
     Some (0, Printed (hash_block [2, 3, 4] 3 1) 1 3 1)"
proof -
  have "fmt_d (int 1) = ''1''" "fmt_d (int 3) = ''3''" by code_simp+
  then show ?thesis
    using hash_tool_checks_block [of "''disk''" "\<lambda>_. Some [1, 2, 3, 4, 5]" "[1, 2, 3, 4, 5]" 1 3 "\<lambda>_. True" "[]" "\<lambda>_. 0" "''hash_block''"]
    by simp
qed

end
