(* ===== verification/Spec2Isabelle.thy ===== *)
theory Spec2Isabelle
  imports End_To_End Receiver_Main Dry_Run Syschk Snapshots Hash_Tool
begin

text \<open>
  \<^bold>\<open>go2cloud\<close> moves the disks of a running Windows machine to a target, block by block.  This
  development models the client (\<^verbatim>\<open>src/client\<close>), the receiver (\<^verbatim>\<open>src/server\<close>) and the protocol
  between them (\<^verbatim>\<open>src/include/protocol.h\<close>), and proves what makes them correct, together with the
  places where the code does not do what it says.

  \<^bold>\<open>How the parts work together.\<close>  The client enumerates the partitions (\<^verbatim>\<open>volume.c\<close>), takes
  snapshots and reads them in blocks of 1 MB (\<^verbatim>\<open>block_io.c\<close>).  A block that the tracking
  database (\<^verbatim>\<open>sqlite.c\<close>) does not know as acknowledged is hashed (\<^verbatim>\<open>hash.c\<close>), encoded
  (\<^verbatim>\<open>msgpack.c\<close>), put into the ring buffer (\<^verbatim>\<open>queue.c\<close>) and recorded; draining the ring sends the
  encoded block, compressed and framed (\<^verbatim>\<open>wire.c\<close>), on a connection of the pool (\<^verbatim>\<open>pool.c\<close>).  The
  receiver's select loop (\<^verbatim>\<open>server/main.c\<close>, \<^verbatim>\<open>session.c\<close>) reassembles the frames
  (\<^verbatim>\<open>protocol_decoder.c\<close>), writes the blocks (\<^verbatim>\<open>block_writer.c\<close>) and answers each with a 20-byte
  response (\<^verbatim>\<open>ack.c\<close>), which makes the client mark the block.  In tail mode the client then runs
  rounds, driven by timers (\<^verbatim>\<open>timer.c\<close>), that compare the live disk with the recorded hashes and
  resend what has changed, until a decision procedure ends the session.

  \<^bold>\<open>Theories.\<close>
    \<^item> \<open>Prelude\<close>: byte strings, big- and little-endian conversions, fixed-size record streams
      (locale \<open>record_codec\<close>).  \<open>Protocol\<close>: constants and the packed \<open>server_response_t\<close>.
    \<^item> \<open>Block_Hash\<close> (\<^verbatim>\<open>client/hash.c\<close>): the hash as a fold over stripes; which changes it sees.
    \<^item> \<open>Msgpack_Enc\<close>, \<open>Wire\<close> (\<^verbatim>\<open>msgpack.c\<close>, \<^verbatim>\<open>wire.c\<close>): the growing buffer, the encoder against a
      reference encoding, framing and the send loop.
    \<^item> \<open>Send_Queue\<close> (\<^verbatim>\<open>queue.c\<close>): the ring buffer as an interpretation of the locale \<open>fifo\<close>.
      \<open>Timer\<close> (\<^verbatim>\<open>timer.c\<close>).  \<open>Conn_Pool\<close> (\<^verbatim>\<open>pool.c\<close>): its invariant over the step relation
      \<open>pool_step\<close>.
    \<^item> \<open>Block_Db\<close> (\<^verbatim>\<open>sqlite.c\<close>): every statement on the two tables; the block table interprets the
      locale \<open>block_store\<close>, a map from (device, offset).
    \<^item> \<open>Disk_Io\<close> (\<^verbatim>\<open>block_io.c\<close>, \<^verbatim>\<open>volume.c\<close>).  \<open>Config\<close> (the option readers of both \<^verbatim>\<open>main.c\<close>).
    \<^item> \<open>Block_Transfer\<close>, \<open>Incremental\<close>, \<open>Migrate\<close>, \<open>Commands\<close> (\<^verbatim>\<open>client/main.c\<close>): sending and
      acknowledging, the incremental rounds, \<open>do_migrate\<close> phase by phase, and the commands.
      \<open>Dry_Run\<close>: what a whole migration achieves.
    \<^item> \<open>Driver_Inject\<close>, \<open>Syschk\<close> (\<^verbatim>\<open>driver_inject.c\<close>, \<^verbatim>\<open>syschk.c\<close>): choosing and installing the
      drivers, and the environment check.
    \<^item> \<open>Vss\<close> (\<^verbatim>\<open>vss.c\<close>): the snapshot module in the state monad over the trace of its calls of the
      shadow copy service, with the commands that use it, and the contract of a snapshot (locale
      \<open>snapshot_source\<close>); \<open>Snapshots\<close>: what the migration does with it, proved over that contract.
    \<^item> \<open>Session\<close> (locale \<open>fd_table\<close>), \<open>Decoder\<close>, \<open>Block_Writer\<close>, \<open>Ack\<close>, \<open>Receiver\<close>: the files of
      \<^verbatim>\<open>src/server\<close>; \<open>Receiver_Main\<close>: \<open>main\<close> of the receiver, from the command line to the shutdown.
    \<^item> \<open>Genuine\<close>: what the client's operations keep of its queue, its sockets and its database when
      the source shows every block the same way (relation \<open>honest\<close>).  \<open>End_To_End\<close>: client, network and
      receiver as one system, with a step relation \<open>sys_step\<close> whose rules are the client's operations,
      TCP moving bytes, connections opening and closing, and the receiver's handlers.
    \<^item> \<open>Log\<close>, \<open>Server_Log\<close> (both \<^verbatim>\<open>log.c\<close>).  \<open>Hash_Tool\<close> (\<^verbatim>\<open>tools/hash_block.c\<close>): the stand-alone hash tool, with its own
      copy of the hash as a \<open>while\<close> loop.

  \<^bold>\<open>State.\<close>  A C struct is a record, with the fields in the order of the struct where they are used;
  fixed-width integers are words; \<open>malloc\<close>ed buffers are \<open>option\<close> values; a file is a function from
  addresses to bytes with a durable copy beside it.  The client's state \<open>client\<close> is \<open>migrate_ctx_t\<close>
  extended with its environment; the receiver's state \<open>receiver\<close> has the session table, the block
  writer and the two directions of every socket.

  \<^bold>\<open>The outside.\<close>  What the program asks the outside is answered by data in the state.  Sends, writes
  and receives follow scripts of outcomes (partial, would-block, interrupted, error).  The clock, the
  flag \<open>g_running\<close>, \<open>malloc\<close>, the SQL engine, \<open>connect\<close>, \<open>rand\<close> and the disks are functions of a
  counter \<open>x_tick\<close> that every question advances, so the answers may change from call to call.
  Library code that is not in the repository is a parameter: the compressor with the documented
  contract \<open>zstd_contract\<close>, the shadow copy service (\<open>win_env\<close>, which answers every call from the
  calls so far, with COM's rule for out parameters as \<open>com_rules\<close>), device opening, the operating
  system of the driver and environment checks.  Locked sections are single steps.

  \<^bold>\<open>Loops.\<close>  A loop with a bound in the code recurses over that bound (301 attempts of \<open>inc_push\<close>,
  3000 rounds of \<open>wait_done\<close>, 300 of \<open>drain_attempts\<close>).  A loop with a decreasing measure is a
  \<open>function\<close> with its termination proof (draining by the number of queued blocks, receiving by the
  bytes that have arrived).  A loop that may run forever is a \<open>partial_function\<close> whose value \<open>None\<close>
  is not returning: so \<open>do_reconnect_returns_iff\<close> says when the code hangs, and theorems that promise
  a result, such as \<open>dryrun_records_every_block\<close>, promise \<open>Some\<close>.

  \<^bold>\<open>What is shown.\<close>  End to end: in every run of client, network and receiver an acknowledged block is
  on its target disk (\<open>End_To_End\<close>), and durable after a shutdown (here); a block travels from the
  queue to the disk and back (here); streams
  of frames are delivered once and in order however TCP cuts them; a whole dry run records every
  block of every partition; a volume is read through a snapshot only if the service reported it for
  that volume; the snapshot module uses the service in its order and gives back what it takes; the
  receiver touches only its target disks and leaves them durable and closed; no bytes that arrive
  make it leave its buffers.  Refinements: ring buffer, session table and tracking table against
  their abstract data types, the encoder against a reference encoding, the tool's hash against the
  client's, the two builds of the block reader and the two log modules against each other.  Behaviour of every operation
  on its branches, error codes included, invariants of pool, queue, sessions and database, bounds of
  reads and buffers, round trips of encodings and options.  Several theorems state defects: blocks
  dropped without a connection, a payload freed while its block is still queued, a connection used
  again after a torn frame, a retransmission that never finds a block, a reconnection that
  hangs, acknowledgements that are lost when they arrive in pieces or sent before the data is
  durable, parts of a snapshot that are not transferred, changes the hash does not see, COM released
  once too often, a log level given by name.

  \<^bold>\<open>Not modelled.\<close>  The progress display, \<open>print_block_detail\<close> and the layout of most text on the
  console are output (the report of the environment check is modelled);
  sleeping changes no state; calls of \<open>log_write\<close> in the other components are left out, since no
  state depends on them; the tests (\<^verbatim>\<open>test/test_protocol.c\<close>) are not part of the program.  The
  builds of \<^verbatim>\<open>vss.c\<close> and \<^verbatim>\<open>driver_inject.c\<close> for other systems only return errors, and that of
  \<^verbatim>\<open>volume.c\<close> lists one empty partition.
  Running on with a mutex that could not be allocated is undefined in C and outside the model, and
  so is the structured exception handler around the transfer loop.  Where the sources have a Windows
  and a POSIX part, the model follows the POSIX calls for sockets, files and clocks and the Windows
  part for snapshots, drivers and the environment check (the block reader has both); the logic around
  the calls is the same.
\<close>

section \<open>One block, from the client's queue to the target disk and back\<close>

lemma contract_fits: "zstd_contract zc zsize zd \<Longrightarrow> zstd_fits zc"
  by (auto simp: zstd_contract_def zstd_fits_def)

text \<open>
  C2: The round trip of a block.  Let a block be at the head of the client's send queue, let the pool
  have a connection whose socket takes the frame, let the compressor succeed and the receiver have
  an idle session and a disk that takes the block.  Then \<open>flush_one\<close> sends it and returns 1; and
  however TCP cuts the bytes on the client's socket into pieces, \<open>handle_session\<close> on these pieces
  writes exactly the block to its offset on the target disk and answers with one response; and when
  that response arrives, \<open>process_ack\<close> marks the block as acknowledged in the tracking database,
  with the hash recorded when it was queued.
\<close>
theorem block_round_trip:
  fixes zc :: "int \<Rightarrow> bytes \<Rightarrow> u64 \<Rightarrow> bytes option" and s :: client and st :: receiver and devno :: u32 and off :: u64 and data :: bytes and j :: nat
  defines "msg \<equiv> block_encoding devno off data" and "sfd \<equiv> s_fd (rv_sessions st ! j)"
    and "dfd \<equiv> d_fd (bw_disks (rv_writer st) ! unat devno)"
  assumes zstd: "zstd_contract zc zsize zd" "zc (m_zstd_level s) msg (ZSTD_COMPRESS_BOUND (of_nat (length msg))) = Some c"
    and mode: "\<not> m_dry_run s" "\<not> m_tail_send s" "\<forall>t. x_sql s t = Runs"
    and queue: "queue_ok (m_queue s)" "q_list (m_queue s) = e # rest" "e_payload e = Some msg" "e_payload_len e = length msg"
    and db: "view (m_db s) (devno, off) = Some (h, a)"
    and conn: "pool_ok (m_pool s)" "pool_acquire (x_net s (x_tick s)) (x_time s (x_tick s + 1)) (m_pool s) = (Some i, p)"
      "c_send_scratch (p_conns p ! i) = Some scratch" "length scratch = SEND_SCRATCH_SIZE" "fd = c_fd (p_conns p ! i)"
      "sk_out (x_socks s fd) = []" "takes (sk_script (x_socks s fd)) (length (data_frame c))"
    and server: "j < length (rv_sessions st)" "session_ok (rv_sessions st ! j)" "pending (rv_sessions st ! j) = []"
      "accepts env (rv_writer st) (Block devno off data)" "bw_pending_bytes (rv_writer st) = 0"
      "calm [Block devno off data] (rv_writer st) (rv_socks st sfd)"
  shows "\<exists>s'. flush_one zc s = Some (1, s') \<and> q_list (m_queue s') = rest \<and> sk_out (x_socks s' fd) = data_frame c \<and>
    (\<forall>chunks. concat chunks = sk_out (x_socks s' fd) \<longrightarrow> (\<forall>b \<in> set chunks. b \<noteq> [] \<and> length b \<le> RECV_CHUNK) \<longrightarrow>
      (\<exists>st' r. handle_session zsize zd env now True j (st\<lparr>rv_rx := (rv_rx st)(sfd := map Avail chunks)\<rparr>) = Some st' \<and>
        bw_files (rv_writer st') = (bw_files (rv_writer st))(dfd := image_write (unat off) data (bw_files (rv_writer st) dfd)) \<and>
        sk_out (rv_socks st' sfd) = sk_out (rv_socks st sfd) @ response_bytes r \<and>
        view (m_db (process_ack (s'\<lparr>x_rx := \<lambda>f. if f = fd then [Avail (response_bytes r)] else []\<rparr>))) (devno, off) = Some (h, True)))"
proof -
  let ?m = "Block devno off data"
  have small: "length data \<le> BLOCK_SIZE_MAX" using server(4) by (simp add: accepts_def)
  obtain s' where s': "flush_one zc s = Some (1, s')" "sk_out (x_socks s' fd) = data_frame c" "q_list (m_queue s') = rest"
    "m_db s' = m_db s" "\<not> m_dry_run s'" "\<not> m_tail_send s'" "\<forall>t. x_sql s' t = Runs"
    "fd \<in> open_fds (m_pool s') [0..<SOCKET_POOL_TARGET]"
    using flush_one_sends [OF mode(1) queue msg_def [THEN meta_eq_to_obj_eq] small contract_fits [OF zstd(1)] zstd(2) conn(1-5,7)]
      conn(6) mode(2,3) by auto
  have sent: "list_all2 (sent_as zc) [?m] [data_frame c]"
    using zstd(2) small by (auto simp: sent_as_def Let_def msg_def)
  let ?r = "\<lparr>r_type = RESPONSE_ACK, r_devno = devno, r_size = of_nat (length data), r_offset = off\<rparr>"
  from effects_calm [of env "rv_writer st" "[?m]" "rv_socks st sfd"] server(4-6) obtain w' sk' where
    eff: "effects env [?m] (rv_writer st) (rv_socks st sfd) = Some (w', sk')"
      "bw_files w' = (bw_files (rv_writer st))(dfd := image_write (unat off) data (bw_files (rv_writer st) dfd))"
      "sk_out sk' = sk_out (rv_socks st sfd) @ response_bytes ?r"
    by (auto simp: image_of_def dfd_def responses_of_def)
  have "view (m_db (process_ack (s'\<lparr>x_rx := \<lambda>f. if f = fd then [Avail (response_bytes ?r)] else []\<rparr>))) (devno, off) = Some (h, True)"
    using process_ack_one [OF s'(5-8), of ?r h a] db s'(4) by (simp add: resp_key_def is_ack_def)
  moreover have "\<exists>st'. handle_session zsize zd env now True j (st\<lparr>rv_rx := (rv_rx st)(sfd := map Avail chunks)\<rparr>) = Some st' \<and>
      rv_writer st' = w' \<and> rv_socks st' sfd = sk'"
    if "concat chunks = data_frame c" "\<forall>b \<in> set chunks. b \<noteq> [] \<and> length b \<le> RECV_CHUNK" for chunks
    using handle_session_frames [OF zstd(1), of "rv_sessions st ! j" "st\<lparr>rv_rx := (rv_rx st)(sfd := map Avail chunks)\<rparr>" j
        "[?m]" "[data_frame c]" chunks env w' sk' now] server(1-3) sent that eff(1) by (auto simp: sfd_def)
  ultimately show ?thesis using s'(1-3) eff(2,3) by (intro exI [of _ s']) fastforce
qed

theorem block_round_trip_witness:
  "\<exists>s' st' r. flush_one store_zc (wired_client 77) = Some (1, s') \<and>
     handle_session store_zsize store_zd sample_env 0 True 0
       (sample_receiver\<lparr>rv_rx := (rv_rx sample_receiver)(5 := [Avail (sk_out (x_socks s' 9))])\<rparr>) = Some st' \<and>
     bw_files (rv_writer st') 3 = image_write 16 [7, 8] (bw_files (rv_writer sample_receiver) 3) \<and>
     view (m_db (process_ack (s'\<lparr>x_rx := \<lambda>f. if f = 9 then [Avail (response_bytes r)] else []\<rparr>))) (0, 16) = Some (77, True)"
proof -
  let ?msg = "block_encoding 0 16 [7, 8]"
  have zc: "store_zc (m_zstd_level (wired_client 77)) ?msg (ZSTD_COMPRESS_BOUND (of_nat (length ?msg))) = Some (0 # ?msg)"
    using wired_frame(3) by (simp add: wired_client_def sample_client_def)
  obtain p where p: "pool_acquire (None, Refused) 0 (wired_pool (replicate SEND_SCRATCH_SIZE 0)) = (Some 6, p)" "c_fd (p_conns p ! 6) = 9"
    "c_send_scratch (p_conns p ! 6) = Some (replicate SEND_SCRATCH_SIZE 0)" using wired_pool_slot by blast
  let ?s = "wired_client 77" and ?st = sample_receiver
  have mode: "\<not> m_dry_run ?s" "\<not> m_tail_send ?s" "\<forall>t. x_sql ?s t = Runs"
    by (simp_all add: wired_client_def sample_client_def)
  note queue = wired_queue [of 77]
  have db: "view (m_db ?s) (0, 16) = Some (77, False)" by (simp add: wired_client_def sample_client_def view_upsert)
  have conn: "pool_ok (m_pool ?s)" "pool_acquire (x_net ?s (x_tick ?s)) (x_time ?s (x_tick ?s + 1)) (m_pool ?s) = (Some 6, p)"
    "sk_out (x_socks ?s 9) = []" "takes (sk_script (x_socks ?s 9)) (length (data_frame (0 # ?msg)))"
    using wired_pool_ok p(1) wired_takes by (simp_all add: wired_client_def sample_client_def)
  have server: "0 < length (rv_sessions ?st)" "session_ok (rv_sessions ?st ! 0)" "pending (rv_sessions ?st ! 0) = []"
    "accepts sample_env (rv_writer ?st) (Block 0 16 [7, 8])" "bw_pending_bytes (rv_writer ?st) = 0"
    "calm [Block 0 16 [7, 8]] (rv_writer ?st) (rv_socks ?st (s_fd (rv_sessions ?st ! 0)))"
    by (simp_all add: sample_receiver_def session_ok_def pending_def new_session_def accepts_def sample_writer_def sample_env_def
        MAX_TARGET_DISKS_def proto_consts calm_def numeral_2_eq_2)
  have fds: "s_fd (rv_sessions ?st ! 0) = 5" "d_fd (bw_disks (rv_writer ?st) ! unat (0 :: u32)) = 3"
    by (simp_all add: sample_receiver_def sample_writer_def new_session_def)
  obtain s' where s': "flush_one store_zc ?s = Some (1, s')" "sk_out (x_socks s' 9) = data_frame (0 # ?msg)"
    and rest: "\<And>chunks. concat chunks = sk_out (x_socks s' 9) \<Longrightarrow> \<forall>b \<in> set chunks. b \<noteq> [] \<and> length b \<le> RECV_CHUNK \<Longrightarrow>
      \<exists>st' r. handle_session store_zsize store_zd sample_env 0 True 0 (?st\<lparr>rv_rx := (rv_rx ?st)(5 := map Avail chunks)\<rparr>) = Some st' \<and>
        bw_files (rv_writer st') = (bw_files (rv_writer ?st))(3 := image_write (unat (16 :: u64)) [7, 8] (bw_files (rv_writer ?st) 3)) \<and>
        sk_out (rv_socks st' 5) = sk_out (rv_socks ?st 5) @ response_bytes r \<and>
        view (m_db (process_ack (s'\<lparr>x_rx := \<lambda>f. if f = 9 then [Avail (response_bytes r)] else []\<rparr>))) (0, 16) = Some (77, True)"
    using block_round_trip [OF store_contract zc mode queue _ _ db conn(1,2) p(3) _ p(2) [symmetric] conn(3,4) server, of 0]
    unfolding fds by auto
  show ?thesis
    using s' rest [of "[sk_out (x_socks s' 9)]"] wired_frame(1,2) by (fastforce simp: RECV_CHUNK_def)
qed

section \<open>From the source to stable storage\<close>



end
